(* ===== verification/Prelude.thy ===== *)
theory Prelude
  imports Main "HOL-Library.Word"
begin

text \<open>
  Shared vocabulary of the development: the machine integer types of
  \<^verbatim>\<open>arch/riscv/include/typedefs.h\<close>, the page arithmetic of \<^verbatim>\<open>arch/riscv/include/riscv.h\<close>,
  the loop shapes the C sources use again and again (a bounded search, shifting an array by one
  place), and the facts about words and lists the component theories rest on.

  Conventions of the whole development. A pointer to a structure the caller owns is the value of
  the structure, so a test such as \<^verbatim>\<open>!set\<close> has no counterpart; a pointer that the code really
  branches on is an \<^typ>\<open>'a option\<close>. A C function that returns a status and changes its
  argument returns the pair of both. \<^verbatim>\<open>spinlock_acquire\<close> and \<^verbatim>\<open>spinlock_release\<close>
  delimit the atomic steps and leave no trace in the sequential definitions. \<^verbatim>\<open>PANIC\<close> is an
  explicit value of the result.
\<close>

unbundle bit_operations_syntax

subsection \<open>Machine integers\<close>

type_synonym u8 = "8 word"
type_synonym u16 = "16 word"
type_synonym u32 = "32 word"
type_synonym u64 = "64 word"

text \<open>The result of code that may call \<^verbatim>\<open>PANIC\<close>: \<open>Inl\<close> carries the message.\<close>

type_synonym 'a panicking = "string + 'a"

subsection \<open>Collections of facts\<close>

text \<open>\<open>scan_facts\<close>: what a bounded search returns. \<open>page_simps\<close>: page arithmetic on the
  unsigned value of an address. \<open>word_order\<close>: comparisons of words read as naturals.\<close>

named_theorems scan_facts
named_theorems page_simps
named_theorems word_order

lemmas [word_order] = word_le_nat_alt word_less_nat_alt

subsection \<open>Pages\<close>

definition PGSIZE :: u64 where
  "PGSIZE = 4096"

definition PGROUNDUP :: "u64 \<Rightarrow> u64" where
  "PGROUNDUP sz = (sz + PGSIZE - 1) AND NOT (PGSIZE - 1)"

definition PGROUNDDOWN :: "u64 \<Rightarrow> u64" where
  "PGROUNDDOWN a = a AND NOT (PGSIZE - 1)"

definition MAXVA :: u64 where
  "MAXVA = push_bit (9 + 9 + 9 + 12 - 1) 1"

abbreviation page_aligned :: "u64 \<Rightarrow> bool" where
  "page_aligned a \<equiv> a mod PGSIZE = 0"

lemma PGSIZE_unat [simp, page_simps]: "unat PGSIZE = 4096"
  by (simp add: PGSIZE_def)

lemma PGSIZE_pos [simp]: "PGSIZE \<noteq> 0" "0 < PGSIZE"
  by (simp_all add: PGSIZE_def)

lemma page_aligned_unat [page_simps]: "page_aligned a \<longleftrightarrow> 4096 dvd unat a"
proof -
  have "unat (a mod PGSIZE) = unat a mod 4096"
    by (simp add: unat_mod_distrib)
  then show ?thesis
    by (simp add: unat_eq_zero [symmetric] dvd_eq_mod_eq_0)
qed

lemma MAXVA_unat [simp, page_simps]: "unat MAXVA = 2 ^ 38"
  by (simp add: MAXVA_def push_bit_eq_mult)

text \<open>Clearing the low bits of a word is rounding its value down.\<close>

lemma unat_and_not_low_mask:
  fixes a :: "'a::len word"
  assumes "n \<le> LENGTH('a)"
  shows "unat (a AND NOT (mask n)) = unat a - unat a mod 2 ^ n"
proof -
  have "a = (a AND NOT (mask n)) OR (a AND mask n)"
    by (simp add: bit_eq_iff bit_simps) blast
  moreover have "(a AND NOT (mask n)) AND (a AND mask n) = 0"
    by (simp add: bit_eq_iff bit_simps)
  ultimately have "a = (a AND NOT (mask n)) + (a AND mask n)"
    by (metis disjunctive_add_eq_or)
  then have "a AND NOT (mask n) = a - (a AND mask n)"
    by (simp add: algebra_simps)
  moreover have "a AND mask n \<le> a"
    by (rule word_and_le2)
  ultimately have "unat (a AND NOT (mask n)) = unat a - unat (a AND mask n)"
    by (simp add: unat_sub)
  moreover have "unat (a AND mask n) = unat a mod 2 ^ n"
    by (simp only: take_bit_eq_mask [symmetric] unsigned_take_bit_eq) (simp only: take_bit_eq_mod)
  ultimately show ?thesis
    by simp
qed

subsection \<open>Unsigned overflow\<close>

text \<open>\<^verbatim>\<open>a + b < a\<close> is how the sources detect that an unsigned sum has wrapped around.\<close>

lemma add_overflow_iff:
  fixes a b :: "'a::len word"
  shows "a + b < a \<longleftrightarrow> 2 ^ LENGTH('a) \<le> unat a + unat b"
  using no_olen_add_nat [of a b] by (metis not_le)

lemma unat_add_no_overflow:
  fixes a b :: "'a::len word"
  shows "unat a + unat b < 2 ^ LENGTH('a) \<Longrightarrow> unat (a + b) = unat a + unat b"
  by (simp add: unat_add_lem [THEN iffD1])

lemma card_word_interval:
  fixes a b :: "'a::len word"
  shows "card {a..<b} = unat b - unat a"
proof -
  have "unat ` {a..<b} = {unat a..<unat b}"
  proof
    show "{unat a..<unat b} \<subseteq> unat ` {a..<b}"
    proof
      fix n
      assume n: "n \<in> {unat a..<unat b}"
      moreover have "unat b < 2 ^ LENGTH('a)"
        by (rule unsigned_less)
      ultimately have "n < 2 ^ LENGTH('a)"
        by (metis atLeastLessThan_iff less_trans)
      then have "unat (of_nat n :: 'a word) = n"
        by (simp add: unat_of_nat)
      then show "n \<in> unat ` {a..<b}"
        using n by (intro image_eqI [of _ _ "of_nat n"]) (auto simp: word_order)
    qed
  qed (auto simp: word_order)
  moreover have "inj_on unat {a..<b}"
    by (meson inj_onI word_unat_eq_iff)
  ultimately show ?thesis
    by (metis card_image card_atLeastLessThan)
qed

subsection \<open>Loops of fallible updates\<close>

text \<open>
  \<^verbatim>\<open>for each (a, b): if (op(&s, a, b) < 0) PANIC(...);\<close> threads the state through the calls and
  stops at the first one that reports an error.
\<close>

fun update_all :: "('s \<Rightarrow> 'x \<Rightarrow> 'x \<Rightarrow> int \<times> 's) \<Rightarrow> 's \<Rightarrow> ('x \<times> 'x) list \<Rightarrow> 's option" where
  "update_all f s [] = Some s"
| "update_all f s ((a, b) # xs) = (case f s a b of (c, s') \<Rightarrow> if c < 0 then None else update_all f s' xs)"

subsection \<open>Bounded search\<close>

text \<open>
  \<^verbatim>\<open>for (; i < n; i++) if (p(i)) break;\<close> leaves \<open>i\<close> at the first hit, or at \<open>n\<close>.
\<close>

function scan :: "(nat \<Rightarrow> bool) \<Rightarrow> nat \<Rightarrow> nat \<Rightarrow> nat" where
  "scan p i n = (if i < n then if p i then i else scan p (i + 1) n else i)"
  by pat_completeness auto
termination
  by (relation "measure (\<lambda>(p, i, n). n - i)") auto

declare scan.simps [simp del]

lemma scan_le [scan_facts]: "i \<le> n \<Longrightarrow> scan p i n \<le> n"
  by (induction p i n rule: scan.induct) (subst scan.simps, auto)

lemma scan_ge [scan_facts]: "i \<le> scan p i n"
  by (induction p i n rule: scan.induct) (subst scan.simps, auto)

lemma scan_next: "i < n \<Longrightarrow> \<not> p i \<Longrightarrow> scan p i n = scan p (i + 1) n"
  by (subst scan.simps) simp

lemma scan_stop: "\<not> (i < n \<and> \<not> p i) \<Longrightarrow> scan p i n = i"
  by (subst scan.simps) auto

lemma scan_hit [scan_facts]: "scan p i n < n \<Longrightarrow> p (scan p i n)"
proof (induction p i n rule: scan.induct)
  case (1 p i n)
  show ?case
  proof (cases "i < n \<and> \<not> p i")
    case True
    then show ?thesis
      using "1.IH" "1.prems" by (metis scan_next)
  next
    case False
    then show ?thesis
      using "1.prems" by (metis scan_stop)
  qed
qed

lemma scan_miss [scan_facts]: "i \<le> j \<Longrightarrow> j < scan p i n \<Longrightarrow> \<not> p j"
proof (induction p i n rule: scan.induct)
  case (1 p i n)
  show ?case
  proof (cases "i < n \<and> \<not> p i")
    case True
    then show ?thesis
      using "1.IH" "1.prems" by (cases "i = j") (simp_all add: scan_next)
  next
    case False
    then show ?thesis
      using "1.prems" by (simp add: scan_stop)
  qed
qed

lemma scan_eqI:
  assumes "i \<le> k" "k \<le> n" "\<And>j. i \<le> j \<Longrightarrow> j < k \<Longrightarrow> \<not> p j" "k < n \<Longrightarrow> p k"
  shows "scan p i n = k"
proof (rule antisym)
  show "scan p i n \<le> k"
    using assms(1,2,4) scan_le [of i n p] scan_miss [of i k p n] by fastforce
  show "k \<le> scan p i n"
    using assms(2,3) scan_hit [of p i n] scan_ge [of i p n] by fastforce
qed

text \<open>A search over the first \<open>n\<close> places of an array is a prefix of the list of these places.\<close>

lemma scan_takeWhile:
  assumes "n \<le> length xs"
  shows "scan (\<lambda>i. p (xs ! i)) 0 n = length (takeWhile (\<lambda>x. \<not> p x) (take n xs))"
proof (rule scan_eqI)
  let ?t = "takeWhile (\<lambda>x. \<not> p x) (take n xs)"
  show "length ?t \<le> n"
    using length_takeWhile_le [of "\<lambda>x. \<not> p x" "take n xs"] by simp
  show "\<not> p (xs ! j)" if "j < length ?t" for j
  proof -
    have "j < n"
      using that \<open>length ?t \<le> n\<close> by simp
    then have "?t ! j = xs ! j"
      using that by (simp add: takeWhile_nth)
    then show ?thesis
      using that nth_mem set_takeWhileD by metis
  qed
  show "p (xs ! length ?t)" if "length ?t < n"
    using nth_length_takeWhile [of "\<lambda>x. \<not> p x" "take n xs"] that assms by simp
qed simp

subsection \<open>Shifting an array by one place\<close>

text \<open>
  \<open>array_shift_down\<close> is \<^verbatim>\<open>for (; i + 1 < n; i++) a[i] = a[i + 1];\<close>, the loop that closes a
  gap; \<open>array_shift_up\<close> is \<^verbatim>\<open>for (; i > first; i--) a[i] = a[i - 1];\<close>, the loop that opens
  one.
\<close>

function array_shift_down :: "'a list \<Rightarrow> nat \<Rightarrow> nat \<Rightarrow> 'a list" where
  "array_shift_down a i n =
     (if i + 1 < n then array_shift_down (a[i := a ! (i + 1)]) (i + 1) n else a)"
  by pat_completeness auto
termination
  by (relation "measure (\<lambda>(a, i, n). n - i)") auto

declare array_shift_down.simps [simp del]

fun array_shift_up :: "'a list \<Rightarrow> nat \<Rightarrow> nat \<Rightarrow> 'a list" where
  "array_shift_up a first i =
     (if first < i then array_shift_up (a[i := a ! (i - 1)]) first (i - 1) else a)"

declare array_shift_up.simps [simp del]

lemma length_array_shift_down [simp]: "length (array_shift_down a i n) = length a"
  by (induction a i n rule: array_shift_down.induct) (subst array_shift_down.simps, simp)

lemma length_array_shift_up [simp]: "length (array_shift_up a first i) = length a"
  by (induction a first i rule: array_shift_up.induct) (subst array_shift_up.simps, simp)

lemma nth_array_shift_down:
  "n \<le> length a \<Longrightarrow> j < length a \<Longrightarrow>
   array_shift_down a i n ! j = (if i \<le> j \<and> j + 1 < n then a ! (j + 1) else a ! j)"
proof (induction a i n rule: array_shift_down.induct)
  case (1 a i n)
  show ?case
  proof (cases "i + 1 < n")
    case True
    then have "array_shift_down a i n ! j = array_shift_down (a[i := a ! (i + 1)]) (i + 1) n ! j"
      by (simp add: array_shift_down.simps [of a i n])
    then show ?thesis
      using "1.IH" [OF True] "1.prems" True by (auto simp: nth_list_update)
  next
    case False
    then show ?thesis
      by (auto simp: array_shift_down.simps [of a i n])
  qed
qed

lemma nth_array_shift_up:
  "i < length a \<Longrightarrow> j < length a \<Longrightarrow>
   array_shift_up a first i ! j = (if first < j \<and> j \<le> i then a ! (j - 1) else a ! j)"
proof (induction a first i rule: array_shift_up.induct)
  case (1 a first i)
  show ?case
  proof (cases "first < i")
    case True
    then have "array_shift_up a first i ! j = array_shift_up (a[i := a ! (i - 1)]) first (i - 1) ! j"
      by (simp add: array_shift_up.simps [of a first i])
    then show ?thesis
      using "1.IH" [OF True] "1.prems" True by (auto simp: nth_list_update)
  next
    case False
    then show ?thesis
      by (auto simp: array_shift_up.simps [of a first i])
  qed
qed

lemma take_array_shift_down:
  assumes "i < n" "n \<le> length a"
  shows "take (n - 1) (array_shift_down a i n) = take i a @ drop (i + 1) (take n a)"
proof (rule nth_equalityI)
  show len: "length (take (n - 1) (array_shift_down a i n)) = length (take i a @ drop (i + 1) (take n a))"
    using assms by simp
  fix j
  assume "j < length (take (n - 1) (array_shift_down a i n))"
  then have "Suc j < n"
    using assms by simp
  then show "take (n - 1) (array_shift_down a i n) ! j = (take i a @ drop (i + 1) (take n a)) ! j"
    using assms by (cases "j < i") (simp_all add: nth_array_shift_down nth_append)
qed

lemma take_array_shift_up:
  assumes "first \<le> n" "n < length a"
  shows "take (n + 1) ((array_shift_up a first n)[first := x])
       = take first a @ x # drop first (take n a)"
proof (rule nth_equalityI)
  show "length (take (n + 1) ((array_shift_up a first n)[first := x]))
      = length (take first a @ x # drop first (take n a))"
    using assms by simp
  fix j
  assume "j < length (take (n + 1) ((array_shift_up a first n)[first := x]))"
  then have j: "j \<le> n"
    using assms by simp
  consider "j < first" | "j = first" | "first < j"
    by linarith
  then show "take (n + 1) ((array_shift_up a first n)[first := x]) ! j
      = (take first a @ x # drop first (take n a)) ! j"
  proof cases
    case 3
    then obtain d where "j = first + Suc d"
      by (metis less_iff_Suc_add add_Suc_right)
    then show ?thesis
      using assms j by (simp add: nth_array_shift_up nth_append)
  qed (use assms j in \<open>simp_all add: nth_array_shift_up nth_append\<close>)
qed

lemma unat64_less: "unat (w :: u64) < 18446744073709551616"
  using unsigned_less [where 'a = nat, of w] by simp

lemma unat_inc: "i < n \<Longrightarrow> unat (i + 1) = unat i + 1" for i n :: "'a::len word"
proof -
  assume "i < n"
  then have "i + 1 \<noteq> 0" by (metis add_diff_cancel_right' diff_0 leD word_n1_ge)
  then show ?thesis using unatSuc [of i] by (simp add: add.commute)
qed

lemma uint_pos: "w \<noteq> 0 \<Longrightarrow> 0 < uint w" for w :: "'a::len word"
  by (metis order_le_less uint_0_iff unsigned_greater_eq)

lemma unat_mult_no_overflow:
  fixes a b :: "'a::len word"
  shows "unat a * unat b < 2 ^ LENGTH('a) \<Longrightarrow> unat (a * b) = unat a * unat b"
  by (simp add: unat_mult_lem [THEN iffD1])

lemma unat_ucast_32_64 [simp]: "unat (ucast (w :: u32) :: u64) = unat w"
proof -
  have "unat w < 2 ^ 32" using unsigned_less [where 'a = nat, of w] by simp
  then have "unat w < 2 ^ 64" by simp
  then show ?thesis by (simp add: unsigned_ucast_eq take_bit_nat_eq_self)
qed

text \<open>The measures of a counter that runs down, and of one that runs up to a bound.\<close>

lemma measure_unat_pred: "k < n \<Longrightarrow> unat (n - 1) < unat n" for k n :: "'a::len word"
proof -
  assume "k < n"
  then have "n \<noteq> 0" by auto
  then show ?thesis using unat_minus_one [of n] unat_gt_0 [of n] by (metis diff_less zero_less_one)
qed

lemma measure_unat_diff: "i < n \<Longrightarrow> unat (n - (i + 1)) < unat (n - i)" for i n :: "'a::len word"
proof -
  assume "i < n"
  then have "n - i \<noteq> 0" by simp
  moreover have "n - (i + 1) = n - i - 1" by simp
  ultimately show ?thesis using unat_minus_one [of "n - i"] unat_gt_0 [of "n - i"] by (metis diff_less zero_less_one)
qed

end
