(* ===== verification/Memrange.thy ===== *)
theory Memrange
  imports Prelude
begin

text \<open>
  \<^verbatim>\<open>kernel/memrange.c\<close>: a bounded array of half-open address ranges, kept sorted and
  coalesced, from which the boot code computes the usable physical memory. The array loops of the
  source are kept as loops over an index; the live part of the array is
  \<open>mr_live\<close>, and \<open>mr_addrs\<close> is the set of addresses it stands for. The lemmas
  show that the operations are union, difference and inclusion of address sets.
\<close>

subsection \<open>Data and operations\<close>

definition MEMRANGE_MAX :: nat where
  "MEMRANGE_MAX = 64"

record memrange =
  r_start :: u64
  r_end :: u64

record memrange_set =
  ranges :: "memrange list"
  mr_count :: nat

definition memrange_delete :: "memrange_set \<Rightarrow> nat \<Rightarrow> memrange_set" where
  "memrange_delete s index =
     s\<lparr>ranges := array_shift_down (ranges s) index (mr_count s), mr_count := mr_count s - 1\<rparr>"

definition memrange_init :: "memrange_set \<Rightarrow> memrange_set" where
  "memrange_init s = s\<lparr>mr_count := 0\<rparr>"

text \<open>The loop of \<^verbatim>\<open>memrange_add\<close> that swallows every range touching the new one.\<close>

function memrange_absorb :: "memrange list \<Rightarrow> nat \<Rightarrow> nat \<Rightarrow> u64 \<Rightarrow> u64 \<Rightarrow> nat \<times> u64 \<times> u64" where
  "memrange_absorb rs n lst start finish =
     (if lst < n \<and> r_start (rs ! lst) \<le> finish then
        memrange_absorb rs n (lst + 1)
          (if r_start (rs ! lst) < start then r_start (rs ! lst) else start)
          (if r_end (rs ! lst) > finish then r_end (rs ! lst) else finish)
      else (lst, start, finish))"
  by pat_completeness auto
termination
  by (relation "measure (\<lambda>(rs, n, lst, start, finish). n - lst)") auto

declare memrange_absorb.simps [simp del]

text \<open>\<^verbatim>\<open>while (last-- > first + 1) memrange_delete(set, first + 1);\<close>\<close>

fun memrange_drop :: "memrange_set \<Rightarrow> nat \<Rightarrow> nat \<Rightarrow> memrange_set" where
  "memrange_drop s first lst =
     (if first + 1 < lst then memrange_drop (memrange_delete s (first + 1)) first (lst - 1)
      else s)"

declare memrange_drop.simps [simp del]

definition memrange_add :: "memrange_set \<Rightarrow> u64 \<Rightarrow> u64 \<Rightarrow> int \<times> memrange_set" where
  "memrange_add s start finish =
     (if start \<ge> finish then (-1, s)
      else
        let first = scan (\<lambda>i. r_end (ranges s ! i) \<ge> start) 0 (mr_count s);
            (lst, start', finish') = memrange_absorb (ranges s) (mr_count s) first start finish;
            new = \<lparr>r_start = start', r_end = finish'\<rparr>
        in if first = lst then
             if mr_count s \<ge> MEMRANGE_MAX then (-1, s)
             else (0, s\<lparr>ranges := (array_shift_up (ranges s) first (mr_count s))[first := new],
                        mr_count := mr_count s + 1\<rparr>)
           else let s' = memrange_drop s first lst
                in (0, s'\<lparr>ranges := (ranges s')[first := new]\<rparr>))"

function memrange_remove_loop :: "memrange_set \<Rightarrow> u64 \<Rightarrow> u64 \<Rightarrow> nat \<Rightarrow> int \<times> memrange_set" where
  "memrange_remove_loop s start finish i =
     (if i < mr_count s then
        let r = ranges s ! i in
        if finish \<le> r_start r then (0, s)
        else if start \<ge> r_end r then memrange_remove_loop s start finish (i + 1)
        else if start \<le> r_start r \<and> finish \<ge> r_end r then
          memrange_remove_loop (memrange_delete s i) start finish i
        else if start \<le> r_start r then
          (0, s\<lparr>ranges := (ranges s)[i := r\<lparr>r_start := finish\<rparr>]\<rparr>)
        else if finish \<ge> r_end r then
          memrange_remove_loop (s\<lparr>ranges := (ranges s)[i := r\<lparr>r_end := start\<rparr>]\<rparr>) start finish (i + 1)
        else if mr_count s \<ge> MEMRANGE_MAX then (-1, s)
        else (0, s\<lparr>ranges := ((array_shift_up (ranges s) (i + 1) (mr_count s))
                     [i + 1 := \<lparr>r_start = finish, r_end = r_end r\<rparr>])[i := r\<lparr>r_end := start\<rparr>],
                   mr_count := mr_count s + 1\<rparr>)
      else (0, s))"
  by pat_completeness auto
termination
  by (relation "measure (\<lambda>(s, start, finish, i). mr_count s - i)") (auto simp: memrange_delete_def)

declare memrange_remove_loop.simps [simp del]

definition memrange_remove :: "memrange_set \<Rightarrow> u64 \<Rightarrow> u64 \<Rightarrow> int \<times> memrange_set" where
  "memrange_remove s start finish =
     (if start \<ge> finish then (-1, s) else memrange_remove_loop s start finish 0)"

definition memrange_contains :: "memrange_set \<Rightarrow> u64 \<Rightarrow> u64 \<Rightarrow> bool" where
  "memrange_contains s start finish =
     (if start \<ge> finish then False
      else
        let i = scan (\<lambda>i. start < r_start (ranges s ! i) \<or>
                          (start \<ge> r_start (ranges s ! i) \<and> finish \<le> r_end (ranges s ! i)))
                     0 (mr_count s)
        in i < mr_count s \<and> \<not> start < r_start (ranges s ! i))"

definition memrange_get :: "memrange_set \<Rightarrow> int \<Rightarrow> (u64 \<times> u64) option" where
  "memrange_get s index =
     (if index < 0 \<or> index \<ge> int (mr_count s) then None
      else Some (r_start (ranges s ! nat index), r_end (ranges s ! nat index)))"

function memrange_total_loop :: "memrange_set \<Rightarrow> nat \<Rightarrow> u64 \<Rightarrow> u64 option" where
  "memrange_total_loop s i bytes =
     (if i < mr_count s then
        let size = r_end (ranges s ! i) - r_start (ranges s ! i)
        in if bytes + size < bytes then None else memrange_total_loop s (i + 1) (bytes + size)
      else Some bytes)"
  by pat_completeness auto
termination
  by (relation "measure (\<lambda>(s, i, bytes). mr_count s - i)") auto

declare memrange_total_loop.simps [simp del]

definition memrange_total :: "memrange_set \<Rightarrow> u64 option" where
  "memrange_total s = memrange_total_loop s 0 0"

subsection \<open>The address set a memrange set stands for\<close>

definition mr_live :: "memrange_set \<Rightarrow> memrange list" where
  "mr_live s = take (mr_count s) (ranges s)"

definition range_addrs :: "memrange \<Rightarrow> u64 set" where
  "range_addrs r = {r_start r..<r_end r}"

definition mr_addrs :: "memrange list \<Rightarrow> u64 set" where
  "mr_addrs rs = (\<Union>r\<in>set rs. range_addrs r)"

definition mr_apart :: "memrange \<Rightarrow> memrange \<Rightarrow> bool" where
  "mr_apart a b \<longleftrightarrow> r_end a < r_start b"

definition mr_sorted :: "memrange list \<Rightarrow> bool" where
  "mr_sorted rs \<longleftrightarrow> sorted_wrt mr_apart rs \<and> (\<forall>r\<in>set rs. r_start r < r_end r)"

text \<open>The representation invariant: a full-size array whose live prefix holds non-empty ranges in
  increasing order, with a gap between any two of them.\<close>

definition mr_wf :: "memrange_set \<Rightarrow> bool" where
  "mr_wf s \<longleftrightarrow> length (ranges s) = MEMRANGE_MAX \<and> mr_count s \<le> MEMRANGE_MAX \<and> mr_sorted (mr_live s)"

lemma mr_addrs_simps [simp]:
  "mr_addrs [] = {}"
  "mr_addrs (r # rs) = range_addrs r \<union> mr_addrs rs"
  "mr_addrs (rs @ qs) = mr_addrs rs \<union> mr_addrs qs"
  by (auto simp: mr_addrs_def)

lemma mr_sorted_simps [simp]:
  "mr_sorted []"
  "mr_sorted (r # rs) \<longleftrightarrow>
     r_start r < r_end r \<and> (\<forall>q\<in>set rs. r_end r < r_start q) \<and> mr_sorted rs"
  by (auto simp: mr_sorted_def mr_apart_def)

lemma mr_sorted_append [simp]:
  "mr_sorted (rs @ qs) \<longleftrightarrow>
     mr_sorted rs \<and> mr_sorted qs \<and> (\<forall>r\<in>set rs. \<forall>q\<in>set qs. r_end r < r_start q)"
  by (auto simp: mr_sorted_def mr_apart_def sorted_wrt_append)

lemma mr_sortedD: "mr_sorted rs \<Longrightarrow> r \<in> set rs \<Longrightarrow> r_start r < r_end r"
  by (simp add: mr_sorted_def)

lemma length_mr_live [simp]: "mr_wf s \<Longrightarrow> length (mr_live s) = mr_count s"
  by (simp add: mr_wf_def mr_live_def)

lemma nth_mr_live: "i < mr_count s \<Longrightarrow> mr_live s ! i = ranges s ! i"
  by (simp add: mr_live_def)

lemma mr_live_memrange_delete:
  assumes "i < mr_count s" "mr_count s \<le> length (ranges s)"
  shows "mr_live (memrange_delete s i) = take i (mr_live s) @ drop (i + 1) (mr_live s)"
  using take_array_shift_down [OF assms] assms
  by (simp add: mr_live_def memrange_delete_def min.absorb1)

lemma memrange_delete_sel [simp]:
  "mr_count (memrange_delete s i) = mr_count s - 1"
  "length (ranges (memrange_delete s i)) = length (ranges s)"
  by (simp_all add: memrange_delete_def)

subsection \<open>Adding a range\<close>

text \<open>The absorbing loop on the list of the ranges from \<open>lst\<close> on.\<close>

fun absorb :: "memrange list \<Rightarrow> u64 \<Rightarrow> u64 \<Rightarrow> memrange list \<times> u64 \<times> u64" where
  "absorb [] a b = ([], a, b)"
| "absorb (r # rs) a b =
     (if r_start r \<le> b then absorb rs (min (r_start r) a) (max (r_end r) b) else (r # rs, a, b))"

lemma memrange_absorb_eq:
  assumes "lst \<le> n" "n \<le> length rs"
  shows "memrange_absorb rs n lst a b =
    (case absorb (drop lst (take n rs)) a b of (rest, a', b') \<Rightarrow> (n - length rest, a', b'))"
  using assms
proof (induction rs n lst a b rule: memrange_absorb.induct)
  case (1 rs n lst a b)
  show ?case
  proof (cases "lst < n")
    case True
    then have "drop lst (take n rs) = rs ! lst # drop (lst + 1) (take n rs)"
      using "1.prems" by (simp add: Cons_nth_drop_Suc [symmetric])
    then show ?thesis
      using "1.IH" "1.prems" True
      by (auto simp: memrange_absorb.simps [of rs n lst] min_def max_def not_less)
  next
    case False
    then show ?thesis
      using "1.prems" by (subst memrange_absorb.simps) simp
  qed
qed

lemma interval_merge:
  fixes a b c d :: "'a::linorder"
  assumes "c \<le> b" "a \<le> d" "a \<le> b" "c \<le> d"
  shows "{min c a..<max d b} = {a..<b} \<union> {c..<d}"
  using assms by (auto simp: min_le_iff_disj less_max_iff_disj)

lemma absorb_spec:
  assumes "absorb rs a b = (rest, a', b')" "mr_sorted rs" "a < b" "\<forall>r\<in>set rs. a \<le> r_end r"
  obtains pre where
    "rs = pre @ rest" "a' \<le> a" "b \<le> b'" "{a'..<b'} = {a..<b} \<union> mr_addrs pre"
    "\<forall>r\<in>set rest. b' < r_start r" "\<And>x. x < a \<Longrightarrow> \<forall>r\<in>set pre. x < r_start r \<Longrightarrow> x < a'"
  using assms
proof (induction rs a b arbitrary: thesis rule: absorb.induct)
  case (1 a b)
  then show ?case
    by simp
next
  case (2 r rs a b)
  show ?case
  proof (cases "r_start r \<le> b")
    case True
    let ?a = "min (r_start r) a" and ?b = "max (r_end r) b"
    have prems: "absorb rs ?a ?b = (rest, a', b')" "mr_sorted rs" "?a < ?b"
        "\<forall>r\<in>set rs. ?a \<le> r_end r"
      using "2.prems" True by (auto simp: min_le_iff_disj less_max_iff_disj min_less_iff_disj)
    obtain pre where pre: "rs = pre @ rest" "a' \<le> ?a" "?b \<le> b'"
        "{a'..<b'} = {?a..<?b} \<union> mr_addrs pre" "\<forall>r\<in>set rest. b' < r_start r"
        "\<And>x. x < ?a \<Longrightarrow> \<forall>r\<in>set pre. x < r_start r \<Longrightarrow> x < a'"
      using "2.IH" [OF True _ prems] by blast
    have "{?a..<?b} = {a..<b} \<union> range_addrs r"
      unfolding range_addrs_def using "2.prems" True by (intro interval_merge) auto
    then show ?thesis
      using "2.prems"(1) [of "r # pre"] pre by (auto simp: Un_assoc)
  next
    case False
    then have "r_start r > b"
      by simp
    moreover have "r_start q > b" if "q \<in> set rs" for q
      using "2.prems"(3) that \<open>r_start r > b\<close> by force
    ultimately show ?thesis
      using "2.prems"(1) [of "[]"] "2.prems"(2) False by auto
  qed
qed

lemma mr_live_memrange_drop:
  assumes "first < lst" "lst \<le> mr_count s" "mr_count s \<le> length (ranges s)"
  shows "mr_live (memrange_drop s first lst) = take (first + 1) (mr_live s) @ drop lst (mr_live s) \<and>
    mr_count (memrange_drop s first lst) = mr_count s - (lst - (first + 1)) \<and>
    length (ranges (memrange_drop s first lst)) = length (ranges s)"
  using assms
proof (induction s first lst rule: memrange_drop.induct)
  case (1 s first lst)
  show ?case
  proof (cases "first + 1 < lst")
    case True
    have live: "mr_live (memrange_delete s (first + 1)) =
        take (first + 1) (mr_live s) @ drop (first + 2) (mr_live s)"
      using True "1.prems" by (subst mr_live_memrange_delete) auto
    have len: "length (mr_live s) = mr_count s"
      using "1.prems" by (simp add: mr_live_def)
    have "mr_live (memrange_drop s first lst) = take (first + 1) (mr_live (memrange_delete s (first + 1)))
        @ drop (lst - 1) (mr_live (memrange_delete s (first + 1))) \<and>
      mr_count (memrange_drop s first lst) = mr_count s - (lst - (first + 1)) \<and>
      length (ranges (memrange_drop s first lst)) = length (ranges s)"
      using "1.IH" [OF True] "1.prems" True
      by (subst (1 2 3) memrange_drop.simps) auto
    moreover have "Suc (Suc (lst - 2)) = lst"
      using True by simp
    ultimately show ?thesis
      using True "1.prems" len by (simp add: live [simplified])
  next
    case False
    then have "lst = first + 1"
      using "1.prems" by simp
    then show ?thesis
      by (subst (1 2 3) memrange_drop.simps) simp
  qed
qed

text \<open>The whole operation on the live list.\<close>

definition add_list :: "memrange list \<Rightarrow> u64 \<Rightarrow> u64 \<Rightarrow> memrange list" where
  "add_list L a b =
     (case absorb (dropWhile (\<lambda>r. r_end r < a) L) a b of
        (rest, a', b') \<Rightarrow> takeWhile (\<lambda>r. r_end r < a) L @ \<lparr>r_start = a', r_end = b'\<rparr> # rest)"

lemma drop_length_takeWhile: "drop (length (takeWhile P xs)) xs = dropWhile P xs"
  by (metis append_eq_conv_conj takeWhile_dropWhile_id)

lemma take_length_takeWhile: "take (length (takeWhile P xs)) xs = takeWhile P xs"
  by (metis append_eq_conv_conj takeWhile_dropWhile_id)

lemma absorb_suffix: "absorb rs a b = (rest, a', b') \<Longrightarrow> \<exists>pre. rs = pre @ rest"
  by (induction rs a b rule: absorb.induct) (auto split: if_splits)

lemma absorb_length: "absorb rs a b = (rest, a', b') \<Longrightarrow> length rest \<le> length rs"
  using absorb_suffix by fastforce

lemma absorb_id: "absorb rs a b = (rest, a', b') \<Longrightarrow> length rest = length rs \<Longrightarrow> a' = a \<and> b' = b"
  by (cases rs) (auto split: if_splits dest: absorb_length)

text \<open>The two loops of \<^verbatim>\<open>memrange_add\<close> evaluated on the live list.\<close>

lemma memrange_add_loops:
  assumes "mr_wf s" "absorb (dropWhile (\<lambda>r. r_end r < a) (mr_live s)) a b = (rest, a', b')"
  defines "first \<equiv> length (takeWhile (\<lambda>r. r_end r < a) (mr_live s))"
  shows "scan (\<lambda>i. r_end (ranges s ! i) \<ge> a) 0 (mr_count s) = first"
    and "memrange_absorb (ranges s) (mr_count s) first a b = (mr_count s - length rest, a', b')"
    and "first + length rest \<le> mr_count s"
    and "drop (mr_count s - length rest) (mr_live s) = rest"
proof -
  let ?D = "dropWhile (\<lambda>r. r_end r < a) (mr_live s)"
  have len: "mr_count s \<le> length (ranges s)" "length (mr_live s) = mr_count s"
    using assms(1) by (auto simp: mr_wf_def)
  show "scan (\<lambda>i. r_end (ranges s ! i) \<ge> a) 0 (mr_count s) = first"
    using scan_takeWhile [OF len(1), of "\<lambda>r. r_end r \<ge> a"]
    by (simp add: first_def mr_live_def not_le)
  have D: "drop first (mr_live s) = ?D"
    by (simp add: first_def drop_length_takeWhile)
  have "first \<le> mr_count s"
    using len(2) length_takeWhile_le [of _ "mr_live s"] by (simp add: first_def)
  then show "memrange_absorb (ranges s) (mr_count s) first a b = (mr_count s - length rest, a', b')"
    using memrange_absorb_eq [of first "mr_count s" "ranges s" a b] len assms(2) D
    by (simp add: mr_live_def)
  obtain pre where pre: "?D = pre @ rest"
    using absorb_suffix [OF assms(2)] by blast
  then have live: "mr_live s = take first (mr_live s) @ pre @ rest"
    by (metis D append_take_drop_id)
  have "length ?D = mr_count s - first"
    using D len(2) by (metis length_drop)
  then show "first + length rest \<le> mr_count s"
    using pre \<open>first \<le> mr_count s\<close> by simp
  show "drop (mr_count s - length rest) (mr_live s) = rest"
    using len(2) by (metis add_diff_cancel_right' append.assoc append_eq_conv_conj length_append live)
qed

lemma memrange_add_live:
  assumes "mr_wf s" "a < b" "memrange_add s a b = (0, s')"
  shows "mr_live s' = add_list (mr_live s) a b"
    and "length (ranges s') = MEMRANGE_MAX" "mr_count s' \<le> MEMRANGE_MAX"
proof -
  obtain rest a' b' where abs: "absorb (dropWhile (\<lambda>r. r_end r < a) (mr_live s)) a b = (rest, a', b')"
    by (cases "absorb (dropWhile (\<lambda>r. r_end r < a) (mr_live s)) a b")
  define first where "first = length (takeWhile (\<lambda>r. r_end r < a) (mr_live s))"
  define lst where "lst = mr_count s - length rest"
  note loops = memrange_add_loops [OF assms(1) abs, folded first_def, folded lst_def]
  have len: "length (ranges s) = MEMRANGE_MAX" "mr_count s \<le> MEMRANGE_MAX"
      "length (mr_live s) = mr_count s" "first \<le> lst" "lst \<le> mr_count s"
    using assms(1) loops(3) by (auto simp: mr_wf_def lst_def)
  let ?new = "\<lparr>r_start = a', r_end = b'\<rparr>"
  have addl: "add_list (mr_live s) a b = take first (mr_live s) @ ?new # drop lst (mr_live s)"
    by (simp add: add_list_def abs loops(4) first_def take_length_takeWhile)
  have eval: "memrange_add s a b =
      (if first = lst then
         if mr_count s \<ge> MEMRANGE_MAX then (-1, s)
         else (0, s\<lparr>ranges := (array_shift_up (ranges s) first (mr_count s))[first := ?new],
                    mr_count := mr_count s + 1\<rparr>)
       else let t = memrange_drop s first lst in (0, t\<lparr>ranges := (ranges t)[first := ?new]\<rparr>))"
    unfolding memrange_add_def Let_def loops(1) loops(2) prod.case by (simp add: not_le [symmetric] assms(2) [unfolded not_le [symmetric]])
  have "mr_live s' = add_list (mr_live s) a b \<and> length (ranges s') = MEMRANGE_MAX \<and>
      mr_count s' \<le> MEMRANGE_MAX"
  proof (cases "first = lst")
    case True
    then have "mr_count s < MEMRANGE_MAX"
        "s' = s\<lparr>ranges := (array_shift_up (ranges s) first (mr_count s))[first := ?new],
              mr_count := mr_count s + 1\<rparr>"
      using assms(2,3) by (auto simp: eval split: if_splits)
    then show ?thesis
      using take_array_shift_up [of first "mr_count s" "ranges s" ?new] len addl True
      by (simp add: mr_live_def)
  next
    case False
    define t where "t = memrange_drop s first lst"
    have t: "mr_live t = take (first + 1) (mr_live s) @ drop lst (mr_live s)"
        "mr_count t \<le> mr_count s" "length (ranges t) = MEMRANGE_MAX"
      using mr_live_memrange_drop [of first lst s] len False by (auto simp: t_def)
    have "s' = t\<lparr>ranges := (ranges t)[first := ?new]\<rparr>"
      using assms(2,3) False by (auto simp: eval Let_def t_def)
    then have "mr_live s' = (mr_live t)[first := ?new]"
      by (simp add: mr_live_def take_update_swap)
    also have "\<dots> = take first (mr_live s) @ ?new # drop lst (mr_live s)"
      using len False by (simp add: t(1) take_Suc_conv_app_nth list_update_append)
    finally show ?thesis
      using \<open>s' = _\<close> t(2,3) len addl by simp
  qed
  then show "mr_live s' = add_list (mr_live s) a b" "length (ranges s') = MEMRANGE_MAX"
      "mr_count s' \<le> MEMRANGE_MAX"
    by auto
qed

text \<open>A range touches \<open>[a, b)\<close> when they overlap or are adjacent.\<close>

definition touches :: "u64 \<Rightarrow> u64 \<Rightarrow> memrange \<Rightarrow> bool" where
  "touches a b r \<longleftrightarrow> a \<le> r_end r \<and> r_start r \<le> b"

lemma absorb_none_touches:
  assumes "mr_sorted L" "absorb (dropWhile (\<lambda>r. r_end r < a) L) a b = (rest, a', b')" "a < b"
  shows "length (takeWhile (\<lambda>r. r_end r < a) L) + length rest = length L \<longleftrightarrow>
    (\<forall>r\<in>set L. \<not> touches a b r)"
proof -
  define D where "D = dropWhile (\<lambda>r. r_end r < a) L"
  have L: "L = takeWhile (\<lambda>r. r_end r < a) L @ D"
    by (simp add: D_def)
  have "length (takeWhile (\<lambda>r. r_end r < a) L) + length rest = length L \<longleftrightarrow> length rest = length D"
    by (subst (2) L) simp
  also have "\<dots> \<longleftrightarrow> (\<forall>r\<in>set D. \<not> touches a b r)"
  proof (cases D)
    case Nil
    then show ?thesis
      using assms(2) by (simp add: D_def [symmetric])
  next
    case (Cons r D')
    have sorted: "mr_sorted (r # D')"
      using assms(1) L Cons by (metis mr_sorted_append)
    have "a \<le> r_end r"
      using Cons hd_dropWhile [of "\<lambda>r. r_end r < a" L] by (simp add: D_def)
    then show ?thesis
      using assms(2) Cons sorted absorb_length
      by (fastforce simp: D_def [symmetric] touches_def split: if_splits)
  qed
  also have "\<dots> \<longleftrightarrow> (\<forall>r\<in>set L. \<not> touches a b r)"
    using L set_takeWhileD by (metis (no_types, lifting) Un_iff leD set_append touches_def)
  finally show ?thesis .
qed


lemma memrange_add_status:
  assumes "mr_wf s" "a < b"
  shows "memrange_add s a b = (-1, s) \<and> mr_count s = MEMRANGE_MAX \<and> (\<forall>r\<in>set (mr_live s). \<not> touches a b r)
    \<or> fst (memrange_add s a b) = 0 \<and>
      (mr_count s < MEMRANGE_MAX \<or> (\<exists>r\<in>set (mr_live s). touches a b r))"
proof -
  obtain rest a' b' where abs: "absorb (dropWhile (\<lambda>r. r_end r < a) (mr_live s)) a b = (rest, a', b')"
    by (cases "absorb (dropWhile (\<lambda>r. r_end r < a) (mr_live s)) a b")
  note loops = memrange_add_loops [OF assms(1) abs]
  have "length (mr_live s) = mr_count s" "mr_count s \<le> MEMRANGE_MAX" "mr_sorted (mr_live s)"
    using assms(1) by (auto simp: mr_wf_def)
  then show ?thesis
    using absorb_none_touches [OF _ abs assms(2)] assms(2) loops(3)
    by (auto simp: memrange_add_def loops(1,2) Let_def)
qed

lemma add_list_spec:
  assumes "mr_sorted L" "a < b"
  shows "mr_sorted (add_list L a b)" "mr_addrs (add_list L a b) = mr_addrs L \<union> {a..<b}"
proof -
  define T D where "T = takeWhile (\<lambda>r. r_end r < a) L" and "D = dropWhile (\<lambda>r. r_end r < a) L"
  obtain rest a' b' where abs: "absorb D a b = (rest, a', b')"
    by (cases "absorb D a b")
  have L: "L = T @ D" and T: "\<forall>r\<in>set T. r_end r < a"
    by (auto simp: T_def D_def dest: set_takeWhileD)
  then have sorted: "mr_sorted T" "mr_sorted D" "\<forall>r\<in>set T. \<forall>q\<in>set D. r_end r < r_start q"
    using assms(1) by auto
  have "\<forall>r\<in>set D. a \<le> r_end r"
  proof (cases D)
    case (Cons r D')
    then have "a \<le> r_end r"
      using hd_dropWhile [of "\<lambda>r. r_end r < a" L] by (simp add: D_def)
    then show ?thesis
      using sorted(2) mr_sortedD [OF sorted(2)] Cons by fastforce
  qed simp
  then obtain pre where pre: "D = pre @ rest" "a' \<le> a" "b \<le> b'" "{a'..<b'} = {a..<b} \<union> mr_addrs pre"
      "\<forall>r\<in>set rest. b' < r_start r" "\<And>x. x < a \<Longrightarrow> \<forall>r\<in>set pre. x < r_start r \<Longrightarrow> x < a'"
    using absorb_spec [OF abs sorted(2) assms(2)] by blast
  have add: "add_list L a b = T @ \<lparr>r_start = a', r_end = b'\<rparr> # rest"
    by (simp add: add_list_def abs T_def [symmetric] D_def [symmetric])
  show "mr_sorted (add_list L a b)"
    using add sorted pre T assms(2) by auto
  show "mr_addrs (add_list L a b) = mr_addrs L \<union> {a..<b}"
    using add L pre(1,4) by (auto simp: range_addrs_def)
qed

theorem memrange_add_wf:
  assumes "mr_wf s" "memrange_add s a b = (0, s')"
  shows "mr_wf s'" "mr_addrs (mr_live s') = mr_addrs (mr_live s) \<union> {a..<b}"
proof -
  have "a < b"
    using assms(2) by (auto simp: memrange_add_def split: if_splits)
  then show "mr_wf s'" "mr_addrs (mr_live s') = mr_addrs (mr_live s) \<union> {a..<b}"
    using memrange_add_live [OF assms(1) _ assms(2)] add_list_spec [of "mr_live s" a b] assms(1)
    by (auto simp: mr_wf_def)
qed

subsection \<open>Removing a range\<close>

text \<open>The removing loop on the list of the ranges from \<open>i\<close> on, and the one case in which it needs
  a free slot: a range that sticks out of \<open>[a, b)\<close> on both sides.\<close>

definition sticks_out :: "u64 \<Rightarrow> u64 \<Rightarrow> memrange \<Rightarrow> bool" where
  "sticks_out a b r \<longleftrightarrow> r_start r < a \<and> b < r_end r"

fun rem_list :: "u64 \<Rightarrow> u64 \<Rightarrow> memrange list \<Rightarrow> memrange list" where
  "rem_list a b [] = []"
| "rem_list a b (r # rs) =
     (if b \<le> r_start r then r # rs
      else if r_end r \<le> a then r # rem_list a b rs
      else if a \<le> r_start r \<and> r_end r \<le> b then rem_list a b rs
      else if a \<le> r_start r then r\<lparr>r_start := b\<rparr> # rs
      else if r_end r \<le> b then r\<lparr>r_end := a\<rparr> # rem_list a b rs
      else r\<lparr>r_end := a\<rparr> # \<lparr>r_start = b, r_end = r_end r\<rparr> # rs)"

lemma mr_live_update:
  "i < mr_count s \<Longrightarrow> mr_live (s\<lparr>ranges := (ranges s)[i := r]\<rparr>) = (mr_live s)[i := r]"
  by (simp add: mr_live_def take_update_swap)

lemma mr_live_split:
  assumes "i < mr_count s" "mr_count s < length (ranges s)"
  shows "mr_live (s\<lparr>ranges := ((array_shift_up (ranges s) (i + 1) (mr_count s))[i + 1 := q])[i := r],
           mr_count := mr_count s + 1\<rparr>)
       = take i (mr_live s) @ r # q # drop (i + 1) (mr_live s)"
proof -
  have "take (mr_count s + 1) (((array_shift_up (ranges s) (i + 1) (mr_count s))[i + 1 := q])[i := r])
      = (take (i + 1) (ranges s) @ q # drop (i + 1) (take (mr_count s) (ranges s)))[i := r]"
    using assms take_array_shift_up [of "i + 1" "mr_count s" "ranges s" q]
    by (simp add: take_update_swap)
  then show ?thesis
    using assms by (simp add: mr_live_def take_Suc_conv_app_nth list_update_append)
qed

lemma drop_mr_live:
  assumes "i < mr_count s" "mr_count s \<le> length (ranges s)"
  shows "drop i (mr_live s) = ranges s ! i # drop (i + 1) (mr_live s)"
  using assms by (simp add: mr_live_def Cons_nth_drop_Suc [symmetric])

lemma not_sticks_out_later:
  assumes "a < r_end r" "\<forall>q\<in>set rs. r_end r < r_start q"
  shows "\<not> (\<exists>q\<in>set rs. sticks_out a b q)"
  using assms by (force simp: sticks_out_def)

lemma memrange_remove_loop_step:
  assumes "i < mr_count s" "a < b"
  defines "r \<equiv> ranges s ! i"
  shows
    "b \<le> r_start r \<Longrightarrow> memrange_remove_loop s a b i = (0, s)"
    "\<not> b \<le> r_start r \<Longrightarrow> r_end r \<le> a \<Longrightarrow>
       memrange_remove_loop s a b i = memrange_remove_loop s a b (i + 1)"
    "\<not> b \<le> r_start r \<Longrightarrow> \<not> r_end r \<le> a \<Longrightarrow> a \<le> r_start r \<Longrightarrow> r_end r \<le> b \<Longrightarrow>
       memrange_remove_loop s a b i = memrange_remove_loop (memrange_delete s i) a b i"
    "\<not> b \<le> r_start r \<Longrightarrow> \<not> r_end r \<le> a \<Longrightarrow> a \<le> r_start r \<Longrightarrow> \<not> r_end r \<le> b \<Longrightarrow>
       memrange_remove_loop s a b i = (0, s\<lparr>ranges := (ranges s)[i := r\<lparr>r_start := b\<rparr>]\<rparr>)"
    "\<not> b \<le> r_start r \<Longrightarrow> \<not> r_end r \<le> a \<Longrightarrow> \<not> a \<le> r_start r \<Longrightarrow> r_end r \<le> b \<Longrightarrow>
       memrange_remove_loop s a b i =
       memrange_remove_loop (s\<lparr>ranges := (ranges s)[i := r\<lparr>r_end := a\<rparr>]\<rparr>) a b (i + 1)"
    "\<not> b \<le> r_start r \<Longrightarrow> \<not> r_end r \<le> a \<Longrightarrow> \<not> a \<le> r_start r \<Longrightarrow> \<not> r_end r \<le> b \<Longrightarrow>
       memrange_remove_loop s a b i =
       (if mr_count s \<ge> MEMRANGE_MAX then (-1, s)
        else (0, s\<lparr>ranges := ((array_shift_up (ranges s) (i + 1) (mr_count s))
                     [i + 1 := \<lparr>r_start = b, r_end = r_end r\<rparr>])[i := r\<lparr>r_end := a\<rparr>],
                   mr_count := mr_count s + 1\<rparr>))"
  using assms(1) unfolding r_def
  by (subst memrange_remove_loop.simps, simp add: Let_def)+

lemma memrange_remove_loop_spec:
  assumes "length (ranges s) = MEMRANGE_MAX" "mr_count s \<le> MEMRANGE_MAX"
    "mr_sorted (drop i (mr_live s))" "a < b" "i \<le> mr_count s"
    "memrange_remove_loop s a b i = (c, s')"
  shows "if mr_count s = MEMRANGE_MAX \<and> (\<exists>r\<in>set (drop i (mr_live s)). sticks_out a b r)
     then c = -1 \<and> s' = s
     else c = 0 \<and> mr_live s' = take i (mr_live s) @ rem_list a b (drop i (mr_live s)) \<and>
       length (ranges s') = MEMRANGE_MAX \<and> mr_count s' \<le> MEMRANGE_MAX"
  using assms
proof (induction s a b i rule: memrange_remove_loop.induct)
  case (1 s a b i)
  show ?case
  proof (cases "i < mr_count s")
    case False
    then show ?thesis
      using "1.prems" by (subst (asm) memrange_remove_loop.simps) (auto simp: mr_live_def)
  next
    case True
    define r D where "r = ranges s ! i" and "D = drop (i + 1) (mr_live s)"
    have drop: "drop i (mr_live s) = r # D"
      using drop_mr_live [OF True] "1.prems" by (simp add: r_def D_def)
    have sorted: "r_start r < r_end r" "\<forall>q\<in>set D. r_end r < r_start q" "mr_sorted D"
      using "1.prems"(3) by (auto simp: drop)
    have len: "length (mr_live s) = mr_count s"
      using "1.prems" by (simp add: mr_live_def)
    have nth: "take (i + 1) ((mr_live s)[i := q]) = take i (mr_live s) @ [q]" for q
      using True len by (simp add: take_Suc_conv_app_nth)
    note step = memrange_remove_loop_step [OF True "1.prems"(4), folded r_def]
    consider (before) "b \<le> r_start r"
      | (after) "\<not> b \<le> r_start r" "r_end r \<le> a"
      | (inside) "\<not> b \<le> r_start r" "\<not> r_end r \<le> a" "a \<le> r_start r" "r_end r \<le> b"
      | (head) "\<not> b \<le> r_start r" "\<not> r_end r \<le> a" "a \<le> r_start r" "\<not> r_end r \<le> b"
      | (tail) "\<not> b \<le> r_start r" "\<not> r_end r \<le> a" "\<not> a \<le> r_start r" "r_end r \<le> b"
      | (split) "\<not> b \<le> r_start r" "\<not> r_end r \<le> a" "\<not> a \<le> r_start r" "\<not> r_end r \<le> b"
      by blast
    then show ?thesis
    proof cases
      case before
      then have "\<not> (\<exists>q\<in>set (r # D). sticks_out a b q)"
        using sorted(1,2) "1.prems"(4) by (fastforce simp: sticks_out_def)
      moreover have "c = 0" "s' = s"
        using step(1) [OF before] "1.prems"(6) by auto
      moreover have "take i (mr_live s) @ r # D = mr_live s"
        by (metis append_take_drop_id drop)
      ultimately show ?thesis
        using before "1.prems"(1,2) unfolding drop by simp
    next
      case after
      then have "\<not> sticks_out a b r"
        using "1.prems"(4) by (auto simp: sticks_out_def)
      moreover have "take (i + 1) (mr_live s) = take i (mr_live s) @ [r]"
        using nth [of r] True by (simp add: r_def nth_mr_live [symmetric])
      ultimately show ?thesis
        using "1.IH"(1) [OF True r_def after] "1.prems" step(2) [OF after] True sorted(3) after
        unfolding drop by (simp add: D_def)
    next
      case inside
      have "\<not> sticks_out a b r" "\<not> (\<exists>q\<in>set D. sticks_out a b q)"
        using inside sorted(2) not_sticks_out_later [of a r D] by (auto simp: sticks_out_def)
      moreover have "mr_live (memrange_delete s i) = take i (mr_live s) @ D"
        using mr_live_memrange_delete [OF True] "1.prems" by (simp add: D_def)
      moreover have "length (take i (mr_live s)) = i"
        using True len by simp
      ultimately show ?thesis
        using "1.IH"(2) [OF True r_def inside(1,2)] "1.prems" step(3) [OF inside] True sorted(3) inside
        unfolding drop by (simp split: if_splits)
    next
      case head
      have "\<not> sticks_out a b r" "\<not> (\<exists>q\<in>set D. sticks_out a b q)"
        using head sorted(2) not_sticks_out_later [of a r D] by (auto simp: sticks_out_def)
      moreover have "(mr_live s)[i := q] = take i (mr_live s) @ q # D" for q
        using True len by (simp add: D_def upd_conv_take_nth_drop)
      ultimately show ?thesis
        using "1.prems" step(4) [OF head] True head
        unfolding drop by (auto simp: mr_live_update)
    next
      case tail
      let ?s = "s\<lparr>ranges := (ranges s)[i := r\<lparr>r_end := a\<rparr>]\<rparr>"
      have "\<not> sticks_out a b r" "\<not> (\<exists>q\<in>set D. sticks_out a b q)"
        using tail sorted(2) not_sticks_out_later [of a r D] by (auto simp: sticks_out_def)
      moreover have "take (i + 1) (mr_live ?s) = take i (mr_live s) @ [r\<lparr>r_end := a\<rparr>]"
          "drop (i + 1) (mr_live ?s) = D"
        using nth True by (simp_all add: mr_live_update D_def)
      ultimately show ?thesis
        using "1.IH"(3) [OF True r_def tail(1,2) _ tail(3)] "1.prems" step(5) [OF tail] True sorted(3) tail
        unfolding drop by (simp split: if_splits)
    next
      case split
      then have "sticks_out a b r"
        by (simp add: sticks_out_def not_le)
      then show ?thesis
        using "1.prems" step(6) [OF split] mr_live_split [OF True] split
        unfolding drop by (auto simp: D_def split: if_splits)
    qed
  qed
qed

lemma rem_list_starts:
  "\<forall>r\<in>set rs. x < r_start r \<Longrightarrow> q \<in> set (rem_list a b rs) \<Longrightarrow> x < r_start q"
  by (induction a b rs rule: rem_list.induct) (auto split: if_splits)

lemma rem_list_spec:
  assumes "mr_sorted rs" "a < b"
  shows "mr_sorted (rem_list a b rs) \<and> mr_addrs (rem_list a b rs) = mr_addrs rs - {a..<b}"
  using assms
proof (induction a b rs rule: rem_list.induct)
  case (1 a b)
  then show ?case
    by simp
next
  case (2 a b r rs)
  then have r: "r_start r < r_end r" "\<forall>q\<in>set rs. r_end r < r_start q" "mr_sorted rs"
    by auto
  then have later: "\<forall>q\<in>set (rem_list a b rs). r_end r < r_start q"
    using rem_list_starts by blast
  have above: "r_end r < x" if "x \<in> mr_addrs rs" for x
    using that r(2) by (force simp: mr_addrs_def range_addrs_def)
  have keep: "mr_addrs rs - {a..<b} = mr_addrs rs" if "b \<le> r_end r"
    using that above by force
  consider (before) "b \<le> r_start r"
    | (after) "\<not> b \<le> r_start r" "r_end r \<le> a"
    | (inside) "\<not> b \<le> r_start r" "\<not> r_end r \<le> a" "a \<le> r_start r" "r_end r \<le> b"
    | (head) "\<not> b \<le> r_start r" "\<not> r_end r \<le> a" "a \<le> r_start r" "\<not> r_end r \<le> b"
    | (tail) "\<not> b \<le> r_start r" "\<not> r_end r \<le> a" "\<not> a \<le> r_start r" "r_end r \<le> b"
    | (split) "\<not> b \<le> r_start r" "\<not> r_end r \<le> a" "\<not> a \<le> r_start r" "\<not> r_end r \<le> b"
    by blast
  then show ?case
  proof cases
    case before
    then have "b \<le> r_end r"
      using r(1) by (metis le_less_trans less_imp_le)
    then show ?thesis
      using before r keep by (auto simp: range_addrs_def)
  next
    case after
    then have "range_addrs r - {a..<b} = range_addrs r"
      by (auto simp: range_addrs_def)
    moreover have "rem_list a b (r # rs) = r # rem_list a b rs"
      using after by simp
    ultimately show ?thesis
      using "2.IH"(1) [OF after r(3) "2.prems"(2)] r(1) later
      by (simp only: mr_addrs_simps mr_sorted_simps Un_Diff simp_thms)
  next
    case inside
    then have "range_addrs r - {a..<b} = {}"
      by (auto simp: range_addrs_def)
    moreover have "rem_list a b (r # rs) = rem_list a b rs"
      using inside by simp
    ultimately show ?thesis
      using "2.IH"(2) [OF inside(1,2) conjI [OF inside(3,4)] r(3) "2.prems"(2)]
      by (simp only: mr_addrs_simps Un_Diff Un_empty_left simp_thms)
  next
    case head
    then have "b < r_end r"
      by (simp add: not_le)
    then show ?thesis
      using head r by (auto simp: Un_Diff keep range_addrs_def)
  next
    case tail
    have "\<forall>q\<in>set (rem_list a b rs). a < r_start q"
      using tail later by force
    then show ?thesis
      using "2.IH"(3) [OF tail(1,2) _ tail(3,4) r(3) "2.prems"(2)] tail
      by (auto simp: range_addrs_def not_le)
  next
    case split
    then have "r_start r < a" "b < r_end r"
      by (simp_all add: not_le)
    then show ?thesis
      using split r "2.prems"(2) by (auto simp: Un_Diff keep range_addrs_def)
  qed
qed

theorem memrange_remove_wf:
  assumes "mr_wf s" "memrange_remove s a b = (0, s')"
  shows "mr_wf s'" "mr_addrs (mr_live s') = mr_addrs (mr_live s) - {a..<b}"
proof -
  have ab: "a < b" and loop: "memrange_remove_loop s a b 0 = (0, s')"
    using assms(2) by (auto simp: memrange_remove_def split: if_splits)
  have "mr_live s' = rem_list a b (mr_live s) \<and> length (ranges s') = MEMRANGE_MAX \<and>
      mr_count s' \<le> MEMRANGE_MAX"
    using memrange_remove_loop_spec [OF _ _ _ ab _ loop] assms(1)
    by (auto simp: mr_wf_def split: if_splits)
  then show "mr_wf s'" "mr_addrs (mr_live s') = mr_addrs (mr_live s) - {a..<b}"
    using rem_list_spec [of "mr_live s" a b] assms(1) ab by (auto simp: mr_wf_def)
qed

lemma memrange_remove_status:
  assumes "mr_wf s" "a < b"
  shows "memrange_remove s a b = (-1, s) \<and> mr_count s = MEMRANGE_MAX \<and>
      (\<exists>r\<in>set (mr_live s). sticks_out a b r)
    \<or> fst (memrange_remove s a b) = 0 \<and>
      (mr_count s < MEMRANGE_MAX \<or> (\<forall>r\<in>set (mr_live s). \<not> sticks_out a b r))"
proof -
  obtain c s' where loop: "memrange_remove_loop s a b 0 = (c, s')"
    by (cases "memrange_remove_loop s a b 0")
  show ?thesis
    using memrange_remove_loop_spec [OF _ _ _ assms(2) _ loop] assms loop
    by (auto simp: mr_wf_def memrange_remove_def split: if_splits)
qed

subsection \<open>Queries\<close>

lemma mr_gap:
  assumes "mr_sorted L" "{a..<b} \<subseteq> mr_addrs L" "a < b"
  obtains r where "r \<in> set L" "r_start r \<le> a" "b \<le> r_end r"
proof -
  obtain r where r: "r \<in> set L" "r_start r \<le> a" "a < r_end r"
    using assms by (force simp: mr_addrs_def range_addrs_def)
  have "b \<le> r_end r"
  proof (rule ccontr)
    assume "\<not> b \<le> r_end r"
    then have "r_end r \<in> {a..<b}"
      using r by (simp add: not_le)
    then obtain q where q: "q \<in> set L" "r_start q \<le> r_end r" "r_end r < r_end q"
      using assms(2) by (auto simp: mr_addrs_def range_addrs_def)
    obtain xs ys where L: "L = xs @ r # ys"
      using r(1) by (meson split_list)
    then show False
      using q assms(1) r mr_sortedD [OF assms(1) r(1)] by (auto simp: not_less)
  qed
  then show thesis
    using that r by blast
qed

theorem memrange_contains_iff:
  assumes "mr_wf s"
  shows "memrange_contains s a b \<longleftrightarrow> a < b \<and> {a..<b} \<subseteq> mr_addrs (mr_live s)"
proof (cases "a < b")
  case True
  define hit where "hit i \<longleftrightarrow> a < r_start (ranges s ! i) \<or>
      (a \<ge> r_start (ranges s ! i) \<and> b \<le> r_end (ranges s ! i))" for i
  define i where "i = scan hit 0 (mr_count s)"
  have sorted: "mr_sorted (mr_live s)" and len: "length (mr_live s) = mr_count s"
    using assms by (auto simp: mr_wf_def)
  have "\<not> b \<le> a"
    using True by (simp add: not_le)
  then have eval: "memrange_contains s a b \<longleftrightarrow> i < mr_count s \<and> \<not> a < r_start (ranges s ! i)"
    unfolding memrange_contains_def Let_def i_def hit_def by (simp only: if_False)
  have "memrange_contains s a b \<longleftrightarrow> {a..<b} \<subseteq> mr_addrs (mr_live s)"
  proof
    assume "memrange_contains s a b"
    then have i: "i < mr_count s" "r_start (ranges s ! i) \<le> a" "b \<le> r_end (ranges s ! i)"
      using eval scan_hit [of hit 0 "mr_count s"] by (auto simp: hit_def i_def [symmetric])
    then have "{a..<b} \<subseteq> range_addrs (mr_live s ! i)"
      by (auto simp: range_addrs_def nth_mr_live)
    moreover have "mr_live s ! i \<in> set (mr_live s)"
      using i(1) len by simp
    ultimately show "{a..<b} \<subseteq> mr_addrs (mr_live s)"
      unfolding mr_addrs_def by blast
  next
    assume "{a..<b} \<subseteq> mr_addrs (mr_live s)"
    then obtain r where "r \<in> set (mr_live s)" "r_start r \<le> a" "b \<le> r_end r"
      using mr_gap [OF sorted _ True] by blast
    then obtain j where j: "j < mr_count s" "r_start (mr_live s ! j) \<le> a" "b \<le> r_end (mr_live s ! j)"
      using len by (metis in_set_conv_nth)
    then have "i \<le> j"
      using scan_miss [of 0 j hit "mr_count s"]
      by (auto simp: hit_def nth_mr_live i_def [symmetric] intro: ccontr)
    moreover have "\<not> a < r_start (mr_live s ! i)" if "i < j"
    proof -
      have "r_end (mr_live s ! i) < r_start (mr_live s ! j)"
        using that sorted j len by (simp add: mr_sorted_def mr_apart_def sorted_wrt_iff_nth_less)
      moreover have "r_start (mr_live s ! i) < r_end (mr_live s ! i)"
        using that j(1) len by (intro mr_sortedD [OF sorted]) simp
      ultimately show ?thesis
        using j(2) by (meson less_le_trans less_trans less_not_sym)
    qed
    ultimately show "memrange_contains s a b"
      using eval j by (cases "i = j") (auto simp: nth_mr_live not_less)
  qed
  then show ?thesis
    using True by simp
qed (simp add: memrange_contains_def not_less)

definition range_size :: "memrange \<Rightarrow> nat" where
  "range_size r = unat (r_end r) - unat (r_start r)"

lemma memrange_total_loop_eq:
  assumes "mr_wf s" "i \<le> mr_count s"
    "unat bytes + sum_list (map range_size (drop i (mr_live s))) < 2 ^ 64"
  shows "\<exists>w. memrange_total_loop s i bytes = Some w \<and>
    unat w = unat bytes + sum_list (map range_size (drop i (mr_live s)))"
  using assms
proof (induction s i bytes rule: memrange_total_loop.induct)
  case (1 s i bytes)
  show ?case
  proof (cases "i < mr_count s")
    case True
    define r where "r = ranges s ! i"
    have drop: "drop i (mr_live s) = r # drop (i + 1) (mr_live s)"
      using drop_mr_live [OF True] "1.prems"(1) by (simp add: mr_wf_def r_def)
    then have "r \<in> set (mr_live s)"
      by (metis in_set_dropD list.set_intros(1))
    then have "r_start r < r_end r"
      using "1.prems"(1) mr_sortedD by (auto simp: mr_wf_def)
    then have size: "unat (r_end r - r_start r) = range_size r"
      by (simp add: unat_sub range_size_def)
    then have "\<not> bytes + (r_end r - r_start r) < bytes"
        "unat (bytes + (r_end r - r_start r)) = unat bytes + range_size r"
      using "1.prems"(3) by (simp_all add: drop add_overflow_iff unat_add_no_overflow)
    then show ?thesis
      using "1.IH" [OF True refl] "1.prems" True
      by (simp add: memrange_total_loop.simps [of s i bytes] drop r_def [symmetric] add.assoc)
  next
    case False
    then show ?thesis
      using "1.prems" by (subst memrange_total_loop.simps) simp
  qed
qed

lemma range_size_bound:
  assumes "mr_sorted L" "\<forall>r\<in>set L. x \<le> unat (r_start r)" "x < 2 ^ 64"
  shows "x + sum_list (map range_size L) < 2 ^ 64"
  using assms
proof (induction L arbitrary: x)
  case (Cons r L)
  have r: "unat (r_start r) < unat (r_end r)" "unat (r_end r) < 2 ^ 64"
    using Cons.prems(1) unsigned_less [of "r_end r"] by (auto simp: word_less_nat_alt)
  then have "unat (r_end r) + sum_list (map range_size L) < 2 ^ 64"
    using Cons.prems(1) by (intro Cons.IH) (auto simp: word_less_nat_alt)
  moreover have "x + range_size r \<le> unat (r_end r)"
    using r(1) Cons.prems(2) by (auto simp: range_size_def)
  ultimately show ?case
    by simp
qed simp

lemma card_mr_addrs: "mr_sorted L \<Longrightarrow> card (mr_addrs L) = sum_list (map range_size L)"
proof (induction L)
  case (Cons r L)
  then have "range_addrs r \<inter> mr_addrs L = {}"
    by (force simp: mr_addrs_def range_addrs_def)
  then show ?case
    using Cons by (simp add: card_Un_disjoint range_addrs_def card_word_interval range_size_def)
qed simp

theorem memrange_total_exact:
  assumes "mr_wf s"
  shows "\<exists>w. memrange_total s = Some w \<and> unat w = card (mr_addrs (mr_live s))"
  using memrange_total_loop_eq [OF assms, of 0 0] range_size_bound [of "mr_live s" 0]
    card_mr_addrs [of "mr_live s"] assms
  by (simp add: memrange_total_def mr_wf_def)

subsection \<open>The contract as an interface\<close>

text \<open>
  What the physical memory discovery relies on: a store of ranges whose additions are unions and
  whose removals are differences, both reporting success by a status of \<open>0\<close>.
\<close>

locale range_store =
  fixes add remove :: "'s \<Rightarrow> u64 \<Rightarrow> u64 \<Rightarrow> int \<times> 's"
    and inv :: "'s \<Rightarrow> bool"
    and addrs :: "'s \<Rightarrow> u64 set"
  assumes add_ok: "inv s \<Longrightarrow> add s a b = (0, s') \<Longrightarrow> inv s' \<and> addrs s' = addrs s \<union> {a..<b}"
    and remove_ok: "inv s \<Longrightarrow> remove s a b = (0, s') \<Longrightarrow> inv s' \<and> addrs s' = addrs s - {a..<b}"
    and add_status: "fst (add s a b) \<le> 0"
    and remove_status: "fst (remove s a b) \<le> 0"
begin

lemma add_all:
  "inv s \<Longrightarrow> update_all add s xs = Some s' \<Longrightarrow>
   inv s' \<and> addrs s' = addrs s \<union> (\<Union>(a, b)\<in>set xs. {a..<b})"
proof (induction xs arbitrary: s)
  case (Cons x xs)
  obtain a b where x: "x = (a, b)"
    by (cases x)
  obtain t where "add s a b = (0, t)" "update_all add t xs = Some s'"
    using Cons.prems(2) add_status [of s a b] by (cases "add s a b") (auto simp: x split: if_splits)
  then show ?case
    using Cons.IH [of t] add_ok Cons.prems(1) by (auto simp: x)
qed simp

lemma remove_all:
  "inv s \<Longrightarrow> update_all remove s xs = Some s' \<Longrightarrow>
   inv s' \<and> addrs s' = addrs s - (\<Union>(a, b)\<in>set xs. {a..<b})"
proof (induction xs arbitrary: s)
  case (Cons x xs)
  obtain a b where x: "x = (a, b)"
    by (cases x)
  obtain t where "remove s a b = (0, t)" "update_all remove t xs = Some s'"
    using Cons.prems(2) remove_status [of s a b] by (cases "remove s a b") (auto simp: x split: if_splits)
  then show ?case
    using Cons.IH [of t] remove_ok Cons.prems(1) by (auto simp: x)
qed simp

end

lemma memrange_remove_loop_status: "fst (memrange_remove_loop s a b i) \<le> 0"
proof (induction s a b i rule: memrange_remove_loop.induct)
  case (1 s a b i)
  show ?case
    using "1.IH" [OF _ refl] by (subst memrange_remove_loop.simps) (auto simp: Let_def)
qed

interpretation mr: range_store memrange_add memrange_remove mr_wf "\<lambda>s. mr_addrs (mr_live s)"
proof
  show "fst (memrange_add s a b) \<le> 0" for s a b
    by (simp add: memrange_add_def Let_def split: prod.splits)
  show "fst (memrange_remove s a b) \<le> 0" for s a b
    by (simp add: memrange_remove_def memrange_remove_loop_status)
qed (use memrange_add_wf memrange_remove_wf in blast)+

lemma memrange_init_wf:
  "length (ranges s) = MEMRANGE_MAX \<Longrightarrow> mr_wf (memrange_init s)"
  "mr_live (memrange_init s) = []"
  by (simp_all add: mr_wf_def memrange_init_def mr_live_def)

subsection \<open>Properties\<close>

definition empty_set :: memrange_set where
  "empty_set = memrange_init \<lparr>ranges = replicate MEMRANGE_MAX \<lparr>r_start = 0, r_end = 0\<rparr>, mr_count = 7\<rparr>"

lemma empty_set_facts: "mr_wf empty_set" "mr_live empty_set = []" "mr_count empty_set < MEMRANGE_MAX"
  using memrange_init_wf [of "\<lparr>ranges = replicate MEMRANGE_MAX \<lparr>r_start = 0, r_end = 0\<rparr>, mr_count = 7\<rparr>"]
  by (simp_all add: empty_set_def memrange_init_def MEMRANGE_MAX_def)

text \<open>A set of one range.\<close>

definition one_range :: memrange_set where
  "one_range = snd (memrange_add empty_set 0x1000 0x5000)"

lemma one_range_facts: "mr_wf one_range" "mr_addrs (mr_live one_range) = {0x1000..<0x5000}" "mr_count one_range < MEMRANGE_MAX"
proof -
  have "fst (memrange_add empty_set 0x1000 0x5000) = 0" by code_simp
  then have "memrange_add empty_set 0x1000 0x5000 = (0, one_range)" by (simp add: one_range_def prod_eq_iff)
  then show "mr_wf one_range" "mr_addrs (mr_live one_range) = {0x1000..<0x5000}"
    using memrange_add_wf [OF empty_set_facts(1)] by (auto simp: empty_set_facts(2))
  show "mr_count one_range < MEMRANGE_MAX" by code_simp
qed

text \<open>C29. \<^verbatim>\<open>memrange_add\<close>: on a well-formed set and a non-empty range it either succeeds, and then the set
  is well-formed and covers exactly the old addresses and the new range, or it returns -1 and changes
  nothing; the latter only when the table is full and no stored range touches the new one. An empty
  range is refused.\<close>

theorem memrange_add_correct:
  assumes "mr_wf s"
  shows "if a < b \<and> (mr_count s < MEMRANGE_MAX \<or> (\<exists>r\<in>set (mr_live s). touches a b r))
    then \<exists>s'. memrange_add s a b = (0, s') \<and> mr_wf s' \<and> mr_addrs (mr_live s') = mr_addrs (mr_live s) \<union> {a..<b}
    else memrange_add s a b = (-1, s)"
proof (cases "a < b")
  case True
  obtain st s' where r: "memrange_add s a b = (st, s')" by (cases "memrange_add s a b")
  show ?thesis
    using memrange_add_status [OF assms True] memrange_add_wf [OF assms, of a b s'] r True by auto
qed (simp add: memrange_add_def not_less)

theorem memrange_add_correct_witness:
  "\<exists>s'. memrange_add empty_set 0x1000 0x3000 = (0, s') \<and> mr_wf s' \<and> mr_addrs (mr_live s') = {0x1000..<0x3000}"
  using memrange_add_correct [OF empty_set_facts(1), of "0x1000" "0x3000"] by (simp add: empty_set_facts)

text \<open>C30. \<^verbatim>\<open>memrange_remove\<close>: on a well-formed set and a non-empty range it either succeeds, and then the set
  is well-formed and covers exactly the old addresses without the range, or it returns -1 and changes
  nothing; the latter only when the table is full and a stored range sticks out on both sides, so that it
  would have to be cut in two.\<close>

theorem memrange_remove_correct:
  assumes "mr_wf s"
  shows "if a < b \<and> (mr_count s < MEMRANGE_MAX \<or> (\<forall>r\<in>set (mr_live s). \<not> sticks_out a b r))
    then \<exists>s'. memrange_remove s a b = (0, s') \<and> mr_wf s' \<and> mr_addrs (mr_live s') = mr_addrs (mr_live s) - {a..<b}
    else memrange_remove s a b = (-1, s)"
proof (cases "a < b")
  case True
  obtain st s' where r: "memrange_remove s a b = (st, s')" by (cases "memrange_remove s a b")
  show ?thesis
    using memrange_remove_status [OF assms True] memrange_remove_wf [OF assms, of a b s'] r True by auto
qed (simp add: memrange_remove_def not_less)

theorem memrange_remove_correct_witness:
  "\<exists>s'. memrange_remove one_range 0x2000 0x3000 = (0, s') \<and> mr_wf s' \<and>
     mr_addrs (mr_live s') = {0x1000..<0x5000} - {0x2000..<0x3000}"
  using memrange_remove_correct [OF one_range_facts(1), of "0x2000" "0x3000"] by (simp add: one_range_facts)

text \<open>C31. The queries are exact: \<^verbatim>\<open>memrange_contains\<close> answers whether every address of the range is covered, and
  \<^verbatim>\<open>memrange_total\<close> never overflows and counts the covered addresses.\<close>

theorem memrange_queries_exact:
  assumes "mr_wf s"
  shows "(memrange_contains s a b \<longleftrightarrow> a < b \<and> {a..<b} \<subseteq> mr_addrs (mr_live s)) \<and>
    (\<exists>w. memrange_total s = Some w \<and> unat w = card (mr_addrs (mr_live s)))"
  using memrange_contains_iff [OF assms] memrange_total_exact [OF assms] by blast

theorem memrange_queries_exact_witness:
  "memrange_contains one_range 0x2000 0x3000 \<and> (\<exists>w. memrange_total one_range = Some w \<and> unat w = 0x4000)"
proof -
  have "card {0x1000..<0x5000 :: u64} = 0x4000" by (simp add: card_word_interval)
  moreover have "{0x2000..<0x3000 :: u64} \<subseteq> {0x1000..<0x5000}" by auto
  ultimately show ?thesis
    using memrange_queries_exact [OF one_range_facts(1), of "0x2000" "0x3000"] by (simp add: one_range_facts)
qed

end
