(* ===== verification/Klist.thy ===== *)
theory Klist
  imports Prelude
begin

text \<open>
  \<^verbatim>\<open>kernel/include/list.h\<close>: the intrusive circular doubly linked list every kernel queue is made
  of. A node is an address, the heap maps an address to its two links, and the four inline
  functions are the sequences of stores of the source. \<open>dlist h l xs\<close> says that the ring at
  the head \<open>l\<close> holds the nodes \<open>xs\<close>; the theorems show that the functions implement
  insertion and removal on that list, which is how the other components use them.
\<close>

subsection \<open>Nodes, heap and operations\<close>

record 'p links =
  l_prev :: 'p
  l_next :: 'p

type_synonym 'p heap = "'p \<Rightarrow> 'p links"

definition set_prev :: "'p \<Rightarrow> 'p \<Rightarrow> 'p heap \<Rightarrow> 'p heap" where
  "set_prev a v h = h(a := (h a)\<lparr>l_prev := v\<rparr>)"

definition set_next :: "'p \<Rightarrow> 'p \<Rightarrow> 'p heap \<Rightarrow> 'p heap" where
  "set_next a v h = h(a := (h a)\<lparr>l_next := v\<rparr>)"

definition list_init :: "'p heap \<Rightarrow> 'p \<Rightarrow> 'p heap" where
  "list_init h l = set_prev l l (set_next l l h)"

definition list_insert_after :: "'p heap \<Rightarrow> 'p \<Rightarrow> 'p \<Rightarrow> 'p heap" where
  "list_insert_after h l n =
     (let h = set_prev (l_next (h l)) n h;
          h = set_next n (l_next (h l)) h;
          h = set_prev n l h
      in set_next l n h)"

definition list_insert_before :: "'p heap \<Rightarrow> 'p \<Rightarrow> 'p \<Rightarrow> 'p heap" where
  "list_insert_before h l n =
     (let h = set_next (l_prev (h l)) n h;
          h = set_prev n (l_prev (h l)) h;
          h = set_next n l h
      in set_prev l n h)"

definition list_remove :: "'p heap \<Rightarrow> 'p \<Rightarrow> 'p heap" where
  "list_remove h l =
     (let h = set_prev (l_next (h l)) (l_prev (h l)) h;
          h = set_next (l_prev (h l)) (l_next (h l)) h
      in list_init h l)"

text \<open>\<open>list_head->next\<close> and the emptiness test \<^verbatim>\<open>list->next == list\<close>.\<close>

definition list_first :: "'p heap \<Rightarrow> 'p \<Rightarrow> 'p option" where
  "list_first h l = (if l_next (h l) = l then None else Some (l_next (h l)))"

lemma set_prev_sel [simp]:
  "l_prev (set_prev a v h b) = (if a = b then v else l_prev (h b))"
  "l_next (set_prev a v h b) = l_next (h b)"
  by (auto simp: set_prev_def)

lemma set_next_sel [simp]:
  "l_next (set_next a v h b) = (if a = b then v else l_next (h b))"
  "l_prev (set_next a v h b) = l_prev (h b)"
  by (auto simp: set_next_def)

subsection \<open>The list a ring stands for\<close>

definition adjacent :: "'p heap \<Rightarrow> 'p \<Rightarrow> 'p \<Rightarrow> bool" where
  "adjacent h a b \<longleftrightarrow> l_next (h a) = b \<and> l_prev (h b) = a"

definition dlist :: "'p heap \<Rightarrow> 'p \<Rightarrow> 'p list \<Rightarrow> bool" where
  "dlist h l xs \<longleftrightarrow> distinct (l # xs) \<and> successively (adjacent h) (l # xs @ [l])"

text \<open>A chain depends on the forward links of all but its last node and on the backward links of all
  but its first.\<close>

lemma chain_frame:
  assumes "successively (adjacent h) ys"
    and "\<And>x. x \<in> set (butlast ys) \<Longrightarrow> l_next (h' x) = l_next (h x)"
    and "\<And>x. x \<in> set (tl ys) \<Longrightarrow> l_prev (h' x) = l_prev (h x)"
  shows "successively (adjacent h') ys"
  using assms
proof (induction ys rule: induct_list012)
  case (3 x y zs)
  then have "successively (adjacent h') (y # zs)"
    by (cases zs) auto
  then show ?case
    using 3 by (simp add: adjacent_def)
qed auto

lemma dlist_splitD:
  assumes "dlist h l (us @ vs)"
  shows "successively (adjacent h) (l # us)" "successively (adjacent h) (vs @ [l])"
    "l_next (h (last (l # us))) = hd (vs @ [l])" "l_prev (h (hd (vs @ [l]))) = last (l # us)"
proof -
  have "successively (adjacent h) ((l # us) @ (vs @ [l]))"
    using assms by (simp add: dlist_def)
  then show "successively (adjacent h) (l # us)" "successively (adjacent h) (vs @ [l])"
      "l_next (h (last (l # us))) = hd (vs @ [l])" "l_prev (h (hd (vs @ [l]))) = last (l # us)"
    by (simp_all only: successively_append_iff adjacent_def) auto
qed

lemma last_notin_butlast: "distinct xs \<Longrightarrow> xs \<noteq> [] \<Longrightarrow> last xs \<notin> set (butlast xs)"
  by (induction xs) (auto dest: in_set_butlastD)

lemma hd_notin_tl: "distinct xs \<Longrightarrow> xs \<noteq> [] \<Longrightarrow> hd xs \<notin> set (tl xs)"
  by (cases xs) auto

lemma distinct_ends:
  assumes "distinct (l # us @ vs)"
  shows "last (l # us) \<notin> set (butlast (l # us))" "hd (vs @ [l]) \<notin> set (tl (vs @ [l]))"
    "last (l # us) \<notin> set vs" "hd (vs @ [l]) \<notin> set us"
proof -
  have "distinct (l # us)" "distinct (vs @ [l])"
    using assms by auto
  then show "last (l # us) \<notin> set (butlast (l # us))" "hd (vs @ [l]) \<notin> set (tl (vs @ [l]))"
    by (simp_all only: last_notin_butlast hd_notin_tl list.distinct append_is_Nil_conv simp_thms)
  show "last (l # us) \<notin> set vs"
    using assms by (cases us rule: rev_cases) auto
  show "hd (vs @ [l]) \<notin> set us"
    using assms by (cases vs) auto
qed

lemma last_mem: "last (l # us) \<in> set (l # us)"
  by (rule last_in_set) simp

lemma hd_mem: "hd (vs @ [l]) \<in> set (vs @ [l])"
  by (rule hd_in_set) simp

subsection \<open>Refinement of the operations\<close>

theorem dlist_init: "dlist (list_init h l) l []"
  by (simp add: dlist_def list_init_def adjacent_def)

text \<open>A heap that differs from a ring only by having \<open>n\<close> spliced in.\<close>

lemma dlist_splice:
  assumes ring: "dlist h l (us @ vs)" and fresh: "n \<notin> set (l # us @ vs)"
  defines "p \<equiv> last (l # us)" and "s \<equiv> hd (vs @ [l])"
  assumes nxt: "\<And>x. l_next (h' x) = (if x = p then n else if x = n then s else l_next (h x))"
    and prv: "\<And>x. l_prev (h' x) = (if x = s then n else if x = n then p else l_prev (h x))"
  shows "dlist h' l (us @ n # vs)"
proof -
  have dist: "distinct (l # us @ vs)"
    using ring by (simp add: dlist_def)
  have pn: "p \<noteq> n" "s \<noteq> n"
    using last_mem [of l us] hd_mem [of vs l] fresh by (auto simp: p_def s_def)
  note ends = distinct_ends [OF dist, folded p_def s_def]
  have "successively (adjacent h') (l # us)"
  proof (rule chain_frame [OF dlist_splitD(1) [OF ring]])
    fix x
    assume x: "x \<in> set (butlast (l # us))"
    then have "x \<noteq> n"
      using fresh in_set_butlastD [OF x] by auto
    then show "l_next (h' x) = l_next (h x)"
      using x ends(1) nxt by metis
  qed (use ends(4) fresh prv in auto)
  moreover have "successively (adjacent h') (vs @ [l])"
  proof (rule chain_frame [OF dlist_splitD(2) [OF ring]])
    fix x
    assume x: "x \<in> set (tl (vs @ [l]))"
    then have "x \<noteq> n"
      using fresh by (cases vs) auto
    then show "l_prev (h' x) = l_prev (h x)"
      using x ends(2) prv by metis
  qed (use ends(3) fresh nxt in auto)
  moreover have "adjacent h' p n" "adjacent h' n s"
    using pn by (auto simp: adjacent_def nxt prv)
  ultimately have "successively (adjacent h') ((l # us) @ n # (vs @ [l]))"
    by (simp only: successively_append_iff successively_Cons) (auto simp: p_def s_def)
  then show ?thesis
    using dist fresh by (auto simp: dlist_def)
qed

theorem dlist_insert_after:
  assumes "dlist h l (us @ vs)" "n \<notin> set (l # us @ vs)"
  shows "dlist (list_insert_after h (last (l # us)) n) l (us @ n # vs)"
proof (rule dlist_splice [OF assms])
  have "last (l # us) \<noteq> n" "hd (vs @ [l]) \<noteq> n"
    using last_mem [of l us] hd_mem [of vs l] assms(2) by auto
  then show "l_next (list_insert_after h (last (l # us)) n x) =
        (if x = last (l # us) then n else if x = n then hd (vs @ [l]) else l_next (h x))"
      "l_prev (list_insert_after h (last (l # us)) n x) =
        (if x = hd (vs @ [l]) then n else if x = n then last (l # us) else l_prev (h x))" for x
    using dlist_splitD(3) [OF assms(1)]
    by (auto simp: list_insert_after_def Let_def simp del: last.simps)
qed

theorem dlist_insert_before:
  assumes "dlist h l (us @ vs)" "n \<notin> set (l # us @ vs)"
  shows "dlist (list_insert_before h (hd (vs @ [l])) n) l (us @ n # vs)"
proof (rule dlist_splice [OF assms])
  have "last (l # us) \<noteq> n" "hd (vs @ [l]) \<noteq> n"
    using last_mem [of l us] hd_mem [of vs l] assms(2) by auto
  then show "l_next (list_insert_before h (hd (vs @ [l])) n x) =
        (if x = last (l # us) then n else if x = n then hd (vs @ [l]) else l_next (h x))"
      "l_prev (list_insert_before h (hd (vs @ [l])) n x) =
        (if x = hd (vs @ [l]) then n else if x = n then last (l # us) else l_prev (h x))" for x
    using dlist_splitD(4) [OF assms(1)]
    by (auto simp: list_insert_before_def Let_def simp del: last.simps)
qed

theorem dlist_remove:
  assumes ring: "dlist h l (us @ n # vs)"
  shows "dlist (list_remove h n) l (us @ vs) \<and> dlist (list_remove h n) n []"
proof -
  define p s where "p = last (l # us)" and "s = hd (vs @ [l])"
  have dist: "distinct (l # us @ vs)" and fresh: "n \<notin> set (l # us @ vs)"
    using ring by (auto simp: dlist_def)
  have pn: "p \<noteq> n" "s \<noteq> n"
    using last_mem [of l us] hd_mem [of vs l] fresh by (auto simp: p_def s_def)
  note ends = distinct_ends [OF dist, folded p_def s_def]
  have "successively (adjacent h) ((l # us) @ n # (vs @ [l]))"
    using ring by (simp add: dlist_def)
  then have us: "successively (adjacent h) (l # us)" and vs: "successively (adjacent h) (vs @ [l])"
    and pns: "adjacent h p n" "adjacent h n s"
    by (simp_all only: successively_append_iff successively_Cons) (auto simp: p_def s_def)
  have nxt: "l_next (list_remove h n x) = (if x = n then n else if x = p then s else l_next (h x))"
    and prv: "l_prev (list_remove h n x) = (if x = n then n else if x = s then p else l_prev (h x))" for x
    using pns pn by (auto simp: list_remove_def Let_def list_init_def adjacent_def)
  have "successively (adjacent (list_remove h n)) (l # us)"
  proof (rule chain_frame [OF us])
    fix x
    assume x: "x \<in> set (butlast (l # us))"
    then have "x \<noteq> n"
      using fresh in_set_butlastD [OF x] by auto
    then show "l_next (list_remove h n x) = l_next (h x)"
      using x ends(1) nxt by metis
  qed (use ends(4) fresh prv in auto)
  moreover have "successively (adjacent (list_remove h n)) (vs @ [l])"
  proof (rule chain_frame [OF vs])
    fix x
    assume x: "x \<in> set (tl (vs @ [l]))"
    then have "x \<noteq> n"
      using fresh by (cases vs) auto
    then show "l_prev (list_remove h n x) = l_prev (h x)"
      using x ends(2) prv by metis
  qed (use ends(3) fresh nxt in auto)
  moreover have "adjacent (list_remove h n) p s"
    using pn by (simp add: adjacent_def nxt prv)
  ultimately have "successively (adjacent (list_remove h n)) ((l # us) @ (vs @ [l]))"
    by (simp only: successively_append_iff) (auto simp: p_def s_def)
  then show ?thesis
    using dist by (simp add: dlist_def adjacent_def nxt prv)
qed

lemma list_first_dlist: "dlist h l xs \<Longrightarrow> list_first h l = (case xs of [] \<Rightarrow> None | x # _ \<Rightarrow> Some x)"
  by (cases xs) (auto simp: dlist_def list_first_def adjacent_def)

text \<open>A ring is not touched by stores to nodes outside it.\<close>

lemma dlist_frame:
  assumes "dlist h l xs" "\<And>x. x \<in> set (l # xs) \<Longrightarrow> h' x = h x"
  shows "dlist h' l xs"
proof -
  have "successively (adjacent h) ((l # xs) @ [l])"
    using assms(1) by (simp add: dlist_def)
  then have "successively (adjacent h') ((l # xs) @ [l])"
  proof (rule chain_frame)
    show "l_next (h' x) = l_next (h x)" if "x \<in> set (butlast ((l # xs) @ [l]))" for x
      using that assms(2) [of x] by (simp only: butlast_snoc)
    show "l_prev (h' x) = l_prev (h x)" if "x \<in> set (tl ((l # xs) @ [l]))" for x
      using that assms(2) [of x] by (metis append_Cons list.sel(3) list.set_intros(1) rotate1.simps(2) set_rotate1)
  qed
  then show ?thesis
    using assms(1) by (simp add: dlist_def)
qed

subsection \<open>The contract as an interface\<close>

text \<open>
  What the kernel's queues rely on: a head, a way to append at the tail (\<^verbatim>\<open>list_insert_before\<close>
  on the head), to push at the front (\<^verbatim>\<open>list_insert_after\<close> on the head), to look at the first
  element and to unlink any element. The client lemmas give the two disciplines in use: tail
  insertion with removal of the first element is first-in first-out (wait queues, work queues),
  head insertion is last-in first-out (the buddy free lists).
\<close>

locale ring_list =
  fixes rep :: "'h \<Rightarrow> 'p list \<Rightarrow> bool"
    and push_back push_front unlink :: "'h \<Rightarrow> 'p \<Rightarrow> 'h"
    and first :: "'h \<Rightarrow> 'p option"
    and node_ok :: "'p \<Rightarrow> bool"
  assumes push_back: "rep h xs \<Longrightarrow> node_ok n \<Longrightarrow> n \<notin> set xs \<Longrightarrow> rep (push_back h n) (xs @ [n])"
    and push_front: "rep h xs \<Longrightarrow> node_ok n \<Longrightarrow> n \<notin> set xs \<Longrightarrow> rep (push_front h n) (n # xs)"
    and unlink: "rep h (us @ n # vs) \<Longrightarrow> rep (unlink h n) (us @ vs)"
    and first: "rep h xs \<Longrightarrow> first h = (case xs of [] \<Rightarrow> None | x # _ \<Rightarrow> Some x)"
    and rep_distinct: "rep h xs \<Longrightarrow> distinct xs"
begin

lemma push_back_all:
  "rep h xs \<Longrightarrow> (\<forall>n\<in>set ns. node_ok n) \<Longrightarrow> distinct ns \<Longrightarrow> set ns \<inter> set xs = {} \<Longrightarrow>
   rep (fold (\<lambda>n h. push_back h n) ns h) (xs @ ns)"
proof (induction ns arbitrary: h xs)
  case (Cons n ns)
  have "rep (push_back h n) (xs @ [n])"
    using Cons.prems by (intro push_back) auto
  then have "rep (fold (\<lambda>n h. push_back h n) ns (push_back h n)) ((xs @ [n]) @ ns)"
    using Cons.prems by (intro Cons.IH) auto
  then show ?case
    by simp
qed simp

lemma fifo:
  assumes "rep h xs" "\<forall>n\<in>set ns. node_ok n" "distinct ns" "set ns \<inter> set xs = {}"
  shows "first (fold (\<lambda>n h. push_back h n) ns h) = (case xs @ ns of [] \<Rightarrow> None | x # _ \<Rightarrow> Some x)"
  using first [OF push_back_all [OF assms]] .

lemma lifo:
  assumes "rep h xs" "node_ok n" "n \<notin> set xs"
  shows "first (push_front h n) = Some n" "rep (unlink (push_front h n) n) xs"
  using first [OF push_front [OF assms]] unlink [of "push_front h n" "[]" n xs] push_front [OF assms]
  by auto

lemma drain:
  "rep h xs \<Longrightarrow> rep (fold (\<lambda>n h. unlink h n) xs h) []"
proof (induction xs arbitrary: h)
  case (Cons x xs)
  then show ?case
    using unlink [of h "[]" x xs] by simp
qed simp

end

interpretation kl: ring_list "\<lambda>h. dlist h l" "\<lambda>h n. list_insert_before h l n"
  "\<lambda>h n. list_insert_after h l n" list_remove "\<lambda>h. list_first h l" "\<lambda>n. n \<noteq> l"
  for l :: 'p
proof
  show "dlist (list_insert_before h l n) l (xs @ [n])" if "dlist h l xs" "n \<noteq> l" "n \<notin> set xs" for h xs n
    using dlist_insert_before [of h l xs "[]" n] that by simp
  show "dlist (list_insert_after h l n) l (n # xs)" if "dlist h l xs" "n \<noteq> l" "n \<notin> set xs" for h xs n
    using dlist_insert_after [of h l "[]" xs n] that by simp
  show "distinct xs" if "dlist h l xs" for h xs
    using that by (simp add: dlist_def)
qed (simp_all add: dlist_remove list_first_dlist)

subsection \<open>Properties\<close>

text \<open>C32. The links of \<^verbatim>\<open>list.h\<close> implement sequences: inserting before the head appends, inserting after the head
  prepends, removing a node takes exactly this node out wherever it stands and leaves it a ring of its
  own, so that inserting and removing a node restores the sequence.\<close>

theorem list_ops_refine:
  assumes "dlist h l xs" "n \<notin> set (l # xs)"
  shows "dlist (list_insert_before h l n) l (xs @ [n]) \<and> dlist (list_insert_after h l n) l (n # xs) \<and>
    (\<forall>us x vs. xs = us @ x # vs \<longrightarrow> dlist (list_remove h x) l (us @ vs) \<and> dlist (list_remove h x) x []) \<and>
    dlist (list_remove (list_insert_before h l n) n) l xs"
proof -
  have b: "dlist (list_insert_before h l n) l (xs @ [n])"
    using assms by (intro kl.push_back) auto
  moreover have "dlist (list_insert_after h l n) l (n # xs)"
    using assms by (intro kl.push_front) auto
  moreover have "dlist (list_remove (list_insert_before h l n) n) l (xs @ [])"
    using dlist_remove [OF b] by blast
  ultimately show ?thesis using assms(1) by (auto simp: dlist_remove)
qed

theorem list_ops_refine_witness:
  "dlist (list_insert_before (list_init (\<lambda>_. \<lparr>l_prev = 0, l_next = 0\<rparr>) (1::nat)) 1 2) 1 [2]"
  using list_ops_refine [OF dlist_init, of "2::nat" 1 "\<lambda>_. \<lparr>l_prev = 0, l_next = 0\<rparr>"] by simp

end
