(* ===== verification/Buddy.thy ===== *)
theory Buddy
  imports Memrange Klist "HOL-Library.Multiset"
begin

text \<open>
  \<^verbatim>\<open>kernel/buddy.c\<close>: the physical page allocator. A region is an interval of pages with one
  state byte per page; the byte of the first page of a block holds \<^verbatim>\<open>FREE | order\<close> or
  \<^verbatim>\<open>ALLOCATED | order\<close>, every other byte is \<^verbatim>\<open>UNUSED\<close>. Free blocks of an order are
  linked through their own first page into the list of that order; a list is the list of the
  addresses on it, first element first (theory \<open>Klist\<close> shows that the links implement it).
  A region pointer is the index of the region in the allocator's array, whose used part is the list
  \<open>regions\<close>; a pointer into the state array is the index of the byte.
\<close>

subsection \<open>Data\<close>

definition BUDDY_MAX_ORDER :: nat where
  "BUDDY_MAX_ORDER = 18"

definition BUDDY_STATE_FREE :: u8 where
  "BUDDY_STATE_FREE = 0x80"

definition BUDDY_STATE_ALLOCATED :: u8 where
  "BUDDY_STATE_ALLOCATED = 0x40"

definition BUDDY_STATE_UNUSED :: u8 where
  "BUDDY_STATE_UNUSED = 0xff"

record buddy_area =
  blocks :: "u64 list"
  area_count :: u64

record buddy_region =
  b_start :: u64
  b_end :: u64
  allocatable_start :: u64
  states :: "u8 list"
  state_count :: u64

record buddy_allocator =
  areas :: "buddy_area list"
  regions :: "buddy_region list"
  free_pages :: u64

subsection \<open>Operations\<close>

definition buddy_order_size :: "nat \<Rightarrow> u64" where
  "buddy_order_size order = push_bit order PGSIZE"

definition buddy_find_region :: "buddy_allocator \<Rightarrow> u64 \<Rightarrow> nat option" where
  "buddy_find_region al address =
     (let i = scan (\<lambda>i. address \<ge> b_start (regions al ! i) \<and> address < b_end (regions al ! i))
                   0 (length (regions al))
      in if i < length (regions al) then Some i else None)"

definition buddy_state :: "buddy_region \<Rightarrow> u64 \<Rightarrow> nat option" where
  "buddy_state r address =
     (let index = (address - b_start r) div PGSIZE
      in if index \<ge> state_count r then None else Some (unat index))"

definition buddy_block_fits :: "buddy_region \<Rightarrow> u64 \<Rightarrow> nat \<Rightarrow> bool" where
  "buddy_block_fits r address order =
     (if order > BUDDY_MAX_ORDER \<or> address < allocatable_start r \<or> address mod PGSIZE \<noteq> 0 then False
      else let size = buddy_order_size order
           in address mod size = 0 \<and> address \<le> b_end r \<and> size \<le> b_end r - address)"

text \<open>A store through a state pointer.\<close>

definition put_state :: "buddy_allocator \<Rightarrow> nat \<Rightarrow> u64 \<Rightarrow> u8 \<Rightarrow> buddy_allocator" where
  "put_state al ri address v =
     al\<lparr>regions := (regions al)[ri := (regions al ! ri)
          \<lparr>states := (states (regions al ! ri))[the (buddy_state (regions al ! ri) address) := v]\<rparr>]\<rparr>"

definition buddy_list_add :: "buddy_allocator \<Rightarrow> nat \<Rightarrow> u64 \<Rightarrow> nat \<Rightarrow> buddy_allocator" where
  "buddy_list_add al ri address order =
     put_state (al\<lparr>areas := (areas al)[order := \<lparr>blocks = address # blocks (areas al ! order),
                                              area_count = area_count (areas al ! order) + 1\<rparr>]\<rparr>)
       ri address (BUDDY_STATE_FREE OR of_nat order)"

definition buddy_list_remove :: "buddy_allocator \<Rightarrow> u64 \<Rightarrow> nat \<Rightarrow> buddy_allocator" where
  "buddy_list_remove al address order =
     al\<lparr>areas := (areas al)[order := \<lparr>blocks = remove1 address (blocks (areas al ! order)),
                                    area_count = area_count (areas al ! order) - 1\<rparr>]\<rparr>"

function buddy_largest_order_loop :: "u64 \<Rightarrow> u64 \<Rightarrow> nat \<Rightarrow> nat" where
  "buddy_largest_order_loop page pages order =
     (if order < BUDDY_MAX_ORDER \<and> page AND push_bit order 1 = 0 \<and> push_bit (order + 1) 1 \<le> pages
      then buddy_largest_order_loop page pages (order + 1) else order)"
  by pat_completeness auto
termination
  by (relation "measure (\<lambda>(page, pages, order). BUDDY_MAX_ORDER - order)") auto

declare buddy_largest_order_loop.simps [simp del]

definition buddy_largest_order :: "u64 \<Rightarrow> u64 \<Rightarrow> nat" where
  "buddy_largest_order address pages = buddy_largest_order_loop (address div PGSIZE) pages 0"

definition buddy_init :: "buddy_allocator \<Rightarrow> buddy_allocator" where
  "buddy_init al =
     al\<lparr>regions := [], free_pages := 0,
        areas := replicate (BUDDY_MAX_ORDER + 1) \<lparr>blocks = [], area_count = 0\<rparr>\<rparr>"

text \<open>The loop of \<^verbatim>\<open>buddy_add_region\<close> that cuts the region into blocks; \<open>None\<close> is a loop that
  does not end.\<close>

partial_function (option) buddy_add_blocks ::
  "buddy_allocator \<Rightarrow> nat \<Rightarrow> u64 \<Rightarrow> u64 \<Rightarrow> buddy_allocator option" where
  "buddy_add_blocks al ri address finish =
     (if address < finish then
        let pages = (finish - address) div PGSIZE;
            order = buddy_largest_order address pages;
            al' = buddy_list_add al ri address order
        in buddy_add_blocks (al'\<lparr>free_pages := free_pages al' + push_bit order 1\<rparr>) ri
             (address + buddy_order_size order) finish
      else Some al)"

definition buddy_add_region ::
  "buddy_allocator \<Rightarrow> u64 \<Rightarrow> u64 \<Rightarrow> u64 \<Rightarrow> u8 list \<Rightarrow> u64 \<Rightarrow> (int \<times> buddy_allocator) option" where
  "buddy_add_region al start finish alloc_start sts n_states =
     (if start \<ge> finish \<or> start mod PGSIZE \<noteq> 0 \<or> finish mod PGSIZE \<noteq> 0 \<or>
         alloc_start < start \<or> alloc_start > finish \<or> alloc_start mod PGSIZE \<noteq> 0 \<or>
         n_states < (finish - start) div PGSIZE \<or> length (regions al) \<ge> MEMRANGE_MAX
      then Some (-1, al)
      else if \<exists>i<length (regions al). start < b_end (regions al ! i) \<and> finish > b_start (regions al ! i)
      then Some (-1, al)
      else
        let r = \<lparr>b_start = start, b_end = finish, allocatable_start = alloc_start,
                 states = map (\<lambda>_. BUDDY_STATE_UNUSED) (take (unat n_states) sts) @ drop (unat n_states) sts,
                 state_count = n_states\<rparr>
        in map_option (\<lambda>al'. (0, al'))
             (buddy_add_blocks (al\<lparr>regions := regions al @ [r]\<rparr>) (length (regions al)) alloc_start finish))"

fun buddy_split :: "buddy_allocator \<Rightarrow> nat \<Rightarrow> u64 \<Rightarrow> nat \<Rightarrow> nat \<Rightarrow> buddy_allocator" where
  "buddy_split al ri address current order =
     (if order < current then
        buddy_split (buddy_list_add al ri (address + buddy_order_size (current - 1)) (current - 1))
          ri address (current - 1) order
      else al)"

declare buddy_split.simps [simp del]

definition buddy_alloc :: "buddy_allocator \<Rightarrow> nat \<Rightarrow> u64 option \<times> buddy_allocator" where
  "buddy_alloc al order =
     (if order > BUDDY_MAX_ORDER then (None, al)
      else
        let current = scan (\<lambda>c. area_count (areas al ! c) \<noteq> 0) order (BUDDY_MAX_ORDER + 1)
        in if current > BUDDY_MAX_ORDER then (None, al)
           else
             let address = hd (blocks (areas al ! current));
                 ri = the (buddy_find_region al address);
                 al = buddy_list_remove al address current;
                 al = put_state al ri address BUDDY_STATE_UNUSED;
                 al = buddy_split al ri address current order;
                 al = put_state al ri address (BUDDY_STATE_ALLOCATED OR of_nat order)
             in (Some address, al\<lparr>free_pages := free_pages al - push_bit order 1\<rparr>))"

definition buddy_allocated :: "buddy_allocator \<Rightarrow> u64 \<Rightarrow> nat \<Rightarrow> bool" where
  "buddy_allocated al address order =
     (if order > BUDDY_MAX_ORDER \<or> address mod PGSIZE \<noteq> 0 then False
      else case buddy_find_region al address of
        None \<Rightarrow> False
      | Some ri \<Rightarrow>
          if \<not> buddy_block_fits (regions al ! ri) address order then False
          else case buddy_state (regions al ! ri) address of
            None \<Rightarrow> False
          | Some i \<Rightarrow> states (regions al ! ri) ! i = BUDDY_STATE_ALLOCATED OR of_nat order)"

function buddy_merge ::
  "buddy_allocator \<Rightarrow> nat \<Rightarrow> u64 \<Rightarrow> nat \<Rightarrow> buddy_allocator \<times> u64 \<times> nat" where
  "buddy_merge al ri address current =
     (if current < BUDDY_MAX_ORDER then
        let buddy = address XOR buddy_order_size current;
            r = regions al ! ri
        in if \<not> buddy_block_fits r buddy current then (al, address, current)
           else case buddy_state r buddy of
             None \<Rightarrow> (al, address, current)
           | Some i \<Rightarrow>
               if states r ! i \<noteq> BUDDY_STATE_FREE OR of_nat current then (al, address, current)
               else buddy_merge (put_state (buddy_list_remove al buddy current) ri buddy BUDDY_STATE_UNUSED)
                      ri (if buddy < address then buddy else address) (current + 1)
      else (al, address, current))"
  by pat_completeness auto
termination
  by (relation "measure (\<lambda>(al, ri, address, current). BUDDY_MAX_ORDER - current)") auto

declare buddy_merge.simps [simp del]

definition buddy_free :: "buddy_allocator \<Rightarrow> u64 \<Rightarrow> nat \<Rightarrow> int \<times> buddy_allocator" where
  "buddy_free al address order =
     (if \<not> buddy_allocated al address order then (-1, al)
      else
        let ri = the (buddy_find_region al address);
            al = put_state al ri address BUDDY_STATE_UNUSED;
            (al, address, current) = buddy_merge al ri address order;
            al = buddy_list_add al ri address current
        in (0, al\<lparr>free_pages := free_pages al + push_bit order 1\<rparr>))"

definition buddy_contains :: "buddy_allocator \<Rightarrow> u64 \<Rightarrow> bool" where
  "buddy_contains al address =
     (if address mod PGSIZE \<noteq> 0 then False
      else case buddy_find_region al address of
        None \<Rightarrow> False
      | Some ri \<Rightarrow> address \<ge> allocatable_start (regions al ! ri))"

definition buddy_free_page_count :: "buddy_allocator \<Rightarrow> u64" where
  "buddy_free_page_count al = free_pages al"

subsection \<open>Page numbers\<close>

text \<open>Addresses of pages and page numbers: the allocator's arithmetic on \<^verbatim>\<open>uint64\<close> addresses is
  arithmetic on page numbers below \<open>max_page = 2 ^ 52\<close>.\<close>

definition page_addr :: "nat \<Rightarrow> u64" where
  "page_addr p = of_nat (p * 4096)"

definition addr_page :: "u64 \<Rightarrow> nat" where
  "addr_page a = unat a div 4096"

abbreviation max_page :: nat where
  "max_page \<equiv> 4503599627370496"

lemma unat_page_addr [simp]: "p < max_page \<Longrightarrow> unat (page_addr p) = p * 4096"
  unfolding page_addr_def by (subst unat_of_nat) simp

lemma addr_page_page_addr [simp]: "p < max_page \<Longrightarrow> addr_page (page_addr p) = p"
  by (simp add: addr_page_def)

lemma addr_page_less [simp]: "addr_page a < max_page"
  using unsigned_less [where 'a = nat, of a] by (simp add: addr_page_def less_mult_imp_div_less)

lemma page_addr_addr_page: "page_aligned a \<Longrightarrow> page_addr (addr_page a) = a"
  by (simp add: page_addr_def addr_page_def page_aligned_unat)

lemma page_aligned_page_addr [simp]: "p < max_page \<Longrightarrow> page_aligned (page_addr p)"
  by (simp add: page_aligned_unat)

lemma page_addr_inj: "p < max_page \<Longrightarrow> q < max_page \<Longrightarrow> page_addr p = page_addr q \<longleftrightarrow> p = q"
  using addr_page_page_addr by metis

lemma page_addr_le: "p < max_page \<Longrightarrow> q < max_page \<Longrightarrow> page_addr p \<le> page_addr q \<longleftrightarrow> p \<le> q"
  by (simp add: word_le_nat_alt)

lemma page_addr_less: "p < max_page \<Longrightarrow> q < max_page \<Longrightarrow> page_addr p < page_addr q \<longleftrightarrow> p < q"
  by (simp add: word_less_nat_alt)

lemma page_addr_diff: "q \<le> p \<Longrightarrow> p < max_page \<Longrightarrow> page_addr p - page_addr q = page_addr (p - q)"
  by (simp add: page_addr_def diff_mult_distrib of_nat_diff)

lemma page_addr_add: "page_addr p + page_addr q = page_addr (p + q)"
  by (simp add: page_addr_def algebra_simps)

lemma page_addr_div: "p < max_page \<Longrightarrow> page_addr p div PGSIZE = of_nat p"
  by (rule word_unat_eq_iff [THEN iffD2]) (simp add: unat_div PGSIZE_unat unat_of_nat)

lemma buddy_order_size_page: "buddy_order_size k = page_addr (2 ^ k)"
  by (simp add: buddy_order_size_def page_addr_def push_bit_eq_mult PGSIZE_def mult.commute)

lemma page_addr_mod_order:
  assumes "p < max_page" "k \<le> 18"
  shows "page_addr p mod buddy_order_size k = 0 \<longleftrightarrow> 2 ^ k dvd p"
proof -
  have "(2::nat) ^ k \<le> 2 ^ 18" by (rule power_increasing) (use assms in auto)
  then have "unat (buddy_order_size k) = 2 ^ k * 4096"
    unfolding buddy_order_size_page by (intro unat_page_addr) simp
  then have "unat (page_addr p mod buddy_order_size k) = (p mod 2 ^ k) * 4096"
    using assms by (simp add: unat_mod mult_mod_left)
  then show ?thesis by (simp add: unat_eq_0 [symmetric] mod_eq_0_iff_dvd)
qed

lemma nat_xor_power: "q XOR 2 ^ k = (if bit q k then q - 2 ^ k else q + 2 ^ (k::nat))" for q :: nat
proof (cases "bit q k")
  case True
  have *: "q XOR 2 ^ k = unset_bit k q"
    by (rule bit_eqI) (use True in \<open>auto simp: bit_xor_iff bit_unset_bit_iff bit_exp_iff\<close>)
  have "q = set_bit k (unset_bit k q)"
    by (rule bit_eqI) (use True in \<open>auto simp: bit_set_bit_iff bit_unset_bit_iff\<close>)
  also have "\<dots> = unset_bit k q + 2 ^ k" by (simp add: set_bit_eq bit_unset_bit_iff)
  finally show ?thesis using * True by simp
next
  case False
  have "q XOR 2 ^ k = set_bit k q"
    by (rule bit_eqI) (use False in \<open>auto simp: bit_xor_iff bit_set_bit_iff bit_exp_iff\<close>)
  then show ?thesis using False by (simp add: set_bit_eq)
qed

lemma page_addr_xor:
  assumes "q < max_page" "k \<le> 18"
  shows "page_addr q XOR buddy_order_size k = page_addr (q XOR 2 ^ k)" and "q XOR 2 ^ k < max_page"
proof -
  have k: "(2::nat) ^ k \<le> 2 ^ 18" by (rule power_increasing) (use assms in auto)
  have *: "(q XOR 2 ^ k) * 4096 = (q * 4096) XOR (2 ^ k * 4096)"
    using push_bit_xor [of 12 q "2 ^ k"] by (simp add: push_bit_eq_mult)
  have u: "unat (page_addr q XOR buddy_order_size k) = (q XOR 2 ^ k) * 4096"
    using assms k by (simp add: unsigned_xor_eq buddy_order_size_page *)
  then show "q XOR 2 ^ k < max_page"
    using unsigned_less [where 'a = nat, of "page_addr q XOR buddy_order_size k"] by simp
  then show "page_addr q XOR buddy_order_size k = page_addr (q XOR 2 ^ k)"
    by (intro word_unat_eq_iff [THEN iffD2]) (simp add: u)
qed

text \<open>The sibling of an aligned block.\<close>

lemma sibling_cases:
  assumes "2 ^ k dvd (q::nat)"
  obtains "2 ^ Suc k dvd q" "q XOR 2 ^ k = q + 2 ^ k"
  | "2 ^ k \<le> q" "2 ^ Suc k dvd q - 2 ^ k" "q XOR 2 ^ k = q - 2 ^ k"
proof -
  obtain m where q: "q = 2 ^ k * m" using assms by auto
  have b: "bit q k \<longleftrightarrow> odd m" by (simp add: bit_iff_odd q)
  show ?thesis
  proof (cases "odd m")
    case True
    then obtain j where "m = 2 * j + 1" by (auto elim: oddE)
    then have "q = 2 ^ k + 2 ^ Suc k * j" by (simp add: q algebra_simps)
    then show ?thesis using that(2) b True by (simp add: nat_xor_power)
  next
    case False
    then obtain j where "m = 2 * j" by auto
    then have "q = 2 ^ Suc k * j" by (simp add: q)
    then show ?thesis using that(1) b False by (simp add: nat_xor_power)
  qed
qed

subsection \<open>Tilings\<close>

text \<open>
  The specification of a region: its allocatable pages are cut into blocks, each of \<open>2 ^ order\<close>
  pages and aligned to its size, and the state bytes are exactly the ones these blocks have. A block
  is free, allocated, or a hole, which is a block that an operation has taken off its list and not
  yet marked.
\<close>

datatype bkind = Hole | Free | Alloc

type_synonym blk = "bkind \<times> nat"

fun head_byte :: "blk \<Rightarrow> u8" where
  "head_byte (Hole, k) = BUDDY_STATE_UNUSED"
| "head_byte (Free, k) = BUDDY_STATE_FREE OR of_nat k"
| "head_byte (Alloc, k) = BUDDY_STATE_ALLOCATED OR of_nat k"

definition blk_bytes :: "blk \<Rightarrow> u8 list" where
  "blk_bytes b = head_byte b # replicate (2 ^ snd b - 1) BUDDY_STATE_UNUSED"

abbreviation bytes :: "blk list \<Rightarrow> u8 list" where
  "bytes bs \<equiv> concat (map blk_bytes bs)"

fun blk_pages :: "blk list \<Rightarrow> nat" where
  "blk_pages [] = 0"
| "blk_pages (b # bs) = 2 ^ snd b + blk_pages bs"

fun tiled :: "nat \<Rightarrow> blk list \<Rightarrow> bool" where
  "tiled p [] = True"
| "tiled p (b # bs) = (snd b \<le> BUDDY_MAX_ORDER \<and> 2 ^ snd b dvd p \<and> tiled (p + 2 ^ snd b) bs)"

text \<open>The first pages of the blocks of a kind and an order.\<close>

fun heads :: "bkind \<Rightarrow> nat \<Rightarrow> blk list \<Rightarrow> nat \<Rightarrow> nat multiset" where
  "heads kd p [] k = {#}"
| "heads kd p (b # bs) k = (if b = (kd, k) then {#p#} else {#}) + heads kd (p + 2 ^ snd b) bs k"

fun free_page_sum :: "blk list \<Rightarrow> nat" where
  "free_page_sum [] = 0"
| "free_page_sum (b # bs) = (if fst b = Free then 2 ^ snd b else 0) + free_page_sum bs"

lemma blk_pages_append [simp]: "blk_pages (xs @ ys) = blk_pages xs + blk_pages ys"
  by (induction xs) auto

lemma tiled_append [simp]: "tiled p (xs @ ys) \<longleftrightarrow> tiled p xs \<and> tiled (p + blk_pages xs) ys"
  by (induction xs arbitrary: p) (auto simp: add.assoc)

lemma heads_append [simp]:
  "heads kd p (xs @ ys) k = heads kd p xs k + heads kd (p + blk_pages xs) ys k"
  by (induction xs arbitrary: p) (auto simp: add.assoc)

lemma free_page_sum_append [simp]: "free_page_sum (xs @ ys) = free_page_sum xs + free_page_sum ys"
  by (induction xs) auto

lemma free_page_sum_le: "free_page_sum bs \<le> blk_pages bs"
  by (induction bs) auto

lemma length_blk_bytes [simp]: "length (blk_bytes b) = 2 ^ snd b"
  by (simp add: blk_bytes_def Suc_diff_Suc)

lemma length_bytes [simp]: "length (bytes bs) = blk_pages bs"
  by (induction bs) auto

lemma in_heads: "q \<in># heads kd p bs k \<longleftrightarrow> (\<exists>xs ys. bs = xs @ (kd, k) # ys \<and> q = p + blk_pages xs)"
proof (induction bs arbitrary: p)
  case (Cons b bs)
  show ?case
  proof
    assume "q \<in># heads kd p (b # bs) k"
    then consider "b = (kd, k)" "q = p" | "q \<in># heads kd (p + 2 ^ snd b) bs k"
      by (auto split: if_splits)
    then show "\<exists>xs ys. b # bs = xs @ (kd, k) # ys \<and> q = p + blk_pages xs"
    proof cases
      case 1
      then show ?thesis by (intro exI [of _ "[]"] exI [of _ bs]) simp
    next
      case 2
      then obtain xs ys where "bs = xs @ (kd, k) # ys" "q = p + 2 ^ snd b + blk_pages xs"
        using Cons.IH by auto
      then show ?thesis by (intro exI [of _ "b # xs"] exI [of _ ys]) (simp add: add.assoc)
    qed
  next
    assume "\<exists>xs ys. b # bs = xs @ (kd, k) # ys \<and> q = p + blk_pages xs"
    then obtain xs ys where "b # bs = xs @ (kd, k) # ys" "q = p + blk_pages xs" by auto
    then have "q \<in># heads kd p (xs @ (kd, k) # ys) k" by simp
    then show "q \<in># heads kd p (b # bs) k" by (simp only: \<open>b # bs = xs @ (kd, k) # ys\<close>)
  qed
qed simp

text \<open>The bytes determine the blocks: a byte other than \<open>UNUSED\<close> is the head of a block.\<close>

lemma byte_is_head:
  assumes "i < blk_pages bs" "bytes bs ! i \<noteq> BUDDY_STATE_UNUSED"
  obtains xs b ys where "bs = xs @ b # ys" "i = blk_pages xs" "bytes bs ! i = head_byte b"
  using assms
proof (induction bs arbitrary: i thesis)
  case (Cons b bs)
  consider "i = 0" | "0 < i" "i < 2 ^ snd b" | "2 ^ snd b \<le> i" by linarith
  then show ?case
  proof cases
    case 1
    then show ?thesis by (intro Cons.prems(1) [of "[]" b bs]) (simp_all add: blk_bytes_def)
  next
    case 2
    then have "bytes (b # bs) ! i = BUDDY_STATE_UNUSED"
      by (simp add: nth_append) (simp add: blk_bytes_def nth_Cons' )
    then show ?thesis using Cons.prems by simp
  next
    case 3
    let ?j = "i - 2 ^ snd b"
    have nth: "bytes (b # bs) ! i = bytes bs ! ?j" using 3 by (simp add: nth_append)
    have "?j < blk_pages bs" using 3 Cons.prems by simp
    then obtain xs c ys where "bs = xs @ c # ys" "?j = blk_pages xs" "bytes bs ! ?j = head_byte c"
      using Cons.IH [of ?j] Cons.prems nth by metis
    then show ?thesis using 3 nth by (intro Cons.prems(1) [of "b # xs" c ys]) simp_all
  qed
qed simp

lemma order_byte_inj:
  assumes "j \<le> 18" "k \<le> 18"
  shows "(BUDDY_STATE_FREE OR of_nat j = BUDDY_STATE_FREE OR of_nat k) = (j = k)"
    and "(BUDDY_STATE_ALLOCATED OR of_nat j = BUDDY_STATE_ALLOCATED OR of_nat k) = (j = k)"
    and "BUDDY_STATE_FREE OR of_nat j \<noteq> BUDDY_STATE_ALLOCATED OR of_nat k"
    and "BUDDY_STATE_FREE OR of_nat j \<noteq> BUDDY_STATE_UNUSED"
    and "BUDDY_STATE_ALLOCATED OR of_nat j \<noteq> BUDDY_STATE_UNUSED"
proof -
  have "\<forall>n\<in>set [0..<19]. unat (BUDDY_STATE_FREE OR of_nat n) = 128 + n \<and>
      unat (BUDDY_STATE_ALLOCATED OR of_nat n) = 64 + n"
    by code_simp
  then have fa: "unat (BUDDY_STATE_FREE OR of_nat n) = 128 + n"
    "unat (BUDDY_STATE_ALLOCATED OR of_nat n) = 64 + n" if "n \<le> 18" for n
    using that by simp_all
  have neq: "v \<noteq> w" if "unat v \<noteq> unat w" for v w :: u8 using that by blast
  show "(BUDDY_STATE_FREE OR of_nat j = BUDDY_STATE_FREE OR of_nat k) = (j = k)"
    using fa(1) [OF assms(1)] fa(1) [OF assms(2)] by (metis add_left_cancel)
  show "(BUDDY_STATE_ALLOCATED OR of_nat j = BUDDY_STATE_ALLOCATED OR of_nat k) = (j = k)"
    using fa(2) [OF assms(1)] fa(2) [OF assms(2)] by (metis add_left_cancel)
  have u: "unat BUDDY_STATE_UNUSED = 255" by (simp add: BUDDY_STATE_UNUSED_def)
  show "BUDDY_STATE_FREE OR of_nat j \<noteq> BUDDY_STATE_ALLOCATED OR of_nat k"
    by (rule neq, unfold fa(1) [OF assms(1)] fa(2) [OF assms(2)]) (use assms in linarith)
  show "BUDDY_STATE_FREE OR of_nat j \<noteq> BUDDY_STATE_UNUSED"
    by (rule neq, unfold fa(1) [OF assms(1)] u) (use assms in linarith)
  show "BUDDY_STATE_ALLOCATED OR of_nat j \<noteq> BUDDY_STATE_UNUSED"
    by (rule neq, unfold fa(2) [OF assms(1)] u) (use assms in linarith)
qed

lemma head_byte_eq:
  assumes "snd b \<le> 18" "k \<le> 18"
  shows "head_byte b = BUDDY_STATE_FREE OR of_nat k \<longleftrightarrow> b = (Free, k)"
    and "head_byte b = BUDDY_STATE_ALLOCATED OR of_nat k \<longleftrightarrow> b = (Alloc, k)"
    and "head_byte b = BUDDY_STATE_UNUSED \<longleftrightarrow> fst b = Hole"
  using assms order_byte_inj [of "snd b" k] order_byte_inj [of k "snd b"]
  by (cases b; cases "fst b"; force)+

subsection \<open>The state bytes of a region\<close>

abbreviation base :: "buddy_region \<Rightarrow> nat" where
  "base r \<equiv> addr_page (allocatable_start r)"

definition region_shape :: "buddy_region \<Rightarrow> bool" where
  "region_shape r \<longleftrightarrow>
     page_aligned (b_start r) \<and> page_aligned (b_end r) \<and> page_aligned (allocatable_start r) \<and>
     addr_page (b_start r) < addr_page (b_end r) \<and> addr_page (b_start r) \<le> base r \<and>
     addr_page (b_end r) - addr_page (b_start r) \<le> unat (state_count r)"

definition region_ok :: "buddy_region \<Rightarrow> blk list \<Rightarrow> bool" where
  "region_ok r bs \<longleftrightarrow>
     region_shape r \<and> base r + blk_pages bs = addr_page (b_end r) \<and> tiled (base r) bs \<and>
     (\<exists>rest. states r = replicate (base r - addr_page (b_start r)) BUDDY_STATE_UNUSED @ bytes bs @ rest)"

text \<open>The pages of the region that blocks tile.\<close>

definition in_region :: "buddy_region \<Rightarrow> nat \<Rightarrow> bool" where
  "in_region r q \<longleftrightarrow> base r \<le> q \<and> q < addr_page (b_end r)"

lemma region_okD:
  assumes "region_ok r bs"
  shows "b_start r = page_addr (addr_page (b_start r))" "b_end r = page_addr (addr_page (b_end r))"
    "allocatable_start r = page_addr (base r)"
  using assms by (simp_all add: region_ok_def region_shape_def page_addr_addr_page)

lemma block_in_region:
  assumes "region_ok r (xs @ b # ys)"
  shows "in_region r (base r + blk_pages xs)" "base r + blk_pages xs + 2 ^ snd b \<le> addr_page (b_end r)"
    "2 ^ snd b dvd base r + blk_pages xs" "snd b \<le> BUDDY_MAX_ORDER"
proof -
  have e: "base r + blk_pages xs + 2 ^ snd b + blk_pages ys = addr_page (b_end r)"
    and t: "snd b \<le> BUDDY_MAX_ORDER" "2 ^ snd b dvd base r + blk_pages xs"
    using assms by (simp_all add: region_ok_def)
  have "0 < (2::nat) ^ snd b" by simp
  then show "in_region r (base r + blk_pages xs)" using e unfolding in_region_def by linarith
  show "base r + blk_pages xs + 2 ^ snd b \<le> addr_page (b_end r)" using e by linarith
  show "2 ^ snd b dvd base r + blk_pages xs" "snd b \<le> BUDDY_MAX_ORDER" by (fact t)+
qed

lemma in_region_less [simp]: "in_region r q \<Longrightarrow> q < max_page"
  unfolding in_region_def using addr_page_less order_less_trans by blast

lemma buddy_state_page:
  assumes "region_ok r bs" "in_region r q"
  shows "buddy_state r (page_addr q) = Some (q - addr_page (b_start r))"
proof -
  let ?s = "addr_page (b_start r)"
  have q: "?s \<le> q" "q < max_page" "q - ?s < unat (state_count r)"
    using assms in_region_less [OF assms(2)] by (auto simp: region_ok_def region_shape_def in_region_def)
  then have idx: "(page_addr q - b_start r) div PGSIZE = of_nat (q - ?s)"
    by (subst region_okD(1) [OF assms(1)]) (simp add: page_addr_diff page_addr_div)
  have "unat (of_nat (q - ?s) :: u64) = q - ?s" using q by (subst unat_of_nat) simp
  then show ?thesis using q unfolding buddy_state_def Let_def idx by (simp add: word_le_nat_alt)
qed

lemma state_byte:
  assumes "region_ok r bs" "in_region r q"
  shows "states r ! (q - addr_page (b_start r)) = bytes bs ! (q - base r)"
proof -
  have "q - base r < blk_pages bs" "addr_page (b_start r) \<le> base r" "base r \<le> q"
    using assms by (auto simp: region_ok_def region_shape_def in_region_def)
  then show ?thesis using assms by (auto simp: region_ok_def nth_append)
qed

lemma state_byte_head:
  assumes "region_ok r bs" "in_region r q" "states r ! (q - addr_page (b_start r)) = head_byte (kd, k)"
    "kd \<noteq> Hole" "k \<le> BUDDY_MAX_ORDER"
  obtains xs ys where "bs = xs @ (kd, k) # ys" "q = base r + blk_pages xs"
proof -
  let ?i = "q - base r"
  have i: "?i < blk_pages bs" "base r \<le> q" using assms by (auto simp: region_ok_def in_region_def)
  have hb: "bytes bs ! ?i = head_byte (kd, k)" using assms state_byte by simp
  then have "bytes bs ! ?i \<noteq> BUDDY_STATE_UNUSED"
    using head_byte_eq(3) [of "(kd, k)" k] assms by (simp add: BUDDY_MAX_ORDER_def)
  then obtain xs b ys where b: "bs = xs @ b # ys" "?i = blk_pages xs" "bytes bs ! ?i = head_byte b"
    by (rule byte_is_head [OF i(1)])
  have "snd b \<le> 18" using block_in_region(4) [of r xs b ys] assms(1) b(1) by (simp add: BUDDY_MAX_ORDER_def)
  then have *: "head_byte b = BUDDY_STATE_FREE OR of_nat k \<longleftrightarrow> b = (Free, k)"
    "head_byte b = BUDDY_STATE_ALLOCATED OR of_nat k \<longleftrightarrow> b = (Alloc, k)"
    using head_byte_eq [of b k] assms(5) unfolding BUDDY_MAX_ORDER_def by blast+
  have "head_byte b = head_byte (kd, k)" using b(3) hb by simp
  then have "b = (kd, k)" using * assms(4) by (cases kd) simp_all
  then show thesis using that b i by simp
qed

lemma bytes_update_head:
  "(bytes (xs @ (kd, k) # ys))[blk_pages xs := head_byte (kd', k)] = bytes (xs @ (kd', k) # ys)"
  by (simp add: list_update_append blk_bytes_def)

lemma region_put_state:
  assumes "region_ok r (xs @ (kd, k) # ys)" "q = base r + blk_pages xs"
  shows "region_ok (r\<lparr>states := (states r)[the (buddy_state r (page_addr q)) := head_byte (kd', k)]\<rparr>)
           (xs @ (kd', k) # ys)"
proof -
  let ?s = "addr_page (b_start r)"
  have "in_region r q" using block_in_region(1) assms by blast
  then have st: "the (buddy_state r (page_addr q)) = (base r - ?s) + blk_pages xs"
    using buddy_state_page [OF assms(1)] assms by (simp add: region_ok_def region_shape_def)
  obtain rest where "states r = replicate (base r - ?s) BUDDY_STATE_UNUSED @ bytes (xs @ (kd, k) # ys) @ rest"
    using assms by (auto simp: region_ok_def)
  then have "(states r)[(base r - ?s) + blk_pages xs := head_byte (kd', k)] =
      replicate (base r - ?s) BUDDY_STATE_UNUSED @ bytes (xs @ (kd', k) # ys) @ rest"
    by (simp add: list_update_append blk_bytes_def)
  then show ?thesis using assms(1) unfolding st by (simp add: region_ok_def region_shape_def)
qed

text \<open>A hole of order \<open>k + 1\<close> is two holes of order \<open>k\<close>, when the first is aligned to both.\<close>

lemma hole_bytes: "blk_bytes (Hole, Suc k) = blk_bytes (Hole, k) @ blk_bytes (Hole, k)"
proof -
  have "blk_bytes (Hole, n) = replicate (2 ^ n) BUDDY_STATE_UNUSED" for n
    using length_blk_bytes [of "(Hole, n)"] by (simp add: blk_bytes_def flip: replicate_Suc)
  then show ?thesis by (simp add: mult_2 replicate_add)
qed

lemma region_split:
  assumes "k < BUDDY_MAX_ORDER" "2 ^ Suc k dvd base r + blk_pages xs"
  shows "region_ok r (xs @ (Hole, Suc k) # ys) \<longleftrightarrow> region_ok r (xs @ (Hole, k) # (Hole, k) # ys)"
proof -
  have "2 ^ k dvd base r + blk_pages xs" using assms(2) by (meson dvd_trans le_imp_power_dvd le_SucI order_refl)
  moreover from this have "2 ^ k dvd base r + blk_pages xs + 2 ^ k" by simp
  ultimately show ?thesis using assms unfolding region_ok_def by (simp add: hole_bytes add.assoc mult_2)
qed

end
