(* ===== verification/Buddy_Inv.thy ===== *)
theory Buddy_Inv
  imports Buddy
begin

text \<open>
  Correctness of the buddy allocator. \<open>buddy_rep al bss\<close> says that the allocator's bytes, lists
  and counts are those of the tilings \<open>bss\<close>, one per region; each step of an operation is a local
  change of one tiling. \<open>buddy_inv\<close> is the invariant between operations: no holes, siblings
  merged, and \<open>free_pages\<close> the number of free pages.
\<close>

subsection \<open>The representation relation\<close>

definition free_list :: "buddy_allocator \<Rightarrow> blk list list \<Rightarrow> nat \<Rightarrow> nat multiset" where
  "free_list al bss k = (\<Sum>i<length bss. heads Free (base (regions al ! i)) (bss ! i) k)"

definition areas_ok :: "buddy_allocator \<Rightarrow> blk list list \<Rightarrow> bool" where
  "areas_ok al bss \<longleftrightarrow>
     length (areas al) = BUDDY_MAX_ORDER + 1 \<and>
     (\<forall>k\<le>BUDDY_MAX_ORDER. mset (blocks (areas al ! k)) = image_mset page_addr (free_list al bss k) \<and>
        area_count (areas al ! k) = of_nat (length (blocks (areas al ! k))))"

definition regions_disjoint :: "buddy_allocator \<Rightarrow> bool" where
  "regions_disjoint al \<longleftrightarrow>
     (\<forall>i<length (regions al). \<forall>j<length (regions al). i \<noteq> j \<longrightarrow>
        b_end (regions al ! i) \<le> b_start (regions al ! j) \<or> b_end (regions al ! j) \<le> b_start (regions al ! i))"

definition regions_ok :: "buddy_allocator \<Rightarrow> blk list list \<Rightarrow> bool" where
  "regions_ok al bss \<longleftrightarrow>
     length bss = length (regions al) \<and> regions_disjoint al \<and>
     (\<forall>i<length bss. region_ok (regions al ! i) (bss ! i))"

definition buddy_rep :: "buddy_allocator \<Rightarrow> blk list list \<Rightarrow> bool" where
  "buddy_rep al bss \<longleftrightarrow> regions_ok al bss \<and> areas_ok al bss"

lemma sum_update:
  fixes f :: "nat \<Rightarrow> 'a \<Rightarrow> 'b :: comm_monoid_add"
  assumes "i < length xs"
  shows "(\<Sum>j<length xs. f j (xs[i := x] ! j)) + f i (xs ! i) = (\<Sum>j<length xs. f j (xs ! j)) + f i x"
proof -
  have "(\<Sum>j<length xs. f j (xs[i := x] ! j)) = f i x + (\<Sum>j\<in>{..<length xs} - {i}. f j (xs ! j))"
    using assms by (subst sum.remove [of _ i]) (auto intro: sum.cong)
  moreover have "(\<Sum>j<length xs. f j (xs ! j)) = f i (xs ! i) + (\<Sum>j\<in>{..<length xs} - {i}. f j (xs ! j))"
    using assms by (subst sum.remove [of _ i]) auto
  ultimately show ?thesis by (simp add: ac_simps)
qed

lemma free_list_update:
  assumes "i < length bss"
  shows "free_list al (bss[i := bs]) k + heads Free (base (regions al ! i)) (bss ! i) k =
         free_list al bss k + heads Free (base (regions al ! i)) bs k"
  using sum_update [OF assms, of "\<lambda>j bs. heads Free (base (regions al ! j)) bs k" bs]
  by (simp add: free_list_def)

lemma nth_update_if: "xs[i := x] ! j = (if i = j \<and> j < length xs then x else xs ! j)"
  by (auto simp: nth_list_update list_update_beyond leI split: if_splits) (metis list_update_beyond not_le nth_list_update_neq)

lemma of_nat_pred: "0 < n \<Longrightarrow> of_nat (n - Suc 0) = (of_nat n - 1 :: 'a :: ring_1)"
  by (cases n) auto

lemma put_state_simps [simp]:
  "areas (put_state al ri a v) = areas al"
  "free_pages (put_state al ri a v) = free_pages al"
  "length (regions (put_state al ri a v)) = length (regions al)"
  "allocatable_start (regions (put_state al ri a v) ! j) = allocatable_start (regions al ! j)"
  "b_start (regions (put_state al ri a v) ! j) = b_start (regions al ! j)"
  "b_end (regions (put_state al ri a v) ! j) = b_end (regions al ! j)"
  "state_count (regions (put_state al ri a v) ! j) = state_count (regions al ! j)"
  by (simp_all add: put_state_def nth_update_if)

lemma buddy_list_remove_simps [simp]:
  "regions (buddy_list_remove al a k) = regions al"
  "free_pages (buddy_list_remove al a k) = free_pages al"
  by (simp_all add: buddy_list_remove_def)

lemma buddy_list_add_simps [simp]:
  "free_pages (buddy_list_add al ri a k) = free_pages al"
  "length (regions (buddy_list_add al ri a k)) = length (regions al)"
  "allocatable_start (regions (buddy_list_add al ri a k) ! j) = allocatable_start (regions al ! j)"
  "b_start (regions (buddy_list_add al ri a k) ! j) = b_start (regions al ! j)"
  "b_end (regions (buddy_list_add al ri a k) ! j) = b_end (regions al ! j)"
  by (simp_all add: buddy_list_add_def)

lemma free_list_put_state [simp]: "free_list (put_state al ri a v) bss k = free_list al bss k"
  by (simp add: free_list_def)

text \<open>Storing the head byte of another kind changes the kind of the block in the tiling.\<close>

lemma regions_put_state:
  assumes "regions_ok al bss" "i < length bss" "bss ! i = xs @ (kd, k) # ys"
    "q = base (regions al ! i) + blk_pages xs"
  shows "regions_ok (put_state al i (page_addr q) (head_byte (kd', k))) (bss[i := xs @ (kd', k) # ys])"
proof -
  let ?al = "put_state al i (page_addr q) (head_byte (kd', k))"
  have "region_ok (regions ?al ! j) (bss[i := xs @ (kd', k) # ys] ! j)" if "j < length bss" for j
  proof (cases "j = i")
    case True
    have "region_ok (regions al ! i) (xs @ (kd, k) # ys)" using assms by (auto simp: regions_ok_def)
    then show ?thesis
      using region_put_state [of "regions al ! i" xs kd k ys q kd'] assms True
      by (simp add: put_state_def regions_ok_def)
  next
    case False
    then show ?thesis using assms that by (simp add: put_state_def regions_ok_def)
  qed
  then show ?thesis using assms by (simp add: regions_ok_def regions_disjoint_def)
qed

lemma areas_cong:
  assumes "areas_ok al bss" "areas al' = areas al" "\<And>k. free_list al' bss' k = free_list al bss k"
  shows "areas_ok al' bss'"
  using assms by (simp add: areas_ok_def)

text \<open>The four local steps: mark a block, take a free block off its list, give a hole to a list,
  and cut a hole into its two halves or join them.\<close>

lemma rep_mark:
  assumes "buddy_rep al bss" "i < length bss" "bss ! i = xs @ (kd, k) # ys"
    "q = base (regions al ! i) + blk_pages xs" "kd \<noteq> Free" "kd' \<noteq> Free"
  shows "buddy_rep (put_state al i (page_addr q) (head_byte (kd', k))) (bss[i := xs @ (kd', k) # ys])"
proof -
  have "free_list al (bss[i := xs @ (kd', k) # ys]) j = free_list al bss j" for j
    using free_list_update [OF assms(2), of al "xs @ (kd', k) # ys" j] assms by simp
  then have "areas_ok (put_state al i (page_addr q) (head_byte (kd', k))) (bss[i := xs @ (kd', k) # ys])"
    using assms(1) by - (rule areas_cong [of al bss], simp_all add: buddy_rep_def)
  moreover have "regions_ok al bss" using assms(1) by (simp add: buddy_rep_def)
  ultimately show ?thesis using regions_put_state [OF _ assms(2-4)] by (simp add: buddy_rep_def)
qed

lemma rep_take:
  assumes rep: "buddy_rep al bss" and i: "i < length bss" and b: "bss ! i = xs @ (Free, k) # ys"
    and q: "q = base (regions al ! i) + blk_pages xs" and k: "k \<le> BUDDY_MAX_ORDER"
  shows "buddy_rep (put_state (buddy_list_remove al (page_addr q) k) i (page_addr q) BUDDY_STATE_UNUSED)
           (bss[i := xs @ (Hole, k) # ys])"
proof -
  let ?al = "buddy_list_remove al (page_addr q) k" and ?bss = "bss[i := xs @ (Hole, k) # ys]"
  have fl: "free_list ?al ?bss j + (if j = k then {#q#} else {#}) = free_list al bss j" for j
    using free_list_update [OF i, of al "xs @ (Hole, k) # ys" j] b q
    by (auto simp: free_list_def)
  have ar: "areas_ok al bss" using rep by (simp add: buddy_rep_def)
  have "q \<in># free_list al bss k" by (simp flip: fl)
  moreover have "mset (blocks (areas al ! k)) = image_mset page_addr (free_list al bss k)"
    using ar k by (simp add: areas_ok_def)
  ultimately have mem: "page_addr q \<in> set (blocks (areas al ! k))"
    by (simp flip: set_mset_mset)
  then have len: "0 < length (blocks (areas al ! k))" by (cases "blocks (areas al ! k)") auto
  have "areas_ok ?al ?bss"
    unfolding areas_ok_def
  proof (intro conjI allI impI)
    show "length (areas ?al) = BUDDY_MAX_ORDER + 1" using ar by (simp add: areas_ok_def buddy_list_remove_def)
    fix j assume j: "j \<le> BUDDY_MAX_ORDER"
    show "mset (blocks (areas ?al ! j)) = image_mset page_addr (free_list ?al ?bss j)"
      using fl [of j, symmetric] ar j k by (auto simp: areas_ok_def buddy_list_remove_def nth_list_update)
    show "area_count (areas ?al ! j) = of_nat (length (blocks (areas ?al ! j)))"
      using ar j k mem len
      by (auto simp: areas_ok_def buddy_list_remove_def nth_list_update length_remove1 of_nat_pred)
  qed
  then have "areas_ok (put_state ?al i (page_addr q) BUDDY_STATE_UNUSED) ?bss"
    by (rule areas_cong) auto
  moreover have "regions_ok (put_state ?al i (page_addr q) BUDDY_STATE_UNUSED) ?bss"
    using regions_put_state [of ?al bss i xs Free k ys q Hole] rep i b q
    by (simp add: buddy_rep_def regions_ok_def regions_disjoint_def)
  ultimately show ?thesis by (simp add: buddy_rep_def)
qed

lemma rep_give:
  assumes rep: "buddy_rep al bss" and i: "i < length bss" and b: "bss ! i = xs @ (Hole, k) # ys"
    and q: "q = base (regions al ! i) + blk_pages xs" and k: "k \<le> BUDDY_MAX_ORDER"
  shows "buddy_rep (buddy_list_add al i (page_addr q) k) (bss[i := xs @ (Free, k) # ys])"
proof -
  let ?al = "al\<lparr>areas := (areas al)[k := \<lparr>blocks = page_addr q # blocks (areas al ! k),
                                             area_count = area_count (areas al ! k) + 1\<rparr>]\<rparr>"
  let ?bss = "bss[i := xs @ (Free, k) # ys]"
  have fl: "free_list ?al ?bss j = free_list al bss j + (if j = k then {#q#} else {#})" for j
    using free_list_update [OF i, of al "xs @ (Free, k) # ys" j] b q
    by (auto simp: free_list_def)
  have ar: "areas_ok al bss" using rep by (simp add: buddy_rep_def)
  have "areas_ok ?al ?bss"
    unfolding areas_ok_def
  proof (intro conjI allI impI)
    show "length (areas ?al) = BUDDY_MAX_ORDER + 1" using ar by (simp add: areas_ok_def)
    fix j assume j: "j \<le> BUDDY_MAX_ORDER"
    show "mset (blocks (areas ?al ! j)) = image_mset page_addr (free_list ?al ?bss j)"
      using fl [of j] ar j k by (auto simp: areas_ok_def nth_list_update)
    show "area_count (areas ?al ! j) = of_nat (length (blocks (areas ?al ! j)))"
      using ar j k by (auto simp: areas_ok_def nth_list_update)
  qed
  then have "areas_ok (buddy_list_add al i (page_addr q) k) ?bss"
    by (rule areas_cong) (auto simp: buddy_list_add_def)
  moreover have "regions_ok (buddy_list_add al i (page_addr q) k) ?bss"
    using regions_put_state [of ?al bss i xs Hole k ys q Free] rep i b q
    by (simp add: buddy_rep_def regions_ok_def regions_disjoint_def buddy_list_add_def)
  ultimately show ?thesis by (simp add: buddy_rep_def)
qed

lemma heads_hole_halves:
  "heads Free p ((Hole, Suc k) # ys) j = heads Free p ((Hole, k) # (Hole, k) # ys) j"
  by (simp add: add.assoc mult_2)

lemma rep_halves:
  assumes "i < length bss" "k < BUDDY_MAX_ORDER" "2 ^ Suc k dvd base (regions al ! i) + blk_pages xs"
  shows "buddy_rep al (bss[i := xs @ (Hole, Suc k) # ys]) \<longleftrightarrow>
         buddy_rep al (bss[i := xs @ (Hole, k) # (Hole, k) # ys])"
proof -
  have "free_list al (bss[i := xs @ (Hole, Suc k) # ys]) j =
        free_list al (bss[i := xs @ (Hole, k) # (Hole, k) # ys]) j" for j
    using free_list_update [OF assms(1), of al "xs @ (Hole, Suc k) # ys" j]
      free_list_update [OF assms(1), of al "xs @ (Hole, k) # (Hole, k) # ys" j]
    by (metis (no_types, lifting) add_right_cancel heads_append heads_hole_halves)
  then have "areas_ok al (bss[i := xs @ (Hole, Suc k) # ys]) \<longleftrightarrow>
        areas_ok al (bss[i := xs @ (Hole, k) # (Hole, k) # ys])"
    by (simp add: areas_ok_def)
  moreover have "regions_ok al (bss[i := xs @ (Hole, Suc k) # ys]) \<longleftrightarrow>
        regions_ok al (bss[i := xs @ (Hole, k) # (Hole, k) # ys])"
    using region_split [OF assms(2,3), of ys] assms(1) by (auto simp: regions_ok_def nth_list_update)
  ultimately show ?thesis by (simp add: buddy_rep_def)
qed

subsection \<open>Reading the representation\<close>

lemma order_pages_le: "k \<le> BUDDY_MAX_ORDER \<Longrightarrow> (2::nat) ^ k < max_page"
  using power_increasing [of k 18 "2::nat"] by (simp add: BUDDY_MAX_ORDER_def)

lemma buddy_block_fits_page:
  assumes r: "region_ok r bs" and p: "p < max_page" and k: "k \<le> BUDDY_MAX_ORDER"
  shows "buddy_block_fits r (page_addr p) k \<longleftrightarrow> base r \<le> p \<and> 2 ^ k dvd p \<and> p + 2 ^ k \<le> addr_page (b_end r)"
proof -
  note a = region_okD(3) [OF r] and e = region_okD(2) [OF r]
  have k18: "k \<le> 18" using k by (simp add: BUDDY_MAX_ORDER_def)
  have al: "page_addr p mod PGSIZE = 0" using page_aligned_page_addr [OF p] .
  have lo: "page_addr p < allocatable_start r \<longleftrightarrow> p < base r"
    by (subst a) (simp add: page_addr_less p)
  have hi: "page_addr p \<le> b_end r \<longleftrightarrow> p \<le> addr_page (b_end r)"
    by (subst e) (simp add: page_addr_le p)
  have sz: "buddy_order_size k \<le> b_end r - page_addr p \<longleftrightarrow> 2 ^ k \<le> addr_page (b_end r) - p"
    if "p \<le> addr_page (b_end r)"
  proof -
    have "b_end r - page_addr p = page_addr (addr_page (b_end r) - p)"
      by (subst e) (simp add: page_addr_diff that)
    then show ?thesis unfolding buddy_order_size_page
      using order_pages_le [OF k] by (simp add: page_addr_le less_imp_diff_less)
  qed
  show ?thesis
    unfolding buddy_block_fits_def Let_def page_addr_mod_order [OF p k18] lo hi
    using k al sz by auto
qed

text \<open>What \<^verbatim>\<open>buddy_allocated\<close> and the merge loop test: is there a block of that kind and order at the page?\<close>

lemma head_test:
  assumes r: "region_ok r bs" and p: "p < max_page" and k: "k \<le> BUDDY_MAX_ORDER" and kd: "kd \<noteq> Hole"
  shows "(buddy_block_fits r (page_addr p) k \<and>
          (case buddy_state r (page_addr p) of None \<Rightarrow> False | Some j \<Rightarrow> states r ! j = head_byte (kd, k))) \<longleftrightarrow>
         p \<in># heads kd (base r) bs k"
proof
  assume L: "buddy_block_fits r (page_addr p) k \<and>
     (case buddy_state r (page_addr p) of None \<Rightarrow> False | Some j \<Rightarrow> states r ! j = head_byte (kd, k))"
  have "(0::nat) < 2 ^ k" by simp
  then have inr: "in_region r p"
    using L unfolding buddy_block_fits_page [OF r p k] in_region_def by linarith
  have "states r ! (p - addr_page (b_start r)) = head_byte (kd, k)"
    using L by (simp add: buddy_state_page [OF r inr])
  then show "p \<in># heads kd (base r) bs k"
    using state_byte_head [OF r inr _ kd k] unfolding in_heads by metis
next
  assume "p \<in># heads kd (base r) bs k"
  then obtain xs ys where b: "bs = xs @ (kd, k) # ys" "p = base r + blk_pages xs"
    unfolding in_heads by blast
  note bl = block_in_region [OF r [unfolded b(1)], folded b(2)]
  have inr: "in_region r p" by (fact bl(1))
  have "bytes bs ! (p - base r) = head_byte (kd, k)"
    by (simp add: b nth_append blk_bytes_def)
  then show "buddy_block_fits r (page_addr p) k \<and>
     (case buddy_state r (page_addr p) of None \<Rightarrow> False | Some j \<Rightarrow> states r ! j = head_byte (kd, k))"
    using bl inr unfolding buddy_block_fits_page [OF r p k] buddy_state_page [OF r inr]
    by (simp add: state_byte [OF r inr] in_region_def)
qed

lemma find_region:
  assumes "regions_ok al bss" "i < length bss" "addr_page (b_start (regions al ! i)) \<le> q"
    "q < addr_page (b_end (regions al ! i))"
  shows "buddy_find_region al (page_addr q) = Some i"
proof -
  let ?r = "\<lambda>j. regions al ! j"
  have q: "q < max_page" using assms(4) addr_page_less order_less_trans by blast
  have ok: "region_ok (?r j) (bss ! j)" if "j < length bss" for j using assms that by (simp add: regions_ok_def)
  have in_iff: "(b_start (?r j) \<le> page_addr q \<and> page_addr q < b_end (?r j)) \<longleftrightarrow>
      addr_page (b_start (?r j)) \<le> q \<and> q < addr_page (b_end (?r j))" if "j < length bss" for j
    by (subst region_okD(1) [OF ok [OF that]], subst region_okD(2) [OF ok [OF that]])
      (simp add: page_addr_le page_addr_less q)
  have "scan (\<lambda>i. b_start (?r i) \<le> page_addr q \<and> page_addr q < b_end (?r i)) 0 (length (regions al)) = i"
  proof (rule scan_eqI)
    fix j assume j: "0 \<le> j" "j < i"
    then have jl: "j < length bss" using assms(2) by simp
    have "b_end (?r i) \<le> b_start (?r j) \<or> b_end (?r j) \<le> b_start (?r i)"
      using assms(1,2) jl j unfolding regions_ok_def regions_disjoint_def by (metis less_irrefl)
    then show "\<not> (b_start (?r j) \<le> page_addr q \<and> page_addr q < b_end (?r j))"
      using in_iff [OF assms(2)] assms(3,4) by auto
  qed (use assms in_iff [OF assms(2)] in \<open>auto simp: regions_ok_def\<close>)
  then show ?thesis using assms by (simp add: buddy_find_region_def Let_def regions_ok_def)
qed

lemma find_region_block:
  assumes "regions_ok al bss" "i < length bss" "q \<in># heads kd (base (regions al ! i)) (bss ! i) k"
  shows "buddy_find_region al (page_addr q) = Some i" "in_region (regions al ! i) q" "k \<le> BUDDY_MAX_ORDER"
proof -
  have r: "region_ok (regions al ! i) (bss ! i)" using assms by (simp add: regions_ok_def)
  obtain xs ys where b: "bss ! i = xs @ (kd, k) # ys" "q = base (regions al ! i) + blk_pages xs"
    using assms(3) unfolding in_heads by blast
  note bl = block_in_region [OF r [unfolded b(1)], folded b(2)]
  show "in_region (regions al ! i) q" "k \<le> BUDDY_MAX_ORDER" using bl by simp_all
  then show "buddy_find_region al (page_addr q) = Some i"
    using r by (intro find_region [OF assms(1,2)]) (auto simp: in_region_def region_ok_def region_shape_def)
qed

text \<open>The allocated blocks, as the client sees them.\<close>

lemma buddy_allocated_iff:
  assumes "regions_ok al bss"
  shows "buddy_allocated al a k \<longleftrightarrow>
    (\<exists>i<length bss. \<exists>q. a = page_addr q \<and> q \<in># heads Alloc (base (regions al ! i)) (bss ! i) k)"
proof
  assume L: "buddy_allocated al a k"
  then obtain i where i: "buddy_find_region al a = Some i" and k: "k \<le> BUDDY_MAX_ORDER"
    and al: "a mod PGSIZE = 0"
    by (auto simp: buddy_allocated_def split: if_splits option.splits)
  from i have il: "i < length bss" using assms
    by (auto simp: buddy_find_region_def Let_def regions_ok_def split: if_splits)
  have r: "region_ok (regions al ! i) (bss ! i)" using assms il by (simp add: regions_ok_def)
  have a: "page_addr (addr_page a) = a" using al by (rule page_addr_addr_page)
  have "addr_page a \<in># heads Alloc (base (regions al ! i)) (bss ! i) k"
    using L i k al head_test [OF r addr_page_less k, of Alloc a] unfolding a
    by (auto simp: buddy_allocated_def split: if_splits option.splits)
  then show "\<exists>i<length bss. \<exists>q. a = page_addr q \<and> q \<in># heads Alloc (base (regions al ! i)) (bss ! i) k"
    using a il by metis
next
  assume "\<exists>i<length bss. \<exists>q. a = page_addr q \<and> q \<in># heads Alloc (base (regions al ! i)) (bss ! i) k"
  then obtain i q where i: "i < length bss" and a: "a = page_addr q"
    and q: "q \<in># heads Alloc (base (regions al ! i)) (bss ! i) k" by blast
  note fr = find_region_block [OF assms i q]
  have r: "region_ok (regions al ! i) (bss ! i)" using assms i by (simp add: regions_ok_def)
  have "q < max_page" using fr(2) by (rule in_region_less)
  then show "buddy_allocated al a k"
    using fr head_test [OF r \<open>q < max_page\<close> fr(3), of Alloc] q a page_aligned_page_addr [of q]
    by (auto simp: buddy_allocated_def split: option.splits)
qed

subsection \<open>Coalescing\<close>

text \<open>Two adjacent blocks are free siblings when they are halves of an aligned block of the next order;
  a tiling is coalesced when it has none.\<close>

definition siblings :: "nat \<Rightarrow> blk \<Rightarrow> blk \<Rightarrow> bool" where
  "siblings p b b' \<longleftrightarrow> b = b' \<and> fst b = Free \<and> snd b < BUDDY_MAX_ORDER \<and> 2 ^ Suc (snd b) dvd p"

fun coalesced :: "nat \<Rightarrow> blk list \<Rightarrow> bool" where
  "coalesced p (b # b' # bs) = (\<not> siblings p b b' \<and> coalesced (p + 2 ^ snd b) (b' # bs))"
| "coalesced p bs = True"

lemma coalesced_Cons: "coalesced p (b # ys) \<longleftrightarrow> coalesced (p + 2 ^ snd b) ys \<and> (ys = [] \<or> \<not> siblings p b (hd ys))"
  by (cases ys) auto

lemma coalesced_snoc:
  "coalesced p (xs @ [b]) \<longleftrightarrow> coalesced p xs \<and> (xs = [] \<or> \<not> siblings (p + blk_pages (butlast xs)) (last xs) b)"
proof (induction xs arbitrary: p)
  case (Cons x xs)
  show ?case
    by (cases xs) (use Cons.IH [of "p + 2 ^ snd x"] in \<open>auto simp: add.assoc\<close>)
qed simp

lemma coalesced_append: "coalesced p (xs @ b # ys) \<longleftrightarrow> coalesced p (xs @ [b]) \<and> coalesced (p + blk_pages xs) (b # ys)"
proof (induction xs arbitrary: p)
  case (Cons x xs)
  show ?case
    by (cases xs) (use Cons.IH [of "p + 2 ^ snd x"] in \<open>auto simp: add.assoc\<close>)
qed simp

lemma heads_range: "x \<in># heads kd p bs k \<Longrightarrow> p \<le> x \<and> x + 2 ^ k \<le> p + blk_pages bs"
  by (induction bs arbitrary: p) (force split: if_splits)+

lemma heads_first: "p \<in># heads kd p bs k \<Longrightarrow> \<exists>ys. bs = (kd, k) # ys"
  by (cases bs) (auto dest: heads_range split: if_splits)

lemma heads_last:
  assumes "x \<in># heads kd p bs k" "x + 2 ^ k = p + blk_pages bs"
  shows "\<exists>xs. bs = xs @ [(kd, k)] \<and> x = p + blk_pages xs"
proof -
  obtain xs ys where b: "bs = xs @ (kd, k) # ys" "x = p + blk_pages xs" using assms(1) in_heads by metis
  then have "blk_pages ys = 0" using assms(2) by simp
  then have "ys = []" by (cases ys) auto
  then show ?thesis using b by blast
qed

text \<open>The block next to a hole at the place of its sibling.\<close>

lemma sibling_in_tiling:
  assumes q: "q = p + blk_pages xs" "2 ^ c dvd q" and s: "q XOR 2 ^ c \<in># heads Free p (xs @ (Hole, c) # ys) c"
  obtains (right) vs where "ys = (Free, c) # vs" "2 ^ Suc c dvd q" "q XOR 2 ^ c = q + 2 ^ c"
  | (left) us where "xs = us @ [(Free, c)]" "2 ^ Suc c dvd q - 2 ^ c" "q XOR 2 ^ c = q - 2 ^ c"
      "q - 2 ^ c = p + blk_pages us" "2 ^ c \<le> q"
proof -
  have mem: "q XOR 2 ^ c \<in># heads Free p xs c \<or> q XOR 2 ^ c \<in># heads Free (q + 2 ^ c) ys c"
    using s q by (simp add: add.assoc)
  have lt: "\<And>x. x \<in># heads Free p xs c \<Longrightarrow> x + 2 ^ c \<le> q" and ge: "\<And>x. x \<in># heads Free (q + 2 ^ c) ys c \<Longrightarrow> q + 2 ^ c \<le> x"
    using heads_range q by blast+
  have pos: "0 < (2::nat) ^ c" by simp
  from q(2) show thesis
  proof (rule sibling_cases)
    assume r: "2 ^ Suc c dvd q" "q XOR 2 ^ c = q + 2 ^ c"
    then have "q + 2 ^ c \<in># heads Free (q + 2 ^ c) ys c" using mem lt [of "q + 2 ^ c"] pos by auto
    then show thesis using right r heads_first by metis
  next
    assume l: "2 ^ c \<le> q" "2 ^ Suc c dvd q - 2 ^ c" "q XOR 2 ^ c = q - 2 ^ c"
    then have "q - 2 ^ c \<in># heads Free p xs c" 
      using mem ge [of "q - 2 ^ c"] pos by (metis add_lessD1 diff_le_self leD le_add1 less_add_same_cancel1 order_trans)
    then obtain us where "xs = us @ [(Free, c)]" "q - 2 ^ c = p + blk_pages us"
      using heads_last [of "q - 2 ^ c" Free p xs c] l(1) q(1) by auto
    then show thesis using left l by blast
  qed
qed

lemma coalesced_close:
  assumes q: "q = p + blk_pages xs" and c: "coalesced p xs" "coalesced (q + 2 ^ c) ys"
    and s: "c \<ge> BUDDY_MAX_ORDER \<or> q XOR 2 ^ c \<notin># heads Free p (xs @ (Hole, c) # ys) c"
    and d: "2 ^ c dvd q"
  shows "coalesced p (xs @ (Free, c) # ys)"
proof -
  have "\<not> siblings (p + blk_pages (butlast xs)) (last xs) (Free, c)" if ne: "xs \<noteq> []"
  proof
    assume sb: "siblings (p + blk_pages (butlast xs)) (last xs) (Free, c)"
    define us where "us = butlast xs"
    have xs: "xs = us @ [(Free, c)]" using sb ne append_butlast_last_id [OF ne] by (simp add: siblings_def us_def)
    then have q': "q = p + blk_pages us + 2 ^ c" using q by simp
    have dv: "2 ^ Suc c dvd p + blk_pages us" using sb us_def by (auto simp: siblings_def)
    have "q XOR 2 ^ c = p + blk_pages us"
    proof (rule sibling_cases [OF d])
      assume "2 ^ Suc c dvd q"
      then have "2 ^ Suc c dvd (2::nat) ^ c" using dv q' by (metis dvd_add_right_iff)
      then show ?thesis by (simp add: power_dvd_imp_le)
    qed (use q' in simp)
    then show False using s sb xs by (auto simp: siblings_def)
  qed
  moreover have "\<not> siblings q (Free, c) (hd ys)" if ne: "ys \<noteq> []"
  proof
    assume sb: "siblings q (Free, c) (hd ys)"
    then obtain zs where ys: "ys = (Free, c) # zs" using ne by (auto simp: siblings_def neq_Nil_conv)
    have "q XOR 2 ^ c = q + 2 ^ c"
    proof (rule sibling_cases [OF d])
      assume l: "2 ^ c \<le> q" "2 ^ Suc c dvd q - 2 ^ c"
      have "2 ^ Suc c dvd q" using sb by (simp add: siblings_def)
      then have "2 ^ Suc c dvd (2::nat) ^ c" using l by (metis dvd_diffD1)
      then show ?thesis by (simp add: power_dvd_imp_le)
    qed
    then show False using s sb q by (auto simp: siblings_def add.assoc ys)
  qed
  ultimately show ?thesis
    using c q by (subst coalesced_append) (auto simp: coalesced_snoc coalesced_Cons)
qed

subsection \<open>The loops\<close>

text \<open>What no operation changes of the regions.\<close>

definition geometry :: "buddy_allocator \<Rightarrow> (u64 \<times> u64 \<times> u64) list" where
  "geometry al = map (\<lambda>r. (b_start r, b_end r, allocatable_start r)) (regions al)"

lemma geometry_steps [simp]:
  "geometry (put_state al ri a v) = geometry al"
  "geometry (buddy_list_remove al a k) = geometry al"
  "geometry (buddy_list_add al ri a k) = geometry al"
  by (simp_all add: geometry_def list_eq_iff_nth_eq)

lemma geometry_eqD:
  assumes "geometry al' = geometry al"
  shows "length (regions al') = length (regions al)"
    and "i < length (regions al) \<Longrightarrow> allocatable_start (regions al' ! i) = allocatable_start (regions al ! i)"
    and "i < length (regions al) \<Longrightarrow> b_start (regions al' ! i) = b_start (regions al ! i)"
    and "i < length (regions al) \<Longrightarrow> b_end (regions al' ! i) = b_end (regions al ! i)"
  using assms unfolding geometry_def list_eq_iff_nth_eq by auto

lemma buddy_split_rep:
  assumes "buddy_rep al (bss[i := xs @ (Hole, c) # ys])" "i < length bss"
    "q = base (regions al ! i) + blk_pages xs" "order \<le> c" "c \<le> BUDDY_MAX_ORDER"
  shows "buddy_rep (buddy_split al i (page_addr q) c order)
           (bss[i := xs @ (Hole, order) # map (Pair Free) [order..<c] @ ys]) \<and>
         geometry (buddy_split al i (page_addr q) c order) = geometry al \<and>
         free_pages (buddy_split al i (page_addr q) c order) = free_pages al"
  using assms
proof (induction c arbitrary: al ys)
  case 0
  then show ?case by (simp add: buddy_split.simps)
next
  case (Suc c)
  show ?case
  proof (cases "order < Suc c")
    case True
    let ?al = "buddy_list_add al i (page_addr (q + 2 ^ c)) c"
    have "region_ok (regions al ! i) (xs @ (Hole, Suc c) # ys)"
      using Suc.prems by (auto simp: buddy_rep_def regions_ok_def)
    then have "2 ^ Suc c dvd base (regions al ! i) + blk_pages xs" by (auto dest: block_in_region)
    then have "buddy_rep al (bss[i := xs @ (Hole, c) # (Hole, c) # ys])"
      using rep_halves [of i bss c al xs ys] Suc.prems by simp
    then have "buddy_rep ?al (bss[i := xs @ (Hole, c) # (Free, c) # ys])"
      using rep_give [of al "bss[i := xs @ (Hole, c) # (Hole, c) # ys]" i "xs @ [(Hole, c)]" c ys "q + 2 ^ c"]
        Suc.prems by simp
    then have "buddy_rep (buddy_split ?al i (page_addr q) c order)
        (bss[i := xs @ (Hole, order) # map (Pair Free) [order..<c] @ (Free, c) # ys]) \<and>
        geometry (buddy_split ?al i (page_addr q) c order) = geometry ?al \<and>
        free_pages (buddy_split ?al i (page_addr q) c order) = free_pages ?al"
      using Suc.prems True by (intro Suc.IH) simp_all
    moreover have "buddy_split al i (page_addr q) (Suc c) order = buddy_split ?al i (page_addr q) c order"
      using True by (subst buddy_split.simps) (simp add: buddy_order_size_page page_addr_add)
    ultimately show ?thesis using True by simp
  next
    case False
    then have "order = Suc c" using Suc.prems by simp
    then show ?thesis using Suc.prems by (simp add: buddy_split.simps)
  qed
qed

text \<open>The result of the merge loop on a hole of order \<open>c\<close> between \<open>xs\<close> and \<open>ys\<close>.\<close>

definition merged ::
  "buddy_allocator \<Rightarrow> blk list list \<Rightarrow> nat \<Rightarrow> blk list \<Rightarrow> nat \<Rightarrow> blk list \<Rightarrow> buddy_allocator \<times> u64 \<times> nat \<Rightarrow> bool" where
  "merged al bss i xs c ys res \<longleftrightarrow>
     (\<exists>al' xs' c' ys' q'. res = (al', page_addr q', c') \<and>
        buddy_rep al' (bss[i := xs' @ (Hole, c') # ys']) \<and> geometry al' = geometry al \<and>
        free_pages al' = free_pages al \<and> q' = base (regions al ! i) + blk_pages xs' \<and>
        c' \<le> BUDDY_MAX_ORDER \<and> coalesced (base (regions al ! i)) (xs' @ (Free, c') # ys') \<and>
        free_page_sum xs' + free_page_sum ys' + 2 ^ c' = free_page_sum xs + free_page_sum ys + 2 ^ c \<and>
        set xs' \<union> set ys' \<subseteq> set xs \<union> set ys \<and>
        (\<forall>k. heads Alloc (base (regions al ! i)) (xs' @ (Hole, c') # ys') k =
             heads Alloc (base (regions al ! i)) (xs @ (Hole, c) # ys) k))"

lemma merged_step:
  assumes "merged al1 bss i xs1 c1 ys1 res" "geometry al1 = geometry al" "i < length (regions al)"
    "free_pages al1 = free_pages al" "set xs1 \<union> set ys1 \<subseteq> set xs \<union> set ys"
    "free_page_sum xs1 + free_page_sum ys1 + 2 ^ c1 = free_page_sum xs + free_page_sum ys + 2 ^ c"
    "\<And>k. heads Alloc (base (regions al ! i)) (xs1 @ (Hole, c1) # ys1) k =
          heads Alloc (base (regions al ! i)) (xs @ (Hole, c) # ys) k"
  shows "merged al bss i xs c ys res"
proof -
  have b: "base (regions al1 ! i) = base (regions al ! i)" using geometry_eqD(2) [OF assms(2,3)] by simp
  show ?thesis
    using assms(1) unfolding merged_def b assms(2,4,6,7)
    by (elim ex_forward conj_forward) (use assms(5) in \<open>auto\<close>)
qed

lemma merge_test:
  assumes rep: "buddy_rep al (bss[i := xs @ (Hole, c) # ys])" and i: "i < length bss"
    and q: "q = base (regions al ! i) + blk_pages xs" and c: "c < BUDDY_MAX_ORDER"
  shows "buddy_merge al i (page_addr q) c =
    (if q XOR 2 ^ c \<in># heads Free (base (regions al ! i)) (xs @ (Hole, c) # ys) c
     then buddy_merge (put_state (buddy_list_remove al (page_addr (q XOR 2 ^ c)) c) i (page_addr (q XOR 2 ^ c))
                         BUDDY_STATE_UNUSED)
            i (page_addr (if q XOR 2 ^ c < q then q XOR 2 ^ c else q)) (c + 1)
     else (al, page_addr q, c))"
proof -
  let ?r = "regions al ! i" and ?p = "q XOR 2 ^ c"
  have r: "region_ok ?r (xs @ (Hole, c) # ys)" using rep i by (auto simp: buddy_rep_def regions_ok_def)
  have qm: "q < max_page" using block_in_region(1) [OF r] q by simp
  have c18: "c \<le> 18" using c by (simp add: BUDDY_MAX_ORDER_def)
  note px = page_addr_xor [OF qm c18]
  have t: "(buddy_block_fits ?r (page_addr ?p) c \<and>
      (case buddy_state ?r (page_addr ?p) of None \<Rightarrow> False
       | Some j \<Rightarrow> states ?r ! j = BUDDY_STATE_FREE OR of_nat c)) \<longleftrightarrow>
      ?p \<in># heads Free (base ?r) (xs @ (Hole, c) # ys) c"
    using head_test [OF r px(2), of c Free] c unfolding head_byte.simps by simp
  have lt: "page_addr ?p < page_addr q \<longleftrightarrow> ?p < q" using px(2) qm by (simp add: page_addr_less)
  show ?thesis
    by (subst buddy_merge.simps) (use c t lt in \<open>auto simp: px(1) Let_def split: option.splits\<close>)
qed

lemma buddy_merge_merged:
  assumes "buddy_rep al (bss[i := xs @ (Hole, c) # ys])" "i < length bss"
    "q = base (regions al ! i) + blk_pages xs" "c \<le> BUDDY_MAX_ORDER"
    "coalesced (base (regions al ! i)) xs" "coalesced (q + 2 ^ c) ys"
  shows "merged al bss i xs c ys (buddy_merge al i (page_addr q) c)"
  using assms
proof (induction "BUDDY_MAX_ORDER - c" arbitrary: al xs ys q c rule: less_induct)
  case less
  note rep = less.prems(1) and i = less.prems(2) and q = less.prems(3)
  let ?b = "base (regions al ! i)" and ?p = "q XOR 2 ^ c"
  have r: "region_ok (regions al ! i) (xs @ (Hole, c) # ys)"
    using rep i by (auto simp: buddy_rep_def regions_ok_def)
  have il: "i < length (regions al)" using rep i by (simp add: buddy_rep_def regions_ok_def)
  have d: "2 ^ c dvd q" using block_in_region(3) [OF r] q by simp
  show ?case
  proof (cases "c < BUDDY_MAX_ORDER \<and> ?p \<in># heads Free ?b (xs @ (Hole, c) # ys) c")
    case False
    then have "buddy_merge al i (page_addr q) c = (al, page_addr q, c)"
      using merge_test [OF rep i q] by (cases "c < BUDDY_MAX_ORDER") (auto simp: buddy_merge.simps)
    moreover have "coalesced ?b (xs @ (Free, c) # ys)"
      using coalesced_close [OF q less.prems(5,6) _ d] False by force
    ultimately show ?thesis
      unfolding merged_def using rep q less.prems(4) by (intro exI conjI) auto
  next
    case True
    let ?al = "put_state (buddy_list_remove al (page_addr ?p) c) i (page_addr ?p) BUDDY_STATE_UNUSED"
    have m: "buddy_merge al i (page_addr q) c =
        buddy_merge ?al i (page_addr (if ?p < q then ?p else q)) (c + 1)"
      using merge_test [OF rep i q] True by simp
    from True have mem: "?p \<in># heads Free ?b (xs @ (Hole, c) # ys) c" and c: "c < BUDDY_MAX_ORDER" by auto
    from q d mem show ?thesis
    proof (cases rule: sibling_in_tiling)
      case (right vs)
      have "?p = ?b + blk_pages (xs @ [(Hole, c)])" using right q by simp
      then have "buddy_rep ?al ((bss[i := xs @ (Hole, c) # ys])[i := (xs @ [(Hole, c)]) @ (Hole, c) # vs])"
        using i c right(1) by - (rule rep_take [OF rep], simp_all)
      then have "buddy_rep ?al (bss[i := xs @ (Hole, c) # (Hole, c) # vs])" by simp
      then have "buddy_rep ?al (bss[i := xs @ (Hole, c + 1) # vs])"
        using rep_halves [of i bss c ?al xs vs] right q i c by simp
      moreover have "coalesced (q + 2 ^ (c + 1)) vs"
        using less.prems(6) right by (simp add: coalesced_Cons add.assoc mult_2)
      ultimately have "merged ?al bss i xs (c + 1) vs (buddy_merge ?al i (page_addr q) (c + 1))"
        using less.hyps [of "c + 1" ?al xs vs q] less.prems c by simp
      moreover have "buddy_merge al i (page_addr q) c = buddy_merge ?al i (page_addr q) (c + 1)"
        using m right by simp
      ultimately show ?thesis using il right(1)
        by - (rule merged_step [of ?al bss i xs "c + 1" vs], auto simp: add.assoc mult_2)
    next
      case (left us)
      have "?p = ?b + blk_pages us" using left by simp
      then have "buddy_rep ?al ((bss[i := xs @ (Hole, c) # ys])[i := us @ (Hole, c) # (Hole, c) # ys])"
        using i c left(1) by - (rule rep_take [OF rep], simp_all)
      then have "buddy_rep ?al (bss[i := us @ (Hole, c) # (Hole, c) # ys])" by simp
      then have "buddy_rep ?al (bss[i := us @ (Hole, c + 1) # ys])"
        using rep_halves [of i bss c ?al us ys] left i c by simp
      moreover have "coalesced ?b us" using less.prems(5) left(1) by (simp add: coalesced_snoc)
      moreover have "?p + 2 ^ (c + 1) = q + 2 ^ c" using left(3,5) by simp
      then have "coalesced (?p + 2 ^ (c + 1)) ys" using less.prems(6) by (simp only:)
      ultimately have "merged ?al bss i us (c + 1) ys (buddy_merge ?al i (page_addr ?p) (c + 1))"
        using less.hyps [of "c + 1" ?al us ys ?p] less.prems c left by simp
      moreover have "0 < (2::nat) ^ c" by simp
      then have "?p < q" using left(3,5) by linarith
      then have "buddy_merge al i (page_addr q) c = buddy_merge ?al i (page_addr ?p) (c + 1)"
        by (simp only: m if_True)
      ultimately show ?thesis using il left(1)
        by - (rule merged_step [of ?al bss i us "c + 1" ys], auto simp: add.assoc mult_2)
    qed
  qed
qed

subsection \<open>The invariant\<close>

definition hole_free :: "blk list \<Rightarrow> bool" where
  "hole_free bs \<longleftrightarrow> (\<forall>b\<in>set bs. fst b \<noteq> Hole)"

definition settled :: "buddy_allocator \<Rightarrow> blk list list \<Rightarrow> bool" where
  "settled al bss \<longleftrightarrow>
     buddy_rep al bss \<and> (\<forall>i<length bss. hole_free (bss ! i) \<and> coalesced (base (regions al ! i)) (bss ! i)) \<and>
     unat (free_pages al) = (\<Sum>i<length bss. free_page_sum (bss ! i))"

definition buddy_inv :: "buddy_allocator \<Rightarrow> bool" where
  "buddy_inv al \<longleftrightarrow> (\<exists>bss. settled al bss)"

lemma total_pages_le:
  assumes "regions_ok al bss"
  shows "(\<Sum>i<length bss. blk_pages (bss ! i)) \<le> max_page"
proof -
  let ?I = "\<lambda>i. {base (regions al ! i)..<addr_page (b_end (regions al ! i))}"
  have r: "region_ok (regions al ! i) (bss ! i)" if "i < length bss" for i
    using assms that by (simp add: regions_ok_def)
  have sz: "blk_pages (bss ! i) = card (?I i)" if "i < length bss" for i
    using r [OF that] by (auto simp: region_ok_def)
  have "?I i \<inter> ?I j = {}" if "i < length bss" "j < length bss" "i \<noteq> j" for i j
  proof -
    have "b_end (regions al ! i) \<le> b_start (regions al ! j) \<or> b_end (regions al ! j) \<le> b_start (regions al ! i)"
      using assms that unfolding regions_ok_def regions_disjoint_def by metis
    then have "addr_page (b_end (regions al ! i)) \<le> addr_page (b_start (regions al ! j)) \<or>
        addr_page (b_end (regions al ! j)) \<le> addr_page (b_start (regions al ! i))"
      by (auto simp: addr_page_def word_le_nat_alt div_le_mono)
    then show ?thesis using r [OF that(1)] r [OF that(2)] by (auto simp: region_ok_def region_shape_def)
  qed
  then have "(\<Sum>i<length bss. card (?I i)) = card (\<Union>i\<in>{..<length bss}. ?I i)"
    by (intro card_UN_disjoint [symmetric]) auto
  also have "\<dots> \<le> card {..<max_page}"
    by (intro card_mono) (auto intro: order_less_trans [OF _ addr_page_less])
  finally show ?thesis using sz by simp
qed

lemma free_sum_less:
  assumes "regions_ok al bss"
  shows "(\<Sum>i<length bss. free_page_sum (bss ! i)) \<le> max_page"
  using sum_mono [of "{..<length bss}" "\<lambda>i. free_page_sum (bss ! i)" "\<lambda>i. blk_pages (bss ! i)"]
    free_page_sum_le total_pages_le [OF assms] by fastforce

text \<open>A list is empty exactly when its count is zero: its elements are distinct pages.\<close>

lemma area_count_zero:
  assumes "areas_ok al bss" "regions_ok al bss" "k \<le> BUDDY_MAX_ORDER"
  shows "area_count (areas al ! k) = 0 \<longleftrightarrow> blocks (areas al ! k) = []"
proof -
  have le: "size (heads Free p bs k) \<le> blk_pages bs" for p bs
    by (induction bs arbitrary: p) (auto simp: add_mono)
  have "length (blocks (areas al ! k)) = size (free_list al bss k)"
    using assms by (metis areas_ok_def size_image_mset size_mset)
  also have "\<dots> = (\<Sum>i<length bss. size (heads Free (base (regions al ! i)) (bss ! i) k))"
    unfolding free_list_def by (induction "length bss") auto
  also have "\<dots> \<le> (\<Sum>i<length bss. blk_pages (bss ! i))" by (intro sum_mono le)
  also have "\<dots> \<le> max_page" using assms by (intro total_pages_le)
  finally have "unat (of_nat (length (blocks (areas al ! k))) :: u64) = length (blocks (areas al ! k))"
    by (subst unat_of_nat) simp
  moreover have "area_count (areas al ! k) = of_nat (length (blocks (areas al ! k)))"
    using assms by (simp add: areas_ok_def)
  ultimately have "unat (area_count (areas al ! k)) = length (blocks (areas al ! k))" by (simp only:)
  then show ?thesis by (metis length_0_conv unat_eq_0)
qed

end
