(* ===== verification/Buddy_Ops.thy ===== *)
theory Buddy_Ops
  imports Buddy_Inv
begin

text \<open>
  What the operations of \<^verbatim>\<open>kernel/buddy.c\<close> do to the invariant and to the set of allocated blocks,
  and what a client of the page allocator may rely on.
\<close>

subsection \<open>Allocation and release on tilings\<close>

lemma free_page_sum_ladder: "o' \<le> c \<Longrightarrow> free_page_sum (map (Pair Free) [o'..<c]) + 2 ^ o' = 2 ^ c"
  by (induction c) (auto simp: le_Suc_eq)

lemma coalesced_ladder:
  assumes "o' \<le> c" "2 ^ c dvd q" "coalesced (q + 2 ^ c) ys"
  shows "coalesced (q + 2 ^ o') (map (Pair Free) [o'..<c] @ ys)"
  using assms(1)
proof (induction rule: inc_induct)
  case base
  show ?case using assms by simp
next
  case (step n)
  have "2 ^ Suc n dvd q" using assms(2) step.hyps by (meson Suc_leI dvd_trans le_imp_power_dvd)
  then have "\<not> 2 ^ Suc n dvd q + 2 ^ n" by (simp add: dvd_add_right_iff power_dvd_imp_le)
  then have "\<not> siblings (q + 2 ^ n) (Free, n) b" for b by (simp add: siblings_def)
  moreover have "coalesced (q + 2 ^ n + 2 ^ n) (map (Pair Free) [Suc n..<c] @ ys)"
    using step.IH by (simp add: add.assoc mult_2)
  ultimately show ?case
    using step.hyps by (simp add: upt_conv_Cons coalesced_Cons)
qed

lemma coalesced_mid:
  "coalesced p (xs @ b # ys) \<longleftrightarrow>
     coalesced p xs \<and> (xs = [] \<or> \<not> siblings (p + blk_pages (butlast xs)) (last xs) b) \<and>
     coalesced (p + blk_pages xs + 2 ^ snd b) ys \<and> (ys = [] \<or> \<not> siblings (p + blk_pages xs) b (hd ys))"
  by (subst coalesced_append) (auto simp: coalesced_snoc coalesced_Cons)

lemma coalesced_alloc:
  assumes "coalesced p (xs @ (Free, c) # ys)" "o' \<le> c" "2 ^ c dvd p + blk_pages xs"
  shows "coalesced p (xs @ (Alloc, o') # map (Pair Free) [o'..<c] @ ys)"
  using assms coalesced_ladder [OF assms(2,3), of ys] by (auto simp: coalesced_mid siblings_def)

lemma hole_free_simps [simp]:
  "hole_free []" "hole_free (b # bs) \<longleftrightarrow> fst b \<noteq> Hole \<and> hole_free bs"
  "hole_free (xs @ ys) \<longleftrightarrow> hole_free xs \<and> hole_free ys" "hole_free (map (Pair Free) ks)"
  by (auto simp: hole_free_def)

lemma settledD:
  assumes "settled al bss"
  shows "buddy_rep al bss" "regions_ok al bss" "areas_ok al bss"
    and "i < length bss \<Longrightarrow> hole_free (bss ! i)"
    and "i < length bss \<Longrightarrow> coalesced (base (regions al ! i)) (bss ! i)"
    and "i < length bss \<Longrightarrow> i < length (regions al)"
    and "i < length bss \<Longrightarrow> region_ok (regions al ! i) (bss ! i)"
  using assms by (simp_all add: settled_def buddy_rep_def regions_ok_def)

text \<open>Replacing the tiling of one region by another of the same state.\<close>

lemma settled_update:
  assumes st: "settled al bss" and rep: "buddy_rep al' (bss[i := bs])" and i: "i < length bss"
    and g: "geometry al' = geometry al" and hf: "hole_free bs" and co: "coalesced (base (regions al ! i)) bs"
    and fp: "unat (free_pages al') + free_page_sum (bss ! i) = unat (free_pages al) + free_page_sum bs"
  shows "settled al' (bss[i := bs])"
proof -
  have len: "length bss = length (regions al)" using st by (simp add: settled_def buddy_rep_def regions_ok_def)
  have "(\<Sum>j<length bss. free_page_sum (bss[i := bs] ! j)) + free_page_sum (bss ! i) =
        (\<Sum>j<length bss. free_page_sum (bss ! j)) + free_page_sum bs"
    using sum_update [OF i, of "\<lambda>_. free_page_sum" bs] .
  moreover have "unat (free_pages al) = (\<Sum>j<length bss. free_page_sum (bss ! j))"
    using st by (simp add: settled_def)
  ultimately have "unat (free_pages al') = (\<Sum>j<length bss. free_page_sum (bss[i := bs] ! j))"
    using fp by linarith
  moreover have "hole_free (bss[i := bs] ! j) \<and> coalesced (base (regions al' ! j)) (bss[i := bs] ! j)"
    if "j < length bss" for j
    using st hf co that len geometry_eqD(2) [OF g, of j] by (cases "j = i") (auto simp: settled_def)
  ultimately show ?thesis using rep by (simp add: settled_def)
qed

text \<open>A block on the list of an order is a free block of some region.\<close>

lemma listed_block:
  assumes "buddy_rep al bss" "k \<le> BUDDY_MAX_ORDER" "a \<in> set (blocks (areas al ! k))"
  obtains i xs ys where "i < length bss" "bss ! i = xs @ (Free, k) # ys"
    "a = page_addr (base (regions al ! i) + blk_pages xs)"
proof -
  have "mset (blocks (areas al ! k)) = image_mset page_addr (free_list al bss k)"
    using assms by (simp add: buddy_rep_def areas_ok_def)
  then have "a \<in># image_mset page_addr (free_list al bss k)" using assms(3) by (metis set_mset_mset)
  then obtain i q where "i < length bss" "q \<in># heads Free (base (regions al ! i)) (bss ! i) k" "a = page_addr q"
    by (auto simp: free_list_def set_mset_sum)
  then show thesis using that in_heads by metis
qed

text \<open>The outcome of an allocation, as a change of the tiling.\<close>

definition carved :: "buddy_allocator \<Rightarrow> blk list list \<Rightarrow> nat \<Rightarrow> u64 \<Rightarrow> buddy_allocator \<Rightarrow> bool" where
  "carved al bss order a al' \<longleftrightarrow>
     (\<exists>i xs c ys q. i < length bss \<and> bss ! i = xs @ (Free, c) # ys \<and> q = base (regions al ! i) + blk_pages xs \<and>
        a = page_addr q \<and> order \<le> c \<and> geometry al' = geometry al \<and>
        unat (free_pages al') + 2 ^ order = unat (free_pages al) \<and>
        settled al' (bss[i := xs @ (Alloc, order) # map (Pair Free) [order..<c] @ ys]))"

lemma push_bit_one_unat: "k \<le> BUDDY_MAX_ORDER \<Longrightarrow> unat (push_bit k 1 :: u64) = 2 ^ k"
proof -
  assume k: "k \<le> BUDDY_MAX_ORDER"
  have "push_bit k 1 = (of_nat (2 ^ k) :: u64)" by (simp add: push_bit_eq_mult)
  then show ?thesis using order_pages_le [OF k] by (simp add: unat_of_nat del: of_nat_power)
qed

lemma buddy_alloc_carved:
  assumes st: "settled al bss" and order: "order \<le> BUDDY_MAX_ORDER"
    and c: "c \<le> BUDDY_MAX_ORDER" "order \<le> c" "c = scan (\<lambda>c. area_count (areas al ! c) \<noteq> 0) order (BUDDY_MAX_ORDER + 1)"
  shows "\<exists>a al'. buddy_alloc al order = (Some a, al') \<and> carved al bss order a al'"
proof -
  note rep = settledD(1) [OF st] and ro = settledD(2) [OF st] and ao = settledD(3) [OF st]
  have "area_count (areas al ! c) \<noteq> 0"
    using scan_hit [of "\<lambda>c. area_count (areas al ! c) \<noteq> 0" order "BUDDY_MAX_ORDER + 1"] c by simp
  then have ne: "blocks (areas al ! c) \<noteq> []" using area_count_zero [OF ao ro c(1)] by simp
  obtain i xs ys where i: "i < length bss" and b: "bss ! i = xs @ (Free, c) # ys"
    and a: "hd (blocks (areas al ! c)) = page_addr (base (regions al ! i) + blk_pages xs)"
    using listed_block [OF rep c(1) hd_in_set [OF ne]] by metis
  define q where "q = base (regions al ! i) + blk_pages xs"
  define bs where "bs = xs @ (Alloc, order) # map (Pair Free) [order..<c] @ ys"
  have r: "region_ok (regions al ! i) (xs @ (Free, c) # ys)" using ro i b by (auto simp: regions_ok_def)
  have "q \<in># heads Free (base (regions al ! i)) (bss ! i) c" unfolding in_heads using b q_def by blast
  then have fr: "buddy_find_region al (page_addr q) = Some i" by (rule find_region_block(1) [OF ro i])
  define al1 where "al1 = put_state (buddy_list_remove al (page_addr q) c) i (page_addr q) BUDDY_STATE_UNUSED"
  define al2 where "al2 = buddy_split al1 i (page_addr q) c order"
  define al3 where "al3 = put_state al2 i (page_addr q) (BUDDY_STATE_ALLOCATED OR of_nat order)"
  have "buddy_rep al1 (bss[i := xs @ (Hole, c) # ys])"
    unfolding al1_def by (rule rep_take [OF rep i b q_def c(1)])
  then have s2: "buddy_rep al2 (bss[i := xs @ (Hole, order) # map (Pair Free) [order..<c] @ ys])"
    "geometry al2 = geometry al1" "free_pages al2 = free_pages al1"
    using buddy_split_rep [of al1 bss i xs c ys q order] i c q_def by (simp_all add: al1_def al2_def)
  then have g: "geometry al2 = geometry al" and fp: "free_pages al2 = free_pages al" by (simp_all add: al1_def)
  have "i < length (regions al)" using ro i by (simp add: regions_ok_def)
  then have "q = base (regions al2 ! i) + blk_pages xs" using geometry_eqD(2) [OF g] q_def by simp
  then have r3: "buddy_rep al3 (bss[i := bs])"
    using rep_mark [OF s2(1), of i xs Hole order "map (Pair Free) [order..<c] @ ys" q Alloc] i
    by (simp add: al3_def bs_def)
  let ?al = "al3\<lparr>free_pages := free_pages al3 - push_bit order 1\<rparr>"
  have rep': "buddy_rep ?al (bss[i := bs])"
    using r3 by (simp add: buddy_rep_def regions_ok_def regions_disjoint_def areas_ok_def free_list_def)
  have "2 ^ c \<le> free_page_sum (bss ! i)" using b by simp
  also have "\<dots> \<le> unat (free_pages al)"
    using st i member_le_sum [of i "{..<length bss}" "\<lambda>i. free_page_sum (bss ! i)"] by (simp add: settled_def)
  finally have "2 ^ c \<le> unat (free_pages al)" .
  moreover have "(2::nat) ^ order \<le> 2 ^ c" by (rule power_increasing) (use c in auto)
  ultimately have le: "2 ^ order \<le> unat (free_pages al)" by (rule order_trans [rotated])
  then have "push_bit order 1 \<le> free_pages al" unfolding word_le_nat_alt push_bit_one_unat [OF order] .
  from unat_sub [OF this] have fpu: "unat (free_pages ?al) + 2 ^ order = unat (free_pages al)"
    using fp le push_bit_one_unat [OF order] by (simp add: al3_def)
  have "settled ?al (bss[i := bs])"
  proof (rule settled_update [OF st rep' i])
    show "geometry ?al = geometry al" using g by (simp add: geometry_def al3_def list_eq_iff_nth_eq)
    show "hole_free bs" using settledD(4) [OF st i] b by (simp add: bs_def)
    show "coalesced (base (regions al ! i)) bs"
      using settledD(5) [OF st i] b block_in_region(3) [OF r] c(2) unfolding bs_def
      by (intro coalesced_alloc) simp_all
    show "unat (free_pages ?al) + free_page_sum (bss ! i) = unat (free_pages al) + free_page_sum bs"
      using fpu free_page_sum_ladder [OF c(2)] b by (simp add: bs_def)
  qed
  moreover have "buddy_alloc al order = (Some (page_addr q), ?al)"
    using order c fr a unfolding buddy_alloc_def al3_def al2_def al1_def q_def by (simp add: Let_def)
  moreover have "geometry ?al = geometry al" using g by (simp add: geometry_def al3_def list_eq_iff_nth_eq)
  ultimately show ?thesis
    unfolding carved_def using i b q_def c(2) fpu bs_def by blast
qed

text \<open>The outcome of a release.\<close>

definition returned :: "buddy_allocator \<Rightarrow> blk list list \<Rightarrow> nat \<Rightarrow> nat \<Rightarrow> nat \<Rightarrow> buddy_allocator \<Rightarrow> bool" where
  "returned al bss i q k al' \<longleftrightarrow>
     (\<exists>bs. settled al' (bss[i := bs]) \<and> geometry al' = geometry al \<and>
        unat (free_pages al') = unat (free_pages al) + 2 ^ k \<and>
        (\<forall>j. heads Alloc (base (regions al ! i)) bs j + (if j = k then {#q#} else {#}) =
             heads Alloc (base (regions al ! i)) (bss ! i) j))"

lemma free_pages_room:
  assumes st: "settled al bss" and i: "i < length bss" and b: "bss ! i = xs @ (Alloc, k) # ys"
    and k: "k \<le> BUDDY_MAX_ORDER"
  shows "unat (free_pages al + push_bit k 1) = unat (free_pages al) + 2 ^ k"
proof -
  let ?bs = "xs @ (Free, k) # ys"
  have "(\<Sum>j<length bss. free_page_sum (bss[i := ?bs] ! j)) + free_page_sum (bss ! i) =
        (\<Sum>j<length bss. free_page_sum (bss ! j)) + free_page_sum ?bs"
    using sum_update [OF i, of "\<lambda>_. free_page_sum" ?bs] .
  then have 1: "(\<Sum>j<length bss. free_page_sum (bss[i := ?bs] ! j)) = unat (free_pages al) + 2 ^ k"
    using st b by (simp add: settled_def)
  have "(\<Sum>j<length bss. free_page_sum (bss[i := ?bs] ! j)) \<le> (\<Sum>j<length bss. blk_pages (bss ! j))"
  proof (rule sum_mono)
    fix j
    show "free_page_sum (bss[i := ?bs] ! j) \<le> blk_pages (bss ! j)"
      using free_page_sum_le [of ?bs] free_page_sum_le [of "bss ! j"] b i by (cases "j = i") simp_all
  qed
  then have "unat (free_pages al) + 2 ^ k \<le> max_page"
    using total_pages_le [OF settledD(2) [OF st]] unfolding 1 by (rule order_trans)
  then show ?thesis
    using unat_add_no_overflow [of "free_pages al" "push_bit k 1"] push_bit_one_unat [OF k]
    by (simp add: unat_add_lem [THEN iffD1])
qed

lemma buddy_free_returned:
  assumes st: "settled al bss" and i: "i < length bss" and b: "bss ! i = xs @ (Alloc, k) # ys"
    and q: "q = base (regions al ! i) + blk_pages xs"
  shows "\<exists>al'. buddy_free al (page_addr q) k = (0, al') \<and> returned al bss i q k al'"
proof -
  let ?b = "base (regions al ! i)"
  note rep = settledD(1) [OF st] and ro = settledD(2) [OF st]
  have r: "region_ok (regions al ! i) (xs @ (Alloc, k) # ys)" using settledD(7) [OF st i] b by simp
  note k = block_in_region(4) [OF r, simplified]
  have mem: "q \<in># heads Alloc ?b (bss ! i) k" unfolding in_heads using b q by blast
  then have fr: "buddy_find_region al (page_addr q) = Some i" by (rule find_region_block(1) [OF ro i])
  have alloc: "buddy_allocated al (page_addr q) k" using buddy_allocated_iff [OF ro] mem i by blast
  define al1 where "al1 = put_state al i (page_addr q) BUDDY_STATE_UNUSED"
  have r1: "buddy_rep al1 (bss[i := xs @ (Hole, k) # ys])"
    using rep_mark [OF rep i b q, of Hole] by (simp add: al1_def)
  have co: "coalesced ?b xs" "coalesced (q + 2 ^ k) ys"
    using settledD(5) [OF st i] unfolding b coalesced_mid q by simp_all
  have "merged al1 bss i xs k ys (buddy_merge al1 i (page_addr q) k)"
    by (rule buddy_merge_merged [OF r1 i]) (use q k co in \<open>simp_all add: al1_def\<close>)
  then obtain al2 xs' c ys' q' where m: "buddy_merge al1 i (page_addr q) k = (al2, page_addr q', c)"
    "buddy_rep al2 (bss[i := xs' @ (Hole, c) # ys'])" "geometry al2 = geometry al" "free_pages al2 = free_pages al"
    "q' = ?b + blk_pages xs'" "c \<le> BUDDY_MAX_ORDER" "coalesced ?b (xs' @ (Free, c) # ys')"
    "free_page_sum xs' + free_page_sum ys' + 2 ^ c = free_page_sum xs + free_page_sum ys + 2 ^ k"
    "set xs' \<union> set ys' \<subseteq> set xs \<union> set ys"
    and hd: "\<And>j. heads Alloc ?b (xs' @ (Hole, c) # ys') j = heads Alloc ?b (xs @ (Hole, k) # ys) j"
    unfolding merged_def by (auto simp: al1_def)
  define bs where "bs = xs' @ (Free, c) # ys'"
  define al3 where "al3 = buddy_list_add al2 i (page_addr q') c"
  have "q' = base (regions al2 ! i) + blk_pages xs'"
    using m(5) geometry_eqD(2) [OF m(3) settledD(6) [OF st i]] by simp
  then have r3: "buddy_rep al3 (bss[i := bs])"
    using rep_give [OF m(2), of i xs' c ys' q'] i m(6) by (simp add: al3_def bs_def)
  let ?al = "al3\<lparr>free_pages := free_pages al3 + push_bit k 1\<rparr>"
  have rep': "buddy_rep ?al (bss[i := bs])"
    using r3 by (simp add: buddy_rep_def regions_ok_def regions_disjoint_def areas_ok_def free_list_def)
  have g: "geometry ?al = geometry al" using m(3) by (simp add: geometry_def al3_def list_eq_iff_nth_eq)
  have fp: "unat (free_pages ?al) = unat (free_pages al) + 2 ^ k"
    using free_pages_room [OF st i b k] m(4) by (simp add: al3_def)
  have "settled ?al (bss[i := bs])"
  proof (rule settled_update [OF st rep' i g])
    show "hole_free bs" using settledD(4) [OF st i] b m(9) unfolding bs_def hole_free_def by auto
    show "unat (free_pages ?al) + free_page_sum (bss ! i) = unat (free_pages al) + free_page_sum bs"
      using fp m(8) b by (simp add: bs_def)
  qed (use m(7) bs_def in simp)
  moreover have "heads Alloc ?b bs j + (if j = k then {#q#} else {#}) = heads Alloc ?b (bss ! i) j" for j
    using hd [of j] b q by (simp add: bs_def)
  moreover have "buddy_free al (page_addr q) k = (0, ?al)"
    using alloc fr m(1) by (simp add: buddy_free_def al1_def al3_def Let_def)
  ultimately show ?thesis unfolding returned_def using g fp by blast
qed

subsection \<open>Allocated blocks\<close>

text \<open>The pages of a block, and that two blocks of a tiling do not meet.\<close>

definition block_pages :: "u64 \<Rightarrow> nat \<Rightarrow> nat set" where
  "block_pages a k = {addr_page a..<addr_page a + 2 ^ k}"

lemma heads_disjoint:
  assumes "x \<in># heads kd p bs k" "y \<in># heads kd' p bs k'" "(x, kd, k) \<noteq> (y, kd', k')"
  shows "x + 2 ^ k \<le> y \<or> y + 2 ^ k' \<le> x"
  using assms
proof (induction bs arbitrary: p)
  case (Cons b bs)
  consider "b = (kd, k)" "x = p" "b = (kd', k')" "y = p"
    | "b = (kd, k)" "x = p" "y \<in># heads kd' (p + 2 ^ snd b) bs k'"
    | "x \<in># heads kd (p + 2 ^ snd b) bs k" "b = (kd', k')" "y = p"
    | "x \<in># heads kd (p + 2 ^ snd b) bs k" "y \<in># heads kd' (p + 2 ^ snd b) bs k'"
    using Cons.prems(1,2) by (auto split: if_splits)
  then show ?case
    using Cons.IH Cons.prems(3) by cases (auto dest: heads_range)
qed simp

lemma heads_in_region:
  assumes "regions_ok al bss" "i < length bss" "x \<in># heads kd (base (regions al ! i)) (bss ! i) k"
  shows "addr_page (b_start (regions al ! i)) \<le> x" "x + 2 ^ k \<le> addr_page (b_end (regions al ! i))"
proof -
  have r: "region_ok (regions al ! i) (bss ! i)" using assms by (simp add: regions_ok_def)
  then show "addr_page (b_start (regions al ! i)) \<le> x" "x + 2 ^ k \<le> addr_page (b_end (regions al ! i))"
    using heads_range [OF assms(3)] by (auto simp: region_ok_def region_shape_def)
qed

lemma blocks_apart:
  assumes ro: "regions_ok al bss" and i: "i < length bss" and j: "j < length bss"
    and x: "x \<in># heads kd (base (regions al ! i)) (bss ! i) k"
    and y: "y \<in># heads kd' (base (regions al ! j)) (bss ! j) k'"
    and ne: "(x, kd, k) \<noteq> (y, kd', k')"
  shows "x + 2 ^ k \<le> y \<or> y + 2 ^ k' \<le> x"
proof (cases "i = j")
  case True
  then show ?thesis using heads_disjoint x y ne by metis
next
  case False
  have "b_end (regions al ! i) \<le> b_start (regions al ! j) \<or> b_end (regions al ! j) \<le> b_start (regions al ! i)"
    using ro i j False unfolding regions_ok_def regions_disjoint_def by metis
  then have "addr_page (b_end (regions al ! i)) \<le> addr_page (b_start (regions al ! j)) \<or>
      addr_page (b_end (regions al ! j)) \<le> addr_page (b_start (regions al ! i))"
    by (auto simp: addr_page_def word_le_nat_alt div_le_mono)
  then show ?thesis using heads_in_region [OF ro i x] heads_in_region [OF ro j y] by auto
qed

lemma head_page: "regions_ok al bss \<Longrightarrow> i < length bss \<Longrightarrow> x \<in># heads kd (base (regions al ! i)) (bss ! i) k \<Longrightarrow>
    addr_page (page_addr x) = x"
  using find_region_block(2) in_region_less addr_page_page_addr by blast

lemma allocated_heads:
  assumes "settled al bss" "buddy_allocated al a k"
  obtains i where "i < length bss" "a = page_addr (addr_page a)"
    "addr_page a \<in># heads Alloc (base (regions al ! i)) (bss ! i) k"
  using assms buddy_allocated_iff [OF settledD(2) [OF assms(1)]] head_page [OF settledD(2) [OF assms(1)]] by metis

lemma allocated_apart:
  assumes "buddy_inv al" "buddy_allocated al a k" "buddy_allocated al a' k'" "(a, k) \<noteq> (a', k')"
  shows "block_pages a k \<inter> block_pages a' k' = {}"
proof -
  obtain bss where st: "settled al bss" using assms(1) by (auto simp: buddy_inv_def)
  obtain i where i: "i < length bss" "a = page_addr (addr_page a)"
    "addr_page a \<in># heads Alloc (base (regions al ! i)) (bss ! i) k"
    using allocated_heads [OF st assms(2)] .
  obtain j where j: "j < length bss" "a' = page_addr (addr_page a')"
    "addr_page a' \<in># heads Alloc (base (regions al ! j)) (bss ! j) k'"
    using allocated_heads [OF st assms(3)] .
  have "(addr_page a, Alloc, k) \<noteq> (addr_page a', Alloc, k')" using i(2) j(2) assms(4) by auto
  then show ?thesis
    using blocks_apart [OF settledD(2) [OF st] i(1) j(1) i(3) j(3)] by (auto simp: block_pages_def)
qed

lemma heads_count_le: "count (heads kd p bs k) x \<le> 1"
proof (induction bs arbitrary: p)
  case (Cons b bs)
  have "count (heads kd (p + 2 ^ snd b) bs k) p = 0"
    using heads_range [of p kd "p + 2 ^ snd b" bs k] by (force simp: count_eq_zero_iff)
  then show ?case using Cons.IH [of "p + 2 ^ snd b"] by auto
qed simp

text \<open>How a changed tiling of one region changes the allocated blocks.\<close>

lemma ex_split_index: "i < n \<Longrightarrow> (\<exists>j<n. P j) \<longleftrightarrow> (\<exists>j<n. j \<noteq> i \<and> P j) \<or> P i" for n :: nat
  by blast

definition holds_block :: "buddy_allocator \<Rightarrow> nat \<Rightarrow> blk list \<Rightarrow> u64 \<Rightarrow> nat \<Rightarrow> bool" where
  "holds_block al i bs a k \<longleftrightarrow> (\<exists>q. a = page_addr q \<and> q \<in># heads Alloc (base (regions al ! i)) bs k)"

lemma allocated_split:
  assumes st: "settled al bss" and i: "i < length bss"
  shows "buddy_allocated al a k \<longleftrightarrow>
    (\<exists>j<length bss. j \<noteq> i \<and> holds_block al j (bss ! j) a k) \<or> holds_block al i (bss ! i) a k"
  unfolding buddy_allocated_iff [OF settledD(2) [OF st]] holds_block_def by (rule ex_split_index [OF i])

lemma allocated_update:
  assumes st: "settled al bss" and st': "settled al' (bss[i := bs])" and i: "i < length bss"
    and g: "geometry al' = geometry al"
  shows "buddy_allocated al' a k \<longleftrightarrow>
    (\<exists>j<length bss. j \<noteq> i \<and> holds_block al j (bss ! j) a k) \<or> holds_block al i bs a k"
proof -
  have *: "holds_block al' j xs a k = holds_block al j xs a k" if "j < length bss" for j xs
    using geometry_eqD(2) [OF g settledD(6) [OF st that]] by (simp add: holds_block_def)
  have "(\<exists>j<length bss. j \<noteq> i \<and> holds_block al' j (bss[i := bs] ! j) a k) \<longleftrightarrow>
        (\<exists>j<length bss. j \<noteq> i \<and> holds_block al j (bss ! j) a k)"
    using * by (metis nth_list_update_neq)
  then show ?thesis
    using allocated_split [OF st', of i a k] * [OF i, of bs] i by simp
qed

lemma heads_ladder [simp]: "heads Alloc p (map (Pair Free) ks) k = {#}"
  by (induction ks arbitrary: p) auto

lemma blk_pages_ladder: "o' \<le> c \<Longrightarrow> 2 ^ o' + blk_pages (map (Pair Free) [o'..<c]) = 2 ^ c"
  by (induction c) (auto simp: le_Suc_eq)

lemma carved_allocated:
  assumes st: "settled al bss" and c: "carved al bss order a al'"
  shows "buddy_allocated al' a' k \<longleftrightarrow> (a' = a \<and> k = order) \<or> buddy_allocated al a' k"
    and "a mod buddy_order_size order = 0" and "buddy_contains al a" and "order \<le> BUDDY_MAX_ORDER"
    and "buddy_allocated al a' k \<Longrightarrow> block_pages a' k \<inter> block_pages a order = {}"
proof -
  obtain i xs c ys q where i: "i < length bss" and b: "bss ! i = xs @ (Free, c) # ys"
    and q: "q = base (regions al ! i) + blk_pages xs" and a: "a = page_addr q" and oc: "order \<le> c"
    and g: "geometry al' = geometry al"
    and st': "settled al' (bss[i := xs @ (Alloc, order) # map (Pair Free) [order..<c] @ ys])"
    using c unfolding carved_def by blast
  have "heads Alloc p (xs @ (Alloc, order) # map (Pair Free) [order..<c] @ ys) k =
      heads Alloc p (xs @ (Free, c) # ys) k + (if k = order then {#p + blk_pages xs#} else {#})" for p k
    using blk_pages_ladder [OF oc] by (simp add: add.assoc)
  then show "buddy_allocated al' a' k \<longleftrightarrow> (a' = a \<and> k = order) \<or> buddy_allocated al a' k"
    unfolding allocated_update [OF st st' i g] allocated_split [OF st i] b holds_block_def using a q by auto
  have r: "region_ok (regions al ! i) (xs @ (Free, c) # ys)" using settledD(7) [OF st i] b by simp
  have qm: "q < max_page" and inr: "in_region (regions al ! i) q" using block_in_region(1) [OF r] q by auto
  have c18: "c \<le> BUDDY_MAX_ORDER" using block_in_region(4) [OF r] by simp
  then show "order \<le> BUDDY_MAX_ORDER" using oc by simp
  have "2 ^ order dvd q" using block_in_region(3) [OF r] q oc by (auto intro: dvd_trans le_imp_power_dvd)
  then show "a mod buddy_order_size order = 0"
    using page_addr_mod_order [OF qm, of order] a oc c18 by (simp add: BUDDY_MAX_ORDER_def)
  have mem: "q \<in># heads Free (base (regions al ! i)) (bss ! i) c" unfolding in_heads using b q by blast
  note fr = find_region_block [OF settledD(2) [OF st] i mem]
  have "allocatable_start (regions al ! i) \<le> page_addr q"
    by (subst region_okD(3) [OF r]) (use inr qm in \<open>simp add: page_addr_le in_region_def\<close>)
  then show "buddy_contains al a"
    using fr(1) a page_aligned_page_addr [OF qm] by (simp add: buddy_contains_def)
  assume "buddy_allocated al a' k"
  then obtain j where j: "j < length bss" "a' = page_addr (addr_page a')"
    "addr_page a' \<in># heads Alloc (base (regions al ! j)) (bss ! j) k"
    using allocated_heads [OF st] by metis
  have "addr_page a' + 2 ^ k \<le> q \<or> q + 2 ^ c \<le> addr_page a'"
    by (rule blocks_apart [OF settledD(2) [OF st] j(1) i j(3) mem]) simp
  moreover have "(2::nat) ^ order \<le> 2 ^ c" by (rule power_increasing) (use oc in auto)
  ultimately have "addr_page a' + 2 ^ k \<le> q \<or> q + 2 ^ order \<le> addr_page a'" by linarith
  then show "block_pages a' k \<inter> block_pages a order = {}" using qm a by (auto simp: block_pages_def)
qed

lemma returned_allocated:
  assumes st: "settled al bss" and i: "i < length bss" and mem: "q \<in># heads Alloc (base (regions al ! i)) (bss ! i) k"
    and ret: "returned al bss i q k al'"
  shows "buddy_allocated al' a' j \<longleftrightarrow> buddy_allocated al a' j \<and> (a', j) \<noteq> (page_addr q, k)"
proof -
  obtain bs where st': "settled al' (bss[i := bs])" and g: "geometry al' = geometry al"
    and h: "\<And>j. heads Alloc (base (regions al ! i)) bs j + (if j = k then {#q#} else {#}) =
               heads Alloc (base (regions al ! i)) (bss ! i) j"
    using ret unfolding returned_def by blast
  let ?b = "base (regions al ! i)"
  have sub: "x \<in># heads Alloc ?b (bss ! i) j \<longleftrightarrow> x \<in># heads Alloc ?b bs j \<or> (x = q \<and> j = k)" for x j
    unfolding h [symmetric] by auto
  have q: "q \<notin># heads Alloc ?b bs k"
  proof
    assume "q \<in># heads Alloc ?b bs k"
    then have "2 \<le> count (heads Alloc ?b (bss ! i) k) q" unfolding h [symmetric] by (simp add: Suc_le_eq)
    then show False using heads_count_le [of Alloc ?b "bss ! i" k q] by simp
  qed
  have inj: "x = q" if "page_addr x = page_addr q" "l < length bss"
    "x \<in># heads Alloc (base (regions al ! l)) (bss ! l) j" for x l j
    using head_page [OF settledD(2) [OF st] that(2,3)] head_page [OF settledD(2) [OF st] i mem] that(1) by metis
  have other: "\<not> holds_block al l (bss ! l) (page_addr q) j" if "l < length bss" "l \<noteq> i" for l j
  proof
    assume "holds_block al l (bss ! l) (page_addr q) j"
    then obtain x where x: "page_addr q = page_addr x" "x \<in># heads Alloc (base (regions al ! l)) (bss ! l) j"
      unfolding holds_block_def by blast
    show False
      using find_region_block(1) [OF settledD(2) [OF st] that(1) x(2)]
        find_region_block(1) [OF settledD(2) [OF st] i mem] x(1) that(2) by simp
  qed
  have "holds_block al i bs a' j \<longleftrightarrow> holds_block al i (bss ! i) a' j \<and> (a', j) \<noteq> (page_addr q, k)"
  proof
    assume "holds_block al i bs a' j"
    then obtain x where x: "a' = page_addr x" "x \<in># heads Alloc ?b bs j" unfolding holds_block_def by blast
    then have "x \<in># heads Alloc ?b (bss ! i) j" using sub by blast
    then show "holds_block al i (bss ! i) a' j \<and> (a', j) \<noteq> (page_addr q, k)"
      using x q inj [OF _ i, of x] unfolding holds_block_def by auto
  next
    assume "holds_block al i (bss ! i) a' j \<and> (a', j) \<noteq> (page_addr q, k)"
    then show "holds_block al i bs a' j" unfolding holds_block_def sub by blast
  qed
  then show ?thesis
    unfolding allocated_update [OF st st' i g] allocated_split [OF st i] using other by blast
qed

subsection \<open>When allocation fails\<close>

text \<open>Every page of a tiling lies in one block.\<close>

lemma page_in_block:
  assumes "p \<le> q" "q < p + blk_pages bs"
  obtains x kd k where "x \<in># heads kd p bs k" "x \<le> q" "q < x + 2 ^ k"
  using assms
proof (induction bs arbitrary: p thesis)
  case (Cons b bs)
  show ?case
  proof (cases "q < p + 2 ^ snd b")
    case True
    then show ?thesis using Cons.prems(1) [of p "fst b" "snd b"] Cons.prems(2) by simp
  next
    case False
    then have "p + 2 ^ snd b \<le> q" "q < p + 2 ^ snd b + blk_pages bs" using Cons.prems(3) by simp_all
    then show ?thesis using Cons.IH [of "p + 2 ^ snd b"] Cons.prems(1) by (metis heads.simps(2) union_iff)
  qed
qed simp

lemma heads_tiled: "tiled p bs \<Longrightarrow> x \<in># heads kd p bs k \<Longrightarrow> 2 ^ k dvd x \<and> k \<le> BUDDY_MAX_ORDER"
  by (induction bs arbitrary: p) (auto split: if_splits)

lemma heads_hole_free: "hole_free bs \<Longrightarrow> x \<in># heads kd p bs k \<Longrightarrow> kd \<noteq> Hole"
  by (induction bs arbitrary: p) (auto split: if_splits)

lemma coalesced_siblings:
  assumes "coalesced p bs" "q \<in># heads Free p bs k" "q + 2 ^ k \<in># heads Free p bs k" "2 ^ Suc k dvd q"
  shows "\<not> k < BUDDY_MAX_ORDER"
proof
  assume k: "k < BUDDY_MAX_ORDER"
  obtain xs ys where b: "bs = xs @ (Free, k) # ys" "q = p + blk_pages xs" using assms(2) in_heads by metis
  have "q + 2 ^ k \<notin># heads Free p xs k" using heads_range [of "q + 2 ^ k" Free p xs k] b(2) by auto
  then have "q + 2 ^ k \<in># heads Free (q + 2 ^ k) ys k" using assms(3) b by (auto simp: add.assoc)
  then obtain zs where "ys = (Free, k) # zs" using heads_first by metis
  then show False using assms(1,4) k b by (auto simp: coalesced_mid siblings_def)
qed

lemma aligned_block_covers:
  assumes "2 ^ j dvd x" "2 ^ k dvd (q::nat)" "k \<le> j" "x \<le> q" "q < x + 2 ^ j"
  shows "q + 2 ^ k \<le> x + 2 ^ j"
proof -
  obtain m where m: "x = 2 ^ k * m" using assms(1,3) by (meson dvd_def dvd_trans le_imp_power_dvd)
  obtain n where n: "q = 2 ^ k * n" using assms(2) by auto
  obtain d where d: "(2::nat) ^ j = 2 ^ k * d" using assms(3) le_imp_power_dvd [of k j "2::nat"] by (auto elim: dvdE)
  have "2 ^ k * n < 2 ^ k * (m + d)" using assms(5) by (simp add: m n d algebra_simps)
  then have "n + 1 \<le> m + d" by simp
  then have "2 ^ k * (n + 1) \<le> 2 ^ k * (m + d)" by (rule mult_le_mono2)
  then show ?thesis by (simp add: m n d algebra_simps)
qed

text \<open>In a coalesced tiling an aligned run of pages that no allocated block meets lies in one free block:
  external fragmentation never hides a block that could be handed out.\<close>

lemma free_run_in_block:
  assumes t: "tiled p bs" and hf: "hole_free bs" and co: "coalesced p bs"
    and "k \<le> BUDDY_MAX_ORDER" "2 ^ k dvd q" "p \<le> q" "q + 2 ^ k \<le> p + blk_pages bs"
    and "\<And>x j. x \<in># heads Alloc p bs j \<Longrightarrow> x + 2 ^ j \<le> q \<or> q + 2 ^ k \<le> x"
  shows "\<exists>x j. x \<in># heads Free p bs j \<and> k \<le> j \<and> x \<le> q \<and> q + 2 ^ k \<le> x + 2 ^ j"
  using assms(4-)
proof (induction k arbitrary: q)
  case 0
  have "q < p + blk_pages bs" using 0 by simp
  then obtain x kd k where x: "x \<in># heads kd p bs k" "x \<le> q" "q < x + 2 ^ k"
    using page_in_block [OF \<open>p \<le> q\<close>] by metis
  have "kd \<noteq> Hole" using heads_hole_free [OF hf x(1)] .
  moreover have "kd \<noteq> Alloc" using 0(5) [of x k] x by auto
  ultimately have "kd = Free" by (cases kd) auto
  then show ?case using x by force
next
  case (Suc k)
  have dv: "2 ^ k dvd q" "2 ^ k dvd q + 2 ^ k" using Suc.prems(2) by (auto intro: dvd_trans [of _ "2 ^ Suc k"])
  have al: "x + 2 ^ j \<le> q \<or> q + 2 ^ k + 2 ^ k \<le> x" if "x \<in># heads Alloc p bs j" for x j
    using Suc.prems(5) [OF that] by (simp add: add.assoc mult_2)
  have k: "k \<le> BUDDY_MAX_ORDER" and e: "q + 2 ^ k + 2 ^ k \<le> p + blk_pages bs"
    using Suc.prems(1,4) by (simp_all add: add.assoc mult_2)
  have "\<exists>x j. x \<in># heads Free p bs j \<and> k \<le> j \<and> x \<le> q \<and> q + 2 ^ k \<le> x + 2 ^ j"
    by (rule Suc.IH [OF k dv(1) Suc.prems(3)]) (use e al in force)+
  then obtain x j where x: "x \<in># heads Free p bs j" "k \<le> j" "x \<le> q" "q + 2 ^ k \<le> x + 2 ^ j" by blast
  have "\<exists>x j. x \<in># heads Free p bs j \<and> k \<le> j \<and> x \<le> q + 2 ^ k \<and> q + 2 ^ k + 2 ^ k \<le> x + 2 ^ j"
    by (rule Suc.IH [OF k dv(2) _ e]) (use Suc.prems(3) al in force)+
  then obtain y l where y: "y \<in># heads Free p bs l" "k \<le> l" "y \<le> q + 2 ^ k" "q + 2 ^ k + 2 ^ k \<le> y + 2 ^ l"
    by blast
  have pos: "0 < (2::nat) ^ k" by simp
  show ?case
  proof (cases "j = k")
    case False
    then have "Suc k \<le> j" using x by simp
    moreover have "q < x + 2 ^ j" using x(4) pos by linarith
    ultimately have "q + 2 ^ Suc k \<le> x + 2 ^ j"
      using aligned_block_covers heads_tiled [OF t x(1)] Suc.prems(2) x(3) by blast
    then show ?thesis using x \<open>Suc k \<le> j\<close> by blast
  next
    case True
    then have xq: "x = q" using x by simp
    have lk: "l = k"
    proof (rule ccontr)
      assume l: "l \<noteq> k"
      then have "2 ^ Suc k dvd (2::nat) ^ l" using y(2) by (intro le_imp_power_dvd) simp
      then have "2 ^ Suc k dvd y" using heads_tiled [OF t y(1)] by (metis dvd_trans)
      moreover have "\<not> 2 ^ Suc k dvd q + 2 ^ k" using Suc.prems(2) by (simp add: dvd_add_right_iff power_dvd_imp_le)
      ultimately have "y \<noteq> q + 2 ^ k" by metis
      then have "y < q + 2 ^ k" using y(3) by simp
      then have "y + 2 ^ l \<le> q" using heads_disjoint [OF x(1) y(1)] xq True l by auto
      then show False using y(4) pos by linarith
    qed
    then have ly: "l = k \<and> y = q + 2 ^ k" using y by simp
    then have "\<not> k < BUDDY_MAX_ORDER"
      using coalesced_siblings [OF co, of q k] x(1) y(1) xq True Suc.prems(2) by simp
    then show ?thesis using Suc.prems(1) by simp
  qed
qed

end
