(* ===== verification/Buddy_Region.thy ===== *)
theory Buddy_Region
  imports Buddy_Ops
begin

text \<open>
  \<^verbatim>\<open>buddy_add_region\<close>: the greedy cut of a new region into blocks ends, tiles the region and leaves no
  two free siblings.
\<close>

subsection \<open>The order of the next block\<close>

lemma dvd_double_iff: "2 ^ k dvd q \<Longrightarrow> 2 ^ Suc k dvd q \<longleftrightarrow> \<not> bit q k" for q :: nat
proof -
  assume "2 ^ k dvd q"
  then obtain m where "q = 2 ^ k * m" by auto
  then show ?thesis by (simp add: bit_iff_odd)
qed

lemma largest_order_loop:
  assumes "2 ^ k dvd q" "2 ^ k \<le> n" "k \<le> BUDDY_MAX_ORDER" "q < max_page" "n < max_page"
    "r = buddy_largest_order_loop (of_nat q) (of_nat n) k"
  shows "2 ^ r dvd q \<and> 2 ^ r \<le> n \<and> r \<le> BUDDY_MAX_ORDER \<and>
         (r < BUDDY_MAX_ORDER \<longrightarrow> 2 ^ Suc r dvd q \<longrightarrow> n < 2 ^ Suc r)"
  using assms
proof (induction "BUDDY_MAX_ORDER - k" arbitrary: k rule: less_induct)
  case less
  have bit: "(of_nat q :: u64) AND push_bit k 1 = 0 \<longleftrightarrow> \<not> bit q k" if "k < BUDDY_MAX_ORDER"
    using that bit_iff_and_push_bit_not_eq_0 [of "of_nat q :: u64" k]
    by (auto simp: bit_simps BUDDY_MAX_ORDER_def)
  have un: "unat (of_nat n :: u64) = n" using less.prems(5) by (subst unat_of_nat) simp
  have le: "push_bit (k + 1) 1 \<le> (of_nat n :: u64) \<longleftrightarrow> 2 ^ Suc k \<le> n" if "k < BUDDY_MAX_ORDER"
    using push_bit_one_unat [of "k + 1"] that un by (simp add: word_le_nat_alt)
  show ?case
  proof (cases "k < BUDDY_MAX_ORDER \<and> 2 ^ Suc k dvd q \<and> 2 ^ Suc k \<le> n")
    case True
    then have "r = buddy_largest_order_loop (of_nat q) (of_nat n) (Suc k)"
      using less.prems(6) bit le dvd_double_iff [OF less.prems(1)]
      by (subst (asm) buddy_largest_order_loop.simps) simp
    then show ?thesis using True less.prems by (intro less.hyps [of "Suc k"]) auto
  next
    case False
    then have "r = k"
      using less.prems(6) bit le dvd_double_iff [OF less.prems(1)]
      by (subst (asm) buddy_largest_order_loop.simps) auto
    then show ?thesis using False less.prems by auto
  qed
qed

lemma largest_order:
  assumes "q < max_page" "0 < n" "n < max_page" "r = buddy_largest_order (page_addr q) (of_nat n)"
  shows "2 ^ r dvd q" "2 ^ r \<le> n" "r \<le> BUDDY_MAX_ORDER"
    "r < BUDDY_MAX_ORDER \<Longrightarrow> 2 ^ Suc r dvd q \<Longrightarrow> n < 2 ^ Suc r"
  using largest_order_loop [of 0 q n r] assms by (auto simp: buddy_largest_order_def page_addr_div)

subsection \<open>Cutting the region\<close>

lemma rep_join:
  assumes "i < length bss" "k \<le> BUDDY_MAX_ORDER" "2 ^ k dvd base (regions al ! i) + blk_pages xs"
    "buddy_rep al (bss[i := xs @ replicate (2 ^ k) (Hole, 0) @ ys])"
  shows "buddy_rep al (bss[i := xs @ (Hole, k) # ys])"
  using assms(2-)
proof (induction k arbitrary: xs ys)
  case (Suc k)
  let ?h = "replicate (2 ^ k) (Hole, 0) :: blk list"
  have d: "2 ^ k dvd base (regions al ! i) + blk_pages xs"
    using Suc.prems(2) by (auto intro: dvd_trans [of _ "2 ^ Suc k"])
  have "buddy_rep al (bss[i := xs @ ?h @ (?h @ ys)])" using Suc.prems(3) by (simp add: mult_2 replicate_add)
  then have "buddy_rep al (bss[i := xs @ (Hole, k) # (?h @ ys)])" using Suc.IH [of xs "?h @ ys"] Suc.prems(1) d by simp
  then have "buddy_rep al (bss[i := (xs @ [(Hole, k)]) @ ?h @ ys])" by simp
  moreover have "2 ^ k dvd base (regions al ! i) + blk_pages (xs @ [(Hole, k)])"
    using d by (simp flip: add.assoc)
  ultimately have "buddy_rep al (bss[i := (xs @ [(Hole, k)]) @ (Hole, k) # ys])"
    using Suc.IH [of "xs @ [(Hole, k)]" ys] Suc.prems(1) by simp
  then show ?case using rep_halves [OF assms(1), of k al xs ys] Suc.prems(1,2) by simp
qed simp

lemma hole_run [simp]:
  "blk_pages (replicate n (Hole, 0)) = n" "tiled p (replicate n (Hole, 0))"
  "kd \<noteq> Hole \<Longrightarrow> heads kd p (replicate n (Hole, 0)) k = {#}"
  "concat (replicate n (blk_bytes (Hole, 0))) = replicate n BUDDY_STATE_UNUSED"
proof -
  show "blk_pages (replicate n (Hole, 0)) = n" by (induction n) auto
  show "tiled p (replicate n (Hole, 0))" by (induction n arbitrary: p) auto
  show "kd \<noteq> Hole \<Longrightarrow> heads kd p (replicate n (Hole, 0)) k = {#}" by (induction n arbitrary: p) auto
  show "concat (replicate n (blk_bytes (Hole, 0))) = replicate n BUDDY_STATE_UNUSED"
    by (induction n) (auto simp: blk_bytes_def)
qed

definition all_free :: "blk list \<Rightarrow> bool" where
  "all_free bs \<longleftrightarrow> (\<forall>b\<in>set bs. fst b = Free)"

text \<open>The last block cut so far could not have been larger.\<close>

definition greedy :: "nat \<Rightarrow> blk list \<Rightarrow> nat \<Rightarrow> bool" where
  "greedy p xs n \<longleftrightarrow> xs = [] \<or>
     (let k = snd (last xs) in k < BUDDY_MAX_ORDER \<longrightarrow> 2 ^ Suc k dvd p + blk_pages (butlast xs) \<longrightarrow> n < 2 ^ k)"

lemma greedy_coalesced:
  assumes "coalesced p xs" "greedy p xs n" "2 ^ k \<le> n"
  shows "coalesced p (xs @ [(Free, k)])"
  using assms by (auto simp: coalesced_snoc greedy_def siblings_def)

lemma buddy_add_blocks_spec:
  assumes "buddy_rep al (bss[i := xs @ replicate n (Hole, 0)])" "i < length bss"
    "q = base (regions al ! i) + blk_pages xs" "coalesced (base (regions al ! i)) xs" "all_free xs"
    "greedy (base (regions al ! i)) xs n" "unat (free_pages al) + n \<le> max_page"
  shows "\<exists>al' ys. buddy_add_blocks al i (page_addr q) (b_end (regions al ! i)) = Some al' \<and>
     buddy_rep al' (bss[i := ys]) \<and> geometry al' = geometry al \<and> coalesced (base (regions al ! i)) ys \<and>
     all_free ys \<and> unat (free_pages al') = unat (free_pages al) + n"
  using assms
proof (induction n arbitrary: al xs q rule: less_induct)
  case (less n)
  note rep = less.prems(1) and i = less.prems(2) and q = less.prems(3)
  let ?r = "regions al ! i" and ?bss = "\<lambda>bs. bss[i := bs]"
  let ?e = "addr_page (b_end ?r)"
  have r: "region_ok ?r (xs @ replicate n (Hole, 0))" using rep i by (auto simp: buddy_rep_def regions_ok_def)
  have e: "q + n = ?e" using r q by (simp add: region_ok_def)
  have em: "?e < max_page" by simp
  have il: "i < length (regions al)" using rep i by (simp add: buddy_rep_def regions_ok_def)
  show ?case
  proof (cases "n = 0")
    case True
    then have "\<not> page_addr q < b_end ?r" using e by (subst region_okD(2) [OF r]) simp
    then have "buddy_add_blocks al i (page_addr q) (b_end ?r) = Some al" by (simp add: buddy_add_blocks.simps)
    then show ?thesis using rep True less.prems by auto
  next
    case False
    have qm: "q < max_page" "n < max_page" using e em False by linarith+
    define k where "k = buddy_largest_order (page_addr q) (of_nat n)"
    note k = largest_order [OF qm(1) _ qm(2) k_def]
    have n: "n = 2 ^ k + (n - 2 ^ k)" using k(2) False by simp
    define al1 where "al1 = buddy_list_add al i (page_addr q) k"
    let ?al = "al1\<lparr>free_pages := free_pages al1 + push_bit k 1\<rparr>" and ?xs = "xs @ [(Free, k)]" and ?n = "n - 2 ^ k"
    have "buddy_rep al (?bss (xs @ replicate (2 ^ k) (Hole, 0) @ replicate ?n (Hole, 0)))"
      using rep n by (simp flip: replicate_add)
    then have "buddy_rep al (?bss (xs @ (Hole, k) # replicate ?n (Hole, 0)))"
      using rep_join [OF i, of k al xs] k False q by simp
    then have "buddy_rep al1 (?bss (xs @ (Free, k) # replicate ?n (Hole, 0)))"
      using rep_give [of al _ i xs k "replicate ?n (Hole, 0)" q] i k(3) False q by (fastforce simp: al1_def)
    then have rep1: "buddy_rep ?al (?bss (?xs @ replicate ?n (Hole, 0)))"
      by (simp add: buddy_rep_def regions_ok_def regions_disjoint_def areas_ok_def free_list_def)
    have g: "geometry ?al = geometry al" by (simp add: geometry_def al1_def list_eq_iff_nth_eq)
    note gd = geometry_eqD [OF g]
    have fp: "unat (free_pages ?al) = unat (free_pages al) + 2 ^ k"
      using unat_add_no_overflow [of "free_pages al" "push_bit k 1"] push_bit_one_unat [OF k(3)] k(2) False
        less.prems(7) by (simp add: al1_def)
    have "greedy (base ?r) ?xs ?n" unfolding greedy_def using k(4) False q n by (auto simp: Let_def)
    moreover have "coalesced (base ?r) ?xs" using greedy_coalesced [OF less.prems(4,6)] k(2) False by simp
    moreover have "all_free ?xs" using less.prems(5) by (simp add: all_free_def)
    moreover have "unat (free_pages ?al) + ?n \<le> max_page" using fp n less.prems(7) by linarith
    moreover have "?n < n" using False by simp
    ultimately obtain al' ys where IH: "buddy_add_blocks ?al i (page_addr (q + 2 ^ k)) (b_end ?r) = Some al'"
      "buddy_rep al' (?bss ys)" "geometry al' = geometry al" "coalesced (base ?r) ys" "all_free ys"
      "unat (free_pages al') = unat (free_pages ?al) + ?n"
      using less.IH [of ?n ?al ?xs "q + 2 ^ k"] rep1 i q g gd(2,4) [OF il] by auto
    have fpa: "free_pages al1 = free_pages al" by (simp add: al1_def)
    have lt: "page_addr q < b_end ?r"
      by (subst region_okD(2) [OF r], subst page_addr_less [OF qm(1) em]) (use e False in linarith)
    have "?e - q = n" "q \<le> ?e" using e by linarith+
    then have "(b_end ?r - page_addr q) div PGSIZE = of_nat n"
      using page_addr_diff [of q ?e] page_addr_div [OF qm(2)] em region_okD(2) [OF r] by simp
    then have "buddy_add_blocks al i (page_addr q) (b_end ?r) = Some al'"
      using lt IH(1) fpa by (subst buddy_add_blocks.simps)
        (simp add: k_def [symmetric] al1_def [symmetric] buddy_order_size_page page_addr_add)
    then show ?thesis using IH fp n by (intro exI [of _ al'] exI [of _ ys]) simp
  qed
qed

subsection \<open>Adding a region\<close>

definition region_args_ok :: "buddy_allocator \<Rightarrow> u64 \<Rightarrow> u64 \<Rightarrow> u64 \<Rightarrow> u64 \<Rightarrow> bool" where
  "region_args_ok al start finish alloc_start n_states \<longleftrightarrow>
     start < finish \<and> page_aligned start \<and> page_aligned finish \<and> page_aligned alloc_start \<and>
     start \<le> alloc_start \<and> alloc_start \<le> finish \<and> (finish - start) div PGSIZE \<le> n_states \<and>
     length (regions al) < MEMRANGE_MAX \<and>
     (\<forall>i<length (regions al). finish \<le> b_start (regions al ! i) \<or> b_end (regions al ! i) \<le> start)"

lemma region_args_iff:
  "region_args_ok al start finish alloc_start n_states \<longleftrightarrow>
     \<not> (start \<ge> finish \<or> start mod PGSIZE \<noteq> 0 \<or> finish mod PGSIZE \<noteq> 0 \<or>
         alloc_start < start \<or> alloc_start > finish \<or> alloc_start mod PGSIZE \<noteq> 0 \<or>
         n_states < (finish - start) div PGSIZE \<or> length (regions al) \<ge> MEMRANGE_MAX) \<and>
     \<not> (\<exists>i<length (regions al). start < b_end (regions al ! i) \<and> finish > b_start (regions al ! i))"
  unfolding region_args_ok_def by (metis (no_types, lifting) not_le)

lemma two_guards: "(if A then x else if B then x else y) = (if \<not> A \<and> \<not> B then y else x)"
  by simp

lemmas buddy_add_region_guarded = buddy_add_region_def [unfolded two_guards region_args_iff [symmetric]]

lemma addr_page_mono: "a \<le> b \<Longrightarrow> addr_page a \<le> addr_page b"
  by (simp add: addr_page_def word_le_nat_alt div_le_mono)

lemma addr_page_less_iff: "page_aligned a \<Longrightarrow> page_aligned b \<Longrightarrow> addr_page a < addr_page b \<longleftrightarrow> a < b"
  using page_addr_less [of "addr_page a" "addr_page b"] by (simp add: page_addr_addr_page)

text \<open>The new region before it is cut: one hole per page.\<close>

lemma region_ok_fresh:
  assumes args: "region_args_ok al start finish alloc_start n_states" and len: "unat n_states \<le> length sts"
    and r: "r = \<lparr>b_start = start, b_end = finish, allocatable_start = alloc_start,
                 states = map (\<lambda>_. BUDDY_STATE_UNUSED) (take (unat n_states) sts) @ drop (unat n_states) sts,
                 state_count = n_states\<rparr>"
    and n: "n = addr_page finish - addr_page alloc_start"
  shows "region_ok r (replicate n (Hole, 0))"
proof -
  let ?s = "addr_page start" and ?b = "addr_page alloc_start" and ?e = "addr_page finish"
  have sb: "?s \<le> ?b" "?b \<le> ?e" using args by (auto simp: region_args_ok_def intro: addr_page_mono)
  have se: "?s < ?e" using args by (auto simp: region_args_ok_def addr_page_less_iff)
  have "finish - start = page_addr (?e - ?s)"
    using page_addr_diff [of ?s ?e] se args by (simp add: region_args_ok_def page_addr_addr_page)
  moreover have es: "?e - ?s < max_page" using addr_page_less [of finish] by linarith
  ultimately have "(finish - start) div PGSIZE = of_nat (?e - ?s)" using page_addr_div by simp
  moreover have "unat (of_nat (?e - ?s) :: u64) = ?e - ?s" using es by (subst unat_of_nat) simp
  ultimately have cnt: "?e - ?s \<le> unat n_states"
    using args by (simp add: region_args_ok_def word_le_nat_alt)
  then have "unat n_states = (?b - ?s) + (n + (unat n_states - (?e - ?s)))" using sb n by linarith
  then have "replicate (unat n_states) BUDDY_STATE_UNUSED =
      replicate (?b - ?s) BUDDY_STATE_UNUSED @ replicate n BUDDY_STATE_UNUSED @
        replicate (unat n_states - (?e - ?s)) BUDDY_STATE_UNUSED"
    by (metis replicate_add)
  moreover have "map (\<lambda>_. BUDDY_STATE_UNUSED) (take (unat n_states) sts) = replicate (unat n_states) BUDDY_STATE_UNUSED"
    using len by (simp add: map_replicate_const)
  ultimately have "map (\<lambda>_. BUDDY_STATE_UNUSED) (take (unat n_states) sts) =
      replicate (?b - ?s) BUDDY_STATE_UNUSED @ replicate n BUDDY_STATE_UNUSED @
        replicate (unat n_states - (?e - ?s)) BUDDY_STATE_UNUSED"
    by (simp only:)
  then show ?thesis
    using args sb se cnt n unfolding region_ok_def region_shape_def region_args_ok_def r by simp
qed

lemma rep_new_region:
  assumes rep: "buddy_rep al bss" and ok: "region_ok r (replicate n (Hole, 0))"
    and apart: "\<forall>i<length (regions al). b_end r \<le> b_start (regions al ! i) \<or> b_end (regions al ! i) \<le> b_start r"
  shows "buddy_rep (al\<lparr>regions := regions al @ [r]\<rparr>) (bss @ [replicate n (Hole, 0)])"
proof -
  let ?al = "al\<lparr>regions := regions al @ [r]\<rparr>" and ?bss = "bss @ [replicate n (Hole, 0)]"
  have len: "length bss = length (regions al)" using rep by (simp add: buddy_rep_def regions_ok_def)
  have "(\<Sum>i<length bss. heads Free (base (regions ?al ! i)) (?bss ! i) k) =
      (\<Sum>i<length bss. heads Free (base (regions al ! i)) (bss ! i) k)" for k
    using len by (intro sum.cong) (simp_all add: nth_append)
  moreover have "regions ?al ! length bss = r" "?bss ! length bss = replicate n (Hole, 0)"
    by (simp_all add: len [symmetric] nth_append)
  ultimately have "free_list ?al ?bss k = free_list al bss k" for k
    by (simp add: free_list_def del: nth_append)
  then have "areas_ok ?al ?bss" using rep by (simp add: buddy_rep_def areas_ok_def)
  moreover have "regions_disjoint ?al"
    using rep apart unfolding buddy_rep_def regions_ok_def regions_disjoint_def
    by (auto simp: nth_append less_Suc_eq)
  moreover have "region_ok (regions ?al ! i) (?bss ! i)" if "i < length ?bss" for i
    using rep ok that len by (auto simp: nth_append buddy_rep_def regions_ok_def less_Suc_eq)
  ultimately show ?thesis using len by (simp add: buddy_rep_def regions_ok_def)
qed

lemma all_free_sums: "all_free ys \<Longrightarrow> hole_free ys \<and> free_page_sum ys = blk_pages ys \<and> (\<forall>p k. heads Alloc p ys k = {#})"
  by (induction ys) (auto simp: all_free_def)

lemma buddy_add_region_settled:
  assumes st: "settled al bss" and args: "region_args_ok al start finish alloc_start n_states"
    and len: "unat n_states \<le> length sts"
  shows "\<exists>al' ys. buddy_add_region al start finish alloc_start sts n_states = Some (0, al') \<and>
     settled al' (bss @ [ys]) \<and> all_free ys \<and> geometry al' = geometry al @ [(start, finish, alloc_start)] \<and>
     unat (free_pages al') = unat (free_pages al) + (addr_page finish - addr_page alloc_start)"
proof -
  define r where "r = \<lparr>b_start = start, b_end = finish, allocatable_start = alloc_start,
                 states = map (\<lambda>_. BUDDY_STATE_UNUSED) (take (unat n_states) sts) @ drop (unat n_states) sts,
                 state_count = n_states\<rparr>"
  define n where "n = addr_page finish - addr_page alloc_start"
  define al1 where "al1 = al\<lparr>regions := regions al @ [r]\<rparr>"
  define bss1 where "bss1 = bss @ [replicate n (Hole, 0) :: blk list]"
  let ?i = "length bss"
  have len': "length (regions al) = ?i" using settledD(2) [OF st] by (simp add: regions_ok_def)
  have rep1: "buddy_rep al1 bss1"
    unfolding al1_def bss1_def using args
    by (intro rep_new_region settledD(1) [OF st] region_ok_fresh [OF args len r_def n_def])
      (auto simp: region_args_ok_def r_def)
  have ri: "regions al1 ! ?i = r" using len' by (simp add: al1_def nth_append)
  have al0: "page_addr (base r) = alloc_start" using args by (simp add: r_def region_args_ok_def page_addr_addr_page)
  have fpe: "unat (free_pages al) = (\<Sum>i<length bss. free_page_sum (bss ! i))" using st by (simp add: settled_def)
  also have "\<dots> \<le> (\<Sum>i<length bss. blk_pages (bss ! i))" by (intro sum_mono free_page_sum_le)
  also have "\<dots> + n = (\<Sum>i<length bss1. blk_pages (bss1 ! i))" by (simp add: bss1_def nth_append)
  also have "\<dots> \<le> max_page" using rep1 by (intro total_pages_le [of al1]) (simp add: buddy_rep_def)
  finally have fp: "unat (free_pages al1) + n \<le> max_page" by (simp add: al1_def)
  have "\<exists>al' ys. buddy_add_blocks al1 ?i (page_addr (base r)) (b_end (regions al1 ! ?i)) = Some al' \<and>
     buddy_rep al' (bss1[?i := ys]) \<and> geometry al' = geometry al1 \<and> coalesced (base (regions al1 ! ?i)) ys \<and>
     all_free ys \<and> unat (free_pages al') = unat (free_pages al1) + n"
    by (rule buddy_add_blocks_spec [where xs = "[]"])
      (use rep1 fp ri in \<open>simp_all add: bss1_def greedy_def all_free_def\<close>)
  then obtain al' ys where L: "buddy_add_blocks al1 ?i alloc_start finish = Some al'"
    and rep': "buddy_rep al' (bss @ [ys])" and g: "geometry al' = geometry al1" and co: "coalesced (base r) ys"
    and af: "all_free ys" and fp': "unat (free_pages al') = unat (free_pages al) + n"
    unfolding ri al0 by (auto simp: r_def bss1_def al1_def)
  have bases: "base (regions al' ! i) = base (regions al1 ! i)" if "i \<le> ?i" for i
    using geometry_eqD(2) [OF g, of i] that len' by (simp add: al1_def)
  have "settled al' (bss @ [ys])"
    unfolding settled_def
  proof (intro conjI allI impI)
    have "region_ok (regions al' ! ?i) ys" using rep' by (auto simp: buddy_rep_def regions_ok_def nth_append)
    then have "addr_page alloc_start + blk_pages ys = addr_page finish"
      using geometry_eqD(4) [OF g, of ?i] bases [of ?i] len' ri
      by (simp add: region_ok_def al1_def r_def nth_append)
    then have "blk_pages ys = n" by (simp add: n_def)
    then show "unat (free_pages al') = (\<Sum>i<length (bss @ [ys]). free_page_sum ((bss @ [ys]) ! i))"
      using fp' fpe all_free_sums [OF af] by (simp add: nth_append)
    fix i assume i: "i < length (bss @ [ys])"
    show "hole_free ((bss @ [ys]) ! i)"
      using settledD(4) [OF st] all_free_sums [OF af] i by (auto simp: nth_append less_Suc_eq)
    show "coalesced (base (regions al' ! i)) ((bss @ [ys]) ! i)"
    proof (cases "i = ?i")
      case True
      then show ?thesis using co ri bases [of i] by simp
    next
      case False
      then show ?thesis using settledD(5) [OF st, of i] i bases [of i] len' by (simp add: nth_append al1_def)
    qed
  qed (fact rep')
  moreover have "buddy_add_region al start finish alloc_start sts n_states = Some (0, al')"
  proof -
    have "buddy_add_region al start finish alloc_start sts n_states =
        map_option (\<lambda>al'. (0, al')) (buddy_add_blocks al1 (length (regions al)) alloc_start finish)"
      using args by (simp add: buddy_add_region_guarded Let_def al1_def r_def)
    then show ?thesis using L len' by simp
  qed
  moreover have "geometry al' = geometry al @ [(start, finish, alloc_start)]"
    using g by (simp add: geometry_def al1_def r_def)
  ultimately show ?thesis using af fp' n_def by blast
qed

lemma buddy_add_region_rejects:
  "\<not> region_args_ok al start finish alloc_start n_states \<Longrightarrow>
   buddy_add_region al start finish alloc_start sts n_states = Some (-1, al)"
  by (simp add: buddy_add_region_guarded)

end
