(* ===== verification/Buddy_Spec.thy ===== *)
theory Buddy_Spec
  imports Buddy_Region
begin

text \<open>
  The contract of the page allocator: the interface its clients use, its interpretation on the
  model of \<^verbatim>\<open>kernel/buddy.c\<close>, and the properties of the allocator.
\<close>

subsection \<open>The interface\<close>

text \<open>An allocator of blocks of \<open>2 ^ k\<close> units: \<open>owned\<close> are the blocks that were handed out and not
  given back, \<open>avail\<close> the units left.\<close>

locale block_allocator =
  fixes inv :: "'s \<Rightarrow> bool"
    and alloc :: "'s \<Rightarrow> nat \<Rightarrow> 'a option \<times> 's"
    and release :: "'s \<Rightarrow> 'a \<Rightarrow> nat \<Rightarrow> int \<times> 's"
    and owned :: "'s \<Rightarrow> 'a \<Rightarrow> nat \<Rightarrow> bool"
    and avail :: "'s \<Rightarrow> nat"
  assumes alloc_some: "inv s \<Longrightarrow> alloc s k = (Some a, s') \<Longrightarrow>
      inv s' \<and> \<not> owned s a k \<and> avail s' + 2 ^ k = avail s \<and> (\<forall>a' j. owned s' a' j \<longleftrightarrow> a' = a \<and> j = k \<or> owned s a' j)"
    and alloc_none: "inv s \<Longrightarrow> alloc s k = (None, s') \<Longrightarrow> s' = s"
    and release_owned: "inv s \<Longrightarrow> owned s a k \<Longrightarrow>
      \<exists>s'. release s a k = (0, s') \<and> inv s' \<and> avail s' = avail s + 2 ^ k \<and>
           (\<forall>a' j. owned s' a' j \<longleftrightarrow> owned s a' j \<and> (a', j) \<noteq> (a, k))"
    and release_foreign: "\<not> owned s a k \<Longrightarrow> release s a k = (-1, s)"
begin

lemma inv_alloc: "inv s \<Longrightarrow> inv (snd (alloc s k))"
  using alloc_some alloc_none by (metis option.exhaust prod.collapse)

lemma inv_release: "inv s \<Longrightarrow> inv (snd (release s a k))"
  using release_owned release_foreign by (metis snd_conv)

lemma release_status: "inv s \<Longrightarrow> fst (release s a k) = (if owned s a k then 0 else -1)"
  using release_owned release_foreign by (metis fst_conv)

lemma double_release: "inv s \<Longrightarrow> release s a k = (0, s') \<Longrightarrow> release s' a k = (-1, s')"
  using release_owned [of s a k] release_foreign [of s a k] release_foreign [of s' a k] by (cases "owned s a k") auto

lemma alloc_release:
  assumes "inv s" "alloc s k = (Some a, s')"
  shows "\<exists>s''. release s' a k = (0, s'') \<and> inv s'' \<and> avail s'' = avail s \<and> owned s'' = owned s"
proof -
  note A = alloc_some [OF assms]
  then obtain s'' where "release s' a k = (0, s'')" "inv s''" "avail s'' = avail s' + 2 ^ k"
    "\<forall>a' j. owned s'' a' j \<longleftrightarrow> owned s' a' j \<and> (a', j) \<noteq> (a, k)"
    using release_owned [of s' a k] by blast
  moreover from this have "owned s'' = owned s" using A by (intro ext) auto
  ultimately show ?thesis using A by auto
qed

end

subsection \<open>The buddy allocator implements it\<close>

lemma buddy_alloc_cases:
  assumes st: "settled al bss"
  shows "(\<exists>a al'. buddy_alloc al order = (Some a, al') \<and> carved al bss order a al') \<or>
         buddy_alloc al order = (None, al) \<and>
           (order \<le> BUDDY_MAX_ORDER \<longrightarrow> (\<forall>k. order \<le> k \<and> k \<le> BUDDY_MAX_ORDER \<longrightarrow> blocks (areas al ! k) = []))"
proof (cases "order \<le> BUDDY_MAX_ORDER")
  case True
  define c where "c = scan (\<lambda>c. area_count (areas al ! c) \<noteq> 0) order (BUDDY_MAX_ORDER + 1)"
  show ?thesis
  proof (cases "c \<le> BUDDY_MAX_ORDER")
    case c: True
    then show ?thesis using buddy_alloc_carved [OF st True c _ c_def] scan_ge c_def by blast
  next
    case c: False
    then have "buddy_alloc al order = (None, al)" using True by (simp add: buddy_alloc_def c_def Let_def)
    moreover have "blocks (areas al ! k) = []" if "order \<le> k" "k \<le> BUDDY_MAX_ORDER" for k
      using scan_miss [OF that(1), of "\<lambda>c. area_count (areas al ! c) \<noteq> 0" "BUDDY_MAX_ORDER + 1"] c that
        area_count_zero [OF settledD(3,2) [OF st] that(2)] by (simp add: c_def)
    ultimately show ?thesis by blast
  qed
qed (simp add: buddy_alloc_def)

lemma buddy_alloc_some:
  assumes inv: "buddy_inv al" and eq: "buddy_alloc al order = (Some a, al')"
  shows "buddy_inv al'" "a mod buddy_order_size order = 0" "buddy_contains al a"
    "buddy_allocated al a' k \<Longrightarrow> block_pages a' k \<inter> block_pages a order = {}"
    "buddy_allocated al' a' k \<longleftrightarrow> (a' = a \<and> k = order) \<or> buddy_allocated al a' k"
    "unat (free_pages al') + 2 ^ order = unat (free_pages al)" "geometry al' = geometry al"
    "order \<le> BUDDY_MAX_ORDER"
proof -
  obtain bss where st: "settled al bss" using inv by (auto simp: buddy_inv_def)
  have c: "carved al bss order a al'" using buddy_alloc_cases [OF st, of order] eq by auto
  then show "buddy_inv al'" "unat (free_pages al') + 2 ^ order = unat (free_pages al)" "geometry al' = geometry al"
    unfolding carved_def buddy_inv_def by blast+
  show "a mod buddy_order_size order = 0" "buddy_contains al a" "order \<le> BUDDY_MAX_ORDER"
    "buddy_allocated al a' k \<Longrightarrow> block_pages a' k \<inter> block_pages a order = {}"
    "buddy_allocated al' a' k \<longleftrightarrow> (a' = a \<and> k = order) \<or> buddy_allocated al a' k"
    using carved_allocated [OF st c] by blast+
qed

lemma buddy_free_owned:
  assumes inv: "buddy_inv al" and owned: "buddy_allocated al a k"
  shows "\<exists>al'. buddy_free al a k = (0, al') \<and> buddy_inv al' \<and> geometry al' = geometry al \<and>
     unat (free_pages al') = unat (free_pages al) + 2 ^ k \<and>
     (\<forall>a' j. buddy_allocated al' a' j \<longleftrightarrow> buddy_allocated al a' j \<and> (a', j) \<noteq> (a, k))"
proof -
  obtain bss where st: "settled al bss" using inv by (auto simp: buddy_inv_def)
  obtain i where i: "i < length bss" "a = page_addr (addr_page a)"
    and mem: "addr_page a \<in># heads Alloc (base (regions al ! i)) (bss ! i) k"
    using allocated_heads [OF st owned] .
  obtain xs ys where b: "bss ! i = xs @ (Alloc, k) # ys" "addr_page a = base (regions al ! i) + blk_pages xs"
    using mem in_heads by metis
  obtain al' where f: "buddy_free al a k = (0, al')" and ret: "returned al bss i (addr_page a) k al'"
    using buddy_free_returned [OF st i(1) b] i(2) by metis
  have "buddy_allocated al' a' j \<longleftrightarrow> buddy_allocated al a' j \<and> (a', j) \<noteq> (a, k)" for a' j
    using returned_allocated [OF st i(1) mem ret] i(2) by metis
  then show ?thesis using f ret unfolding returned_def buddy_inv_def by blast
qed

lemma buddy_free_foreign: "\<not> buddy_allocated al a k \<Longrightarrow> buddy_free al a k = (-1, al)"
  by (simp add: buddy_free_def)

lemma block_pages_nonempty: "block_pages a k \<noteq> {}"
  by (simp add: block_pages_def)

interpretation buddy: block_allocator buddy_inv buddy_alloc buddy_free buddy_allocated
  "\<lambda>al. unat (buddy_free_page_count al)"
proof
  fix al k a al'
  assume inv: "buddy_inv al" and eq: "buddy_alloc al k = (Some a, al')"
  note A = buddy_alloc_some [OF inv eq]
  then have "\<not> buddy_allocated al a k" using block_pages_nonempty [of a k] by blast
  then show "buddy_inv al' \<and> \<not> buddy_allocated al a k \<and>
      unat (buddy_free_page_count al') + 2 ^ k = unat (buddy_free_page_count al) \<and>
      (\<forall>a' j. buddy_allocated al' a' j \<longleftrightarrow> a' = a \<and> j = k \<or> buddy_allocated al a' j)"
    using A by (simp add: buddy_free_page_count_def)
next
  fix al k al'
  assume "buddy_inv al" "buddy_alloc al k = (None, al')"
  then show "al' = al" using buddy_alloc_cases [of al _ k] by (auto simp: buddy_inv_def)
next
  fix al a k
  assume "buddy_inv al" "buddy_allocated al a k"
  then show "\<exists>s'. buddy_free al a k = (0, s') \<and> buddy_inv s' \<and>
      unat (buddy_free_page_count s') = unat (buddy_free_page_count al) + 2 ^ k \<and>
      (\<forall>a' j. buddy_allocated s' a' j \<longleftrightarrow> buddy_allocated al a' j \<and> (a', j) \<noteq> (a, k))"
    using buddy_free_owned by (metis buddy_free_page_count_def)
qed (rule buddy_free_foreign)

lemma settled_init: "settled (buddy_init al) []"
  unfolding settled_def buddy_rep_def regions_ok_def regions_disjoint_def areas_ok_def free_list_def buddy_init_def
  by (auto simp: nth_Cons' nth_replicate)

lemma buddy_inv_init: "buddy_inv (buddy_init al)"
  using settled_init buddy_inv_def by blast

lemma buddy_add_region_spec:
  assumes "buddy_inv al" "unat n_states \<le> length sts"
  shows "if region_args_ok al start finish alloc_start n_states
     then \<exists>al'. buddy_add_region al start finish alloc_start sts n_states = Some (0, al') \<and> buddy_inv al' \<and>
            unat (free_pages al') = unat (free_pages al) + (addr_page finish - addr_page alloc_start) \<and>
            geometry al' = geometry al @ [(start, finish, alloc_start)] \<and>
            buddy_allocated al' = buddy_allocated al
     else buddy_add_region al start finish alloc_start sts n_states = Some (-1, al)"
proof (cases "region_args_ok al start finish alloc_start n_states")
  case True
  obtain bss where st: "settled al bss" using assms(1) by (auto simp: buddy_inv_def)
  obtain al' ys where A: "buddy_add_region al start finish alloc_start sts n_states = Some (0, al')"
    and st': "settled al' (bss @ [ys])" and af: "all_free ys"
    and g: "geometry al' = geometry al @ [(start, finish, alloc_start)]"
    and fp: "unat (free_pages al') = unat (free_pages al) + (addr_page finish - addr_page alloc_start)"
    using buddy_add_region_settled [OF st True assms(2)] by blast
  have len: "length (regions al) = length bss" using settledD(2) [OF st] by (simp add: regions_ok_def)
  have bs: "base (regions al' ! i) = base (regions al ! i)" if "i < length bss" for i
    using that len arg_cong [OF g, of "\<lambda>xs. xs ! i"] settledD(6) [OF st' , of i]
    by (simp add: geometry_def nth_append)
  have "buddy_allocated al' a k = buddy_allocated al a k" for a k
    unfolding buddy_allocated_iff [OF settledD(2) [OF st']] buddy_allocated_iff [OF settledD(2) [OF st]]
    using bs all_free_sums [OF af] by (auto simp: less_Suc_eq nth_append)
  then have "buddy_allocated al' = buddy_allocated al" by blast
  then show ?thesis using A st' g fp True unfolding buddy_inv_def by auto
qed (simp add: buddy_add_region_rejects)

subsection \<open>Series of operations\<close>

text \<open>A client that adds regions, allocates and frees in any order, with the blocks it was given and has not
  given back.\<close>

datatype buddy_op = Add_region u64 u64 u64 "u8 list" | Alloc_block nat | Free_block u64 nat

type_synonym ledger = "(u64 \<times> nat) list"

fun buddy_step :: "buddy_op \<Rightarrow> buddy_allocator \<times> ledger \<Rightarrow> (buddy_allocator \<times> ledger) option" where
  "buddy_step (Add_region start finish alloc_start sts) (al, held) =
     map_option (\<lambda>(r, al'). (al', held)) (buddy_add_region al start finish alloc_start sts (of_nat (length sts)))"
| "buddy_step (Alloc_block k) (al, held) =
     (case buddy_alloc al k of
        (None, al') \<Rightarrow> Some (al', held)
      | (Some a, al') \<Rightarrow> Some (al', (a, k) # held))"
| "buddy_step (Free_block a k) (al, held) =
     (case buddy_free al a k of (r, al') \<Rightarrow> Some (al', if r = 0 then remove1 (a, k) held else held))"

primrec buddy_run :: "buddy_op list \<Rightarrow> buddy_allocator \<times> ledger \<Rightarrow> (buddy_allocator \<times> ledger) option" where
  "buddy_run [] s = Some s"
| "buddy_run (op # ops) s = Option.bind (buddy_step op s) (buddy_run ops)"

definition managed_pages :: "buddy_allocator \<Rightarrow> nat" where
  "managed_pages al = (\<Sum>(b, e, a) \<leftarrow> geometry al. addr_page e - addr_page a)"

definition held_pages :: "ledger \<Rightarrow> nat" where
  "held_pages held = (\<Sum>(a, k) \<leftarrow> held. 2 ^ k)"

definition ledger_ok :: "buddy_allocator \<times> ledger \<Rightarrow> bool" where
  "ledger_ok s \<longleftrightarrow> (case s of (al, held) \<Rightarrow> buddy_inv al \<and> distinct held \<and>
     (\<forall>a k. buddy_allocated al a k \<longleftrightarrow> (a, k) \<in> set held) \<and>
     unat (free_pages al) + held_pages held = managed_pages al)"

lemma held_pages_remove1: "(a, k) \<in> set held \<Longrightarrow> held_pages (remove1 (a, k) held) + 2 ^ k = held_pages held"
  by (induction held) (auto simp: held_pages_def)

lemma buddy_step_ok:
  assumes ok: "ledger_ok (al, held)"
  shows "\<exists>s'. buddy_step op (al, held) = Some s' \<and> ledger_ok s'"
proof -
  have inv: "buddy_inv al" and dist: "distinct held" and held: "\<And>a k. buddy_allocated al a k \<longleftrightarrow> (a, k) \<in> set held"
    and pages: "unat (free_pages al) + held_pages held = managed_pages al"
    using ok by (auto simp: ledger_ok_def)
  show ?thesis
  proof (cases op)
    case (Add_region start finish alloc_start sts)
    have len: "unat (of_nat (length sts) :: u64) \<le> length sts" by (simp add: unsigned_of_nat take_bit_nat_less_eq_self)
    show ?thesis
    proof (cases "region_args_ok al start finish alloc_start (of_nat (length sts))")
      case True
      then obtain al' where "buddy_add_region al start finish alloc_start sts (of_nat (length sts)) = Some (0, al')"
        "buddy_inv al'" "unat (free_pages al') = unat (free_pages al) + (addr_page finish - addr_page alloc_start)"
        "geometry al' = geometry al @ [(start, finish, alloc_start)]" "buddy_allocated al' = buddy_allocated al"
        using buddy_add_region_spec [OF inv len, of start finish alloc_start] by auto
      then show ?thesis using dist held pages Add_region by (simp add: ledger_ok_def managed_pages_def)
    next
      case False
      then have "buddy_add_region al start finish alloc_start sts (of_nat (length sts)) = Some (-1, al)"
        using buddy_add_region_spec [OF inv len, of start finish alloc_start] by simp
      then show ?thesis using ok Add_region by simp
    qed
  next
    case (Alloc_block k)
    obtain res al' where e: "buddy_alloc al k = (res, al')" by (cases "buddy_alloc al k")
    show ?thesis
    proof (cases res)
      case None
      then show ?thesis using e ok Alloc_block buddy.alloc_none [OF inv, of k al'] by simp
    next
      case (Some a)
      note A = buddy_alloc_some [OF inv e [unfolded Some]]
      have "(a, k) \<notin> set held" using buddy.alloc_some [OF inv e [unfolded Some]] held by blast
      moreover have "unat (free_pages al') + held_pages ((a, k) # held) = managed_pages al'"
        using A(6,7) pages by (simp add: held_pages_def managed_pages_def)
      ultimately show ?thesis
        using e Some Alloc_block A(1,5) dist held by (auto simp: ledger_ok_def)
    qed
  next
    case (Free_block a k)
    show ?thesis
    proof (cases "buddy_allocated al a k")
      case True
      then obtain al' where f: "buddy_free al a k = (0, al')" "buddy_inv al'" "geometry al' = geometry al"
        "unat (free_pages al') = unat (free_pages al) + 2 ^ k"
        "\<forall>a' j. buddy_allocated al' a' j \<longleftrightarrow> buddy_allocated al a' j \<and> (a', j) \<noteq> (a, k)"
        using buddy_free_owned [OF inv] by blast
      have "unat (free_pages al') + held_pages (remove1 (a, k) held) = managed_pages al'"
        using f(3,4) pages held_pages_remove1 [of a k held] True held by (simp add: managed_pages_def)
      then show ?thesis using f held dist Free_block by (auto simp: ledger_ok_def)
    next
      case False
      then show ?thesis using ok Free_block by (simp add: buddy_free_foreign)
    qed
  qed
qed

lemma buddy_run_ok: "ledger_ok s \<Longrightarrow> \<exists>s'. buddy_run ops s = Some s' \<and> ledger_ok s'"
proof (induction ops arbitrary: s)
  case (Cons op ops)
  obtain al held where s: "s = (al, held)" by (cases s)
  obtain t where "buddy_step op s = Some t" "ledger_ok t" using buddy_step_ok [of al held op] Cons.prems s by blast
  then show ?case using Cons.IH by simp
qed simp

lemma ledger_ok_init: "ledger_ok (buddy_init al, [])"
proof -
  have "\<not> buddy_allocated (buddy_init al) a k" for a k
    by (simp add: buddy_allocated_def buddy_find_region_def buddy_init_def)
  then show ?thesis using buddy_inv_init
    by (simp add: ledger_ok_def held_pages_def managed_pages_def geometry_def buddy_init_def)
qed

subsection \<open>Properties\<close>

text \<open>A small allocator for examples: one region of eight pages, the first of them reserved.\<close>

definition buddy_blank :: buddy_allocator where
  "buddy_blank = \<lparr>areas = [], regions = [], free_pages = 0\<rparr>"

definition buddy_demo :: buddy_allocator where
  "buddy_demo = snd (the (buddy_add_region (buddy_init buddy_blank) 0 0x8000 0x1000 (replicate 8 0) 8))"

declare buddy_add_blocks.simps [code]

lemma buddy_demo_args: "region_args_ok (buddy_init buddy_blank) 0 0x8000 0x1000 8"
  by (simp add: region_args_ok_def buddy_init_def MEMRANGE_MAX_def) (simp add: PGSIZE_def)

lemma buddy_demo_facts:
  "buddy_inv buddy_demo" "\<not> buddy_allocated buddy_demo a k" "geometry buddy_demo = [(0, 0x8000, 0x1000)]"
proof -
  obtain al' ys where "buddy_add_region (buddy_init buddy_blank) 0 0x8000 0x1000 (replicate 8 0) 8 = Some (0, al')"
    and st: "settled al' ([] @ [ys])" "all_free ys"
    and g: "geometry al' = geometry (buddy_init buddy_blank) @ [(0, 0x8000, 0x1000)]"
    using buddy_add_region_settled [OF settled_init buddy_demo_args, of "replicate 8 0"] by auto
  then have d: "al' = buddy_demo" by (simp add: buddy_demo_def)
  show "buddy_inv buddy_demo" using st d by (auto simp: buddy_inv_def)
  show "\<not> buddy_allocated buddy_demo a k"
    using buddy_allocated_iff [OF settledD(2) [OF st(1)]] all_free_sums [OF st(2)] d by auto
  show "geometry buddy_demo = [(0, 0x8000, 0x1000)]" using g d by (simp add: geometry_def buddy_init_def)
qed

text \<open>C20. Allocation is sound: a block that \<^verbatim>\<open>buddy_alloc\<close> returns is aligned to its size, lies in the
  allocatable part of a region, overlaps no block that is already allocated, and afterwards exactly
  this block is allocated in addition; the invariant (state bytes, free lists and counts agree, no two
  free siblings) is kept and \<^verbatim>\<open>free_pages\<close> drops by the size of the block.\<close>

theorem buddy_alloc_sound:
  assumes "buddy_inv al" "buddy_alloc al order = (Some a, al')"
  shows "buddy_inv al' \<and> a mod buddy_order_size order = 0 \<and> buddy_contains al a \<and>
     (\<forall>a' k. buddy_allocated al a' k \<longrightarrow> block_pages a' k \<inter> block_pages a order = {}) \<and>
     (\<forall>a' k. buddy_allocated al' a' k \<longleftrightarrow> a' = a \<and> k = order \<or> buddy_allocated al a' k) \<and>
     unat (free_pages al') + 2 ^ order = unat (free_pages al)"
  using buddy_alloc_some [OF assms] by blast

theorem buddy_alloc_sound_witness:
  "\<exists>al'. buddy_alloc buddy_demo 1 = (Some 0x2000, al') \<and> buddy_inv al' \<and> buddy_allocated al' 0x2000 1"
proof -
  have "fst (buddy_alloc buddy_demo 1) = Some 0x2000" by code_simp
  then obtain al' where "buddy_alloc buddy_demo 1 = (Some 0x2000, al')" by (metis prod.collapse)
  then show ?thesis using buddy_alloc_sound [OF buddy_demo_facts(1)] by blast
qed

text \<open>C21. Allocation is complete: \<^verbatim>\<open>buddy_alloc\<close> fails only when no aligned run of \<open>2 ^ order\<close> pages of any
  region is free. Splitting and merging never leave free memory that no request can reach.\<close>

theorem buddy_alloc_complete:
  assumes "buddy_inv al" "order \<le> BUDDY_MAX_ORDER" "i < length (regions al)"
    "2 ^ order dvd q" "base (regions al ! i) \<le> q" "q + 2 ^ order \<le> addr_page (b_end (regions al ! i))"
    "\<And>a k. buddy_allocated al a k \<Longrightarrow> block_pages a k \<inter> {q..<q + 2 ^ order} = {}"
  shows "\<exists>a al'. buddy_alloc al order = (Some a, al')"
proof -
  obtain bss where st: "settled al bss" using assms(1) by (auto simp: buddy_inv_def)
  let ?b = "base (regions al ! i)"
  have i: "i < length bss" using assms(3) settledD(2) [OF st] by (simp add: regions_ok_def)
  have r: "region_ok (regions al ! i) (bss ! i)" by (rule settledD(7) [OF st i])
  have apart: "x + 2 ^ j \<le> q \<or> q + 2 ^ order \<le> x" if x: "x \<in># heads Alloc ?b (bss ! i) j" for x j
  proof -
    have "buddy_allocated al (page_addr x) j" using buddy_allocated_iff [OF settledD(2) [OF st]] i x by blast
    then have "{x..<x + 2 ^ j} \<inter> {q..<q + 2 ^ order} = {}"
      using assms(7) head_page [OF settledD(2) [OF st] i x] by (metis block_pages_def)
    then show ?thesis
      by (metis atLeastLessThan_iff disjoint_iff le_add1 less_add_same_cancel1 not_le order_refl zero_less_numeral zero_less_power linear)
  qed
  have "q + 2 ^ order \<le> ?b + blk_pages (bss ! i)" using r assms(6) by (simp add: region_ok_def)
  then obtain x k where x: "x \<in># heads Free ?b (bss ! i) k" "order \<le> k"
    using free_run_in_block [OF _ settledD(4) [OF st i] settledD(5) [OF st i] assms(2,4,5) _ apart] r
    by (auto simp: region_ok_def)
  have k: "k \<le> BUDDY_MAX_ORDER" using find_region_block(3) [OF settledD(2) [OF st] i x(1)] .
  have "x \<in># free_list al bss k" using x(1) i by (auto simp: free_list_def set_mset_sum)
  then have "blocks (areas al ! k) \<noteq> []"
    using settledD(3) [OF st] k by (auto simp: areas_ok_def)
  then show ?thesis using buddy_alloc_cases [OF st, of order] x(2) k assms(2) by blast
qed

theorem buddy_alloc_complete_witness: "\<exists>a al'. buddy_alloc buddy_demo 2 = (Some a, al')"
proof -
  obtain r where "regions buddy_demo = [r]" "b_end r = 0x8000" "allocatable_start r = 0x1000"
    using buddy_demo_facts(3) by (auto simp: geometry_def)
  then have "base (regions buddy_demo ! 0) = 1" "addr_page (b_end (regions buddy_demo ! 0)) = 8"
    "0 < length (regions buddy_demo)"
    by (simp_all add: addr_page_def)
  then show ?thesis
    using buddy_alloc_complete [OF buddy_demo_facts(1), of 2 0 4] buddy_demo_facts(2)
    by (simp add: BUDDY_MAX_ORDER_def)
qed

text \<open>C22. Release: a block that is allocated is given back with status 0, only this block stops being
  allocated, \<^verbatim>\<open>free_pages\<close> grows by its size and the invariant (free siblings are merged) is kept; anything
  else (an address that is not a block, a wrong order, a second free) is refused with -1 and no change.\<close>

theorem buddy_free_correct:
  assumes "buddy_inv al"
  shows "if buddy_allocated al a k
     then \<exists>al'. buddy_free al a k = (0, al') \<and> buddy_inv al' \<and>
            unat (free_pages al') = unat (free_pages al) + 2 ^ k \<and> \<not> buddy_allocated al' a k \<and>
            (\<forall>a' j. (a', j) \<noteq> (a, k) \<longrightarrow> buddy_allocated al' a' j = buddy_allocated al a' j)
     else buddy_free al a k = (-1, al)"
  using buddy_free_owned [OF assms, of a k] buddy_free_foreign [of al a k] by auto

theorem buddy_free_correct_witness:
  "\<exists>al'. buddy_free (snd (buddy_alloc buddy_demo 1)) 0x2000 1 = (0, al') \<and> buddy_inv al' \<and> \<not> buddy_allocated al' 0x2000 1"
proof -
  have "buddy_inv (snd (buddy_alloc buddy_demo 1))" by (intro buddy.inv_alloc buddy_demo_facts)
  moreover have "buddy_allocated (snd (buddy_alloc buddy_demo 1)) 0x2000 1" by code_simp
  ultimately show ?thesis using buddy_free_correct [of "snd (buddy_alloc buddy_demo 1)" "0x2000" 1] by auto
qed

text \<open>C23. A block that is allocated and freed again leaves the allocator as it was for its clients: the
  same blocks are allocated and the same number of pages is free. Freeing it once more is refused.\<close>

theorem buddy_alloc_free_roundtrip:
  assumes "buddy_inv al" "buddy_alloc al k = (Some a, al')"
  shows "\<exists>al''. buddy_free al' a k = (0, al'') \<and> buddy_inv al'' \<and> free_pages al'' = free_pages al \<and>
     buddy_allocated al'' = buddy_allocated al \<and> buddy_free al'' a k = (-1, al'')"
proof -
  obtain al'' where f: "buddy_free al' a k = (0, al'')" "buddy_inv al''"
    "unat (buddy_free_page_count al'') = unat (buddy_free_page_count al)" "buddy_allocated al'' = buddy_allocated al"
    using buddy.alloc_release [OF assms] by blast
  moreover have "buddy_free al'' a k = (-1, al'')"
    using buddy.double_release [OF _ f(1)] buddy.alloc_some [OF assms] by blast
  moreover have "free_pages al'' = free_pages al" using f(3) unfolding buddy_free_page_count_def by (rule unsigned_word_eqI)
  ultimately show ?thesis by blast
qed

theorem buddy_alloc_free_roundtrip_witness:
  "\<exists>al''. buddy_free (snd (buddy_alloc buddy_demo 1)) 0x2000 1 = (0, al'') \<and> free_pages al'' = free_pages buddy_demo"
proof -
  have "fst (buddy_alloc buddy_demo 1) = Some 0x2000" by code_simp
  then have "buddy_alloc buddy_demo 1 = (Some 0x2000, snd (buddy_alloc buddy_demo 1))" by (metis prod.collapse)
  then show ?thesis using buddy_alloc_free_roundtrip [OF buddy_demo_facts(1)] by blast
qed

text \<open>C24. \<^verbatim>\<open>buddy_add_region\<close> always ends. On valid arguments it succeeds, keeps the invariant and adds
  exactly the pages from \<^verbatim>\<open>allocatable_start\<close> to the end of the region to the free pages, with no block of
  it allocated; otherwise (empty or misaligned range, too few state bytes, overlap with a region, table
  full) it returns -1 and changes nothing.\<close>

theorem buddy_add_region_correct:
  assumes "buddy_inv al" "unat n_states \<le> length sts"
  shows "if region_args_ok al start finish alloc_start n_states
     then \<exists>al'. buddy_add_region al start finish alloc_start sts n_states = Some (0, al') \<and> buddy_inv al' \<and>
            unat (free_pages al') = unat (free_pages al) + (addr_page finish - addr_page alloc_start) \<and>
            geometry al' = geometry al @ [(start, finish, alloc_start)] \<and>
            buddy_allocated al' = buddy_allocated al
     else buddy_add_region al start finish alloc_start sts n_states = Some (-1, al)"
  by (rule buddy_add_region_spec [OF assms])

theorem buddy_add_region_correct_witness:
  "\<exists>al'. buddy_add_region (buddy_init buddy_blank) 0 0x8000 0x1000 (replicate 8 0) 8 = Some (0, al') \<and>
     buddy_inv al' \<and> geometry al' = [(0, 0x8000, 0x1000)]"
  using buddy_add_region_correct [OF buddy_inv_init, of 8 "replicate 8 0" buddy_blank 0 "0x8000" "0x1000"]
    buddy_demo_args by (auto simp: geometry_def buddy_init_def)

text \<open>C25. Whatever a client does, memory is never handed out twice and never lost. After any series of adding
  regions, allocating and freeing, in any order and with any arguments, the blocks the client was given and
  has not given back are exactly the allocated blocks, no two of them share a page, and the free pages
  and the pages of these blocks add up to the allocatable pages of the regions.\<close>

theorem buddy_series_sound:
  "\<exists>al held. buddy_run ops (buddy_init al0, []) = Some (al, held) \<and> distinct held \<and>
     (\<forall>a k. buddy_allocated al a k \<longleftrightarrow> (a, k) \<in> set held) \<and>
     (\<forall>a k b j. (a, k) \<in> set held \<longrightarrow> (b, j) \<in> set held \<longrightarrow> (a, k) \<noteq> (b, j) \<longrightarrow> block_pages a k \<inter> block_pages b j = {}) \<and>
     unat (free_pages al) + held_pages held = managed_pages al"
proof -
  obtain al held where r: "buddy_run ops (buddy_init al0, []) = Some (al, held)" and ok: "ledger_ok (al, held)"
    using buddy_run_ok [OF ledger_ok_init, of ops al0] by auto
  have "block_pages a k \<inter> block_pages b j = {}" if "(a, k) \<in> set held" "(b, j) \<in> set held" "(a, k) \<noteq> (b, j)" for a k b j
    using allocated_apart [of al a k b j] that ok by (auto simp: ledger_ok_def)
  then show ?thesis using r ok by (auto simp: ledger_ok_def)
qed

theorem buddy_series_sound_witness:
  "\<exists>al. buddy_run [Add_region 0 0x8000 0x1000 (replicate 8 0), Alloc_block 1, Alloc_block 0, Alloc_block 2, Free_block 0x2000 1]
       (buddy_init buddy_blank, []) = Some (al, [(0x4000, 2), (0x1000, 0)]) \<and>
     block_pages 0x4000 2 \<inter> block_pages 0x1000 0 = {} \<and> unat (free_pages al) + 5 = managed_pages al"
proof -
  let ?ops = "[Add_region 0 0x8000 0x1000 (replicate 8 0), Alloc_block 1, Alloc_block 0, Alloc_block 2, Free_block 0x2000 1]"
  obtain al held where r: "buddy_run ?ops (buddy_init buddy_blank, []) = Some (al, held)"
    and apart: "\<forall>a k b j. (a, k) \<in> set held \<longrightarrow> (b, j) \<in> set held \<longrightarrow> (a, k) \<noteq> (b, j) \<longrightarrow> block_pages a k \<inter> block_pages b j = {}"
    and sum: "unat (free_pages al) + held_pages held = managed_pages al"
    by (rule exE [OF buddy_series_sound [of ?ops buddy_blank]], elim exE conjE) (rule that)
  have "map_option snd (buddy_run ?ops (buddy_init buddy_blank, [])) = Some [(0x4000, 2), (0x1000, 0)]" by code_simp
  then have held: "held = [(0x4000, 2), (0x1000, 0)]" using r by simp
  have "block_pages 0x4000 2 \<inter> block_pages 0x1000 0 = {}" using apart unfolding held by simp
  moreover have "held_pages held = 5" by (simp add: held held_pages_def)
  ultimately show ?thesis using r sum unfolding held by simp
qed

end
