(* ===== verification/Kstring.thy ===== *)
theory Kstring
  imports Prelude "HOL-Library.Multiset"
begin

text \<open>
  \<^verbatim>\<open>kernel/string.c\<close>: the kernel's C library for memory and strings, on a flat memory of bytes
  indexed by \<^verbatim>\<open>uint64\<close> addresses, so that pointer arithmetic wraps as it does on the machine. A loop
  that counts \<^verbatim>\<open>n\<close> down recurs on \<open>n\<close>; a loop that runs until a NUL byte is a
  \<open>partial_function\<close>, with \<open>None\<close> for a loop that does not end. \<^verbatim>\<open>char\<close> is unsigned, as it is on
  RISC-V.
\<close>

type_synonym addr = u64
type_synonym memory = "addr \<Rightarrow> u8"

subsection \<open>The operations\<close>

definition memset :: "memory \<Rightarrow> addr \<Rightarrow> int \<Rightarrow> u64 \<Rightarrow> memory" where
  "memset m dst c n = fold (\<lambda>i m. m(dst + of_nat i := of_int c)) [0..<unat n] m"

partial_function (option) strlen_loop :: "memory \<Rightarrow> addr \<Rightarrow> addr option" where
  "strlen_loop m p = (if m p \<noteq> 0 then strlen_loop m (p + 1) else Some (p + 1))"

definition strlen :: "memory \<Rightarrow> addr \<Rightarrow> u64 option" where
  "strlen m s = map_option (\<lambda>p. p - s - 1) (strlen_loop m s)"

partial_function (option) strcpy :: "memory \<Rightarrow> addr \<Rightarrow> addr \<Rightarrow> memory option" where
  "strcpy m s t =
     (let m' = m(s := m t) in if m t \<noteq> 0 then strcpy m' (s + 1) (t + 1) else Some m')"

text \<open>The first loop of \<^verbatim>\<open>strncpy\<close>, with \<^verbatim>\<open>s\<close> and \<^verbatim>\<open>n\<close> after it; \<^verbatim>\<open>n--\<close> also counts down when the test
  fails, and wraps at 0.\<close>

function strncpy_copy :: "memory \<Rightarrow> addr \<Rightarrow> addr \<Rightarrow> u64 \<Rightarrow> memory \<times> addr \<times> u64" where
  "strncpy_copy m s t n =
     (if n > 0 then
        let m' = m(s := m t)
        in if m t \<noteq> 0 then strncpy_copy m' (s + 1) (t + 1) (n - 1) else (m', s + 1, n - 1)
      else (m, s, n - 1))"
  by pat_completeness auto
termination
  by (relation "measure (\<lambda>(m, s, t, n). unat n)") (auto intro: measure_unat_pred)

function strncpy_fill :: "memory \<Rightarrow> addr \<Rightarrow> u64 \<Rightarrow> memory" where
  "strncpy_fill m s n = (if n > 0 then strncpy_fill (m(s := 0)) (s + 1) (n - 1) else m)"
  by pat_completeness auto
termination
  by (relation "measure (\<lambda>(m, s, n). unat n)") (auto intro: measure_unat_pred)

definition strncpy :: "memory \<Rightarrow> addr \<Rightarrow> addr \<Rightarrow> u64 \<Rightarrow> memory" where
  "strncpy m s t n = (let (m', s', n') = strncpy_copy m s t n in strncpy_fill m' s' n')"

function safe_strncpy_copy :: "memory \<Rightarrow> addr \<Rightarrow> addr \<Rightarrow> u64 \<Rightarrow> memory \<times> addr" where
  "safe_strncpy_copy m s t n =
     (if n > 1 then
        let m' = m(s := m t)
        in if m t \<noteq> 0 then safe_strncpy_copy m' (s + 1) (t + 1) (n - 1) else (m', s + 1)
      else (m, s))"
  by pat_completeness auto
termination
  by (relation "measure (\<lambda>(m, s, t, n). unat n)") (auto intro: measure_unat_pred)

definition safe_strncpy :: "memory \<Rightarrow> addr \<Rightarrow> addr \<Rightarrow> u64 \<Rightarrow> memory" where
  "safe_strncpy m s t n =
     (if n = 0 then m else let (m', s') = safe_strncpy_copy m s t n in m'(s' := 0))"

fun copy_down :: "memory \<Rightarrow> addr \<Rightarrow> addr \<Rightarrow> nat \<Rightarrow> memory" where
  "copy_down m d s 0 = m"
| "copy_down m d s (Suc n) = copy_down (m(d - 1 := m (s - 1))) (d - 1) (s - 1) n"

fun copy_up :: "memory \<Rightarrow> addr \<Rightarrow> addr \<Rightarrow> nat \<Rightarrow> memory" where
  "copy_up m d s 0 = m"
| "copy_up m d s (Suc n) = copy_up (m(d := m s)) (d + 1) (s + 1) n"

definition memmove :: "memory \<Rightarrow> addr \<Rightarrow> addr \<Rightarrow> u64 \<Rightarrow> memory" where
  "memmove m dst src n =
     (if n = 0 then m
      else if src < dst \<and> src + n > dst then copy_down m (dst + n) (src + n) (unat n)
      else copy_up m dst src (unat n))"

definition memcpy :: "memory \<Rightarrow> addr \<Rightarrow> addr \<Rightarrow> u64 \<Rightarrow> memory" where
  "memcpy m dst src n = memmove m dst src n"

fun memchr_loop :: "memory \<Rightarrow> addr \<Rightarrow> int \<Rightarrow> nat \<Rightarrow> addr option" where
  "memchr_loop m p c 0 = None"
| "memchr_loop m p c (Suc n) = (if m p = of_int c then Some p else memchr_loop m (p + 1) c n)"

definition memchr :: "memory \<Rightarrow> addr \<Rightarrow> int \<Rightarrow> u64 \<Rightarrow> addr option" where
  "memchr m buffer c n = memchr_loop m buffer c (unat n)"

fun memcmp_loop :: "memory \<Rightarrow> addr \<Rightarrow> addr \<Rightarrow> nat \<Rightarrow> int" where
  "memcmp_loop m p q 0 = 0"
| "memcmp_loop m p q (Suc n) = (if m p \<noteq> m q then uint (m p) - uint (m q) else memcmp_loop m (p + 1) (q + 1) n)"

definition memcmp :: "memory \<Rightarrow> addr \<Rightarrow> addr \<Rightarrow> u64 \<Rightarrow> int" where
  "memcmp m p q n = memcmp_loop m p q (unat n)"

partial_function (option) strcmp :: "memory \<Rightarrow> addr \<Rightarrow> addr \<Rightarrow> int option" where
  "strcmp m p q =
     (if m p \<noteq> 0 \<and> m p = m q then strcmp m (p + 1) (q + 1) else Some (uint (m p) - uint (m q)))"

fun strncmp_loop :: "memory \<Rightarrow> addr \<Rightarrow> addr \<Rightarrow> nat \<Rightarrow> int" where
  "strncmp_loop m p q 0 = 0"
| "strncmp_loop m p q (Suc n) =
     (if m p \<noteq> 0 \<and> m p = m q then strncmp_loop m (p + 1) (q + 1) n else uint (m p) - uint (m q))"

definition strncmp :: "memory \<Rightarrow> addr \<Rightarrow> addr \<Rightarrow> u64 \<Rightarrow> int" where
  "strncmp m p q n = strncmp_loop m p q (unat n)"

partial_function (option) str_end :: "memory \<Rightarrow> addr \<Rightarrow> addr option" where
  "str_end m p = (if m p \<noteq> 0 then str_end m (p + 1) else Some p)"

partial_function (option) strcat_copy :: "memory \<Rightarrow> addr \<Rightarrow> addr \<Rightarrow> memory option" where
  "strcat_copy m p q = (if m q \<noteq> 0 then strcat_copy (m(p := m q)) (p + 1) (q + 1) else Some (m(p := 0)))"

definition strcat :: "memory \<Rightarrow> addr \<Rightarrow> addr \<Rightarrow> memory option" where
  "strcat m p q = Option.bind (str_end m p) (\<lambda>e. strcat_copy m e q)"

text \<open>\<^verbatim>\<open>strchr\<close> and \<^verbatim>\<open>strrchr\<close> return a pointer or null; the outer option is the loop that does not end.\<close>

partial_function (option) strchr :: "memory \<Rightarrow> addr \<Rightarrow> int \<Rightarrow> addr option option" where
  "strchr m p c =
     (if uint (m p) = c then Some (Some p) else if m p = 0 then Some None else strchr m (p + 1) c)"

function strrchr_back :: "memory \<Rightarrow> addr \<Rightarrow> addr \<Rightarrow> int \<Rightarrow> addr" where
  "strrchr_back m start p c =
     (if p > start \<and> uint (m p) \<noteq> c then strrchr_back m start (p - 1) c else p)"
  by pat_completeness auto
termination
  by (relation "measure (\<lambda>(m, start, p, c). unat p)") (auto intro: measure_unat_pred)

definition strrchr :: "memory \<Rightarrow> addr \<Rightarrow> int \<Rightarrow> addr option option" where
  "strrchr m p c = map_option (\<lambda>e. let b = strrchr_back m p e c
     in if b = p \<and> uint (m b) \<noteq> c then None else Some b) (str_end m p)"

function strnlen_loop :: "memory \<Rightarrow> addr \<Rightarrow> u64 \<Rightarrow> u64 \<Rightarrow> u64" where
  "strnlen_loop m s max_len len =
     (if len < max_len \<and> m (s + len) \<noteq> 0 then strnlen_loop m s max_len (len + 1) else len)"
  by pat_completeness auto
termination
  by (relation "measure (\<lambda>(m, s, max_len, len). unat (max_len - len))")
    (auto intro: measure_unat_diff)

definition strnlen :: "memory \<Rightarrow> addr \<Rightarrow> u64 \<Rightarrow> u64" where
  "strnlen m s max_len = strnlen_loop m s max_len 0"

fun byte_swap :: "memory \<Rightarrow> addr \<Rightarrow> addr \<Rightarrow> nat \<Rightarrow> memory" where
  "byte_swap m left right 0 = m"
| "byte_swap m left right (Suc n) =
     byte_swap (m(left := m right, right := m left)) (left + 1) (right + 1) n"

text \<open>\<^verbatim>\<open>qsort\<close>: \<open>cmp\<close> is the comparison function the caller passes; it reads the two elements in memory.\<close>

fun qsort_insert :: "(memory \<Rightarrow> addr \<Rightarrow> addr \<Rightarrow> int) \<Rightarrow> memory \<Rightarrow> addr \<Rightarrow> u64 \<Rightarrow> nat \<Rightarrow> memory" where
  "qsort_insert cmp m base sz 0 = m"
| "qsort_insert cmp m base sz (Suc j) =
     (if cmp m (base + of_nat j * sz) (base + of_nat (Suc j) * sz) > 0
      then qsort_insert cmp (byte_swap m (base + of_nat j * sz) (base + of_nat (Suc j) * sz) (unat sz))
             base sz j
      else m)"

definition qsort :: "(memory \<Rightarrow> addr \<Rightarrow> addr \<Rightarrow> int) \<Rightarrow> memory \<Rightarrow> addr \<Rightarrow> u64 \<Rightarrow> u64 \<Rightarrow> memory" where
  "qsort cmp m base n sz =
     (if base = 0 \<or> sz = 0 \<or> n < 2 then m
      else fold (\<lambda>i m. qsort_insert cmp m base sz i) [1..<unat n] m)"

text \<open>In \<^verbatim>\<open>atoi\<close> the value \<open>None\<close> also stands for the overflow of an \<^verbatim>\<open>int\<close>, which C leaves undefined.\<close>

partial_function (option) atoi_blank :: "memory \<Rightarrow> addr \<Rightarrow> addr option" where
  "atoi_blank m p = (if m p = 0x20 \<or> m p = 0x09 then atoi_blank m (p + 1) else Some p)"

partial_function (option) atoi_digits :: "memory \<Rightarrow> addr \<Rightarrow> int \<Rightarrow> int option" where
  "atoi_digits m p v =
     (if 0x30 \<le> m p \<and> m p \<le> 0x39
      then if v * 10 + uint (m p) > 0x7fffffff then None else atoi_digits m (p + 1) (v * 10 + uint (m p) - 48)
      else Some v)"

definition atoi :: "memory \<Rightarrow> addr \<Rightarrow> int option" where
  "atoi m s = Option.bind (atoi_blank m s) (\<lambda>p.
     let signed = (m p = 0x2d \<or> m p = 0x2b); negative = (m p = 0x2d)
     in map_option (\<lambda>v. if negative then - v else v) (atoi_digits m (if signed then p + 1 else p) 0))"

declare strlen_loop.simps [code] strcpy.simps [code] strcmp.simps [code] str_end.simps [code]
  strcat_copy.simps [code] strchr.simps [code] atoi_blank.simps [code] atoi_digits.simps [code]
  strncpy_copy.simps [simp del] strncpy_fill.simps [simp del] safe_strncpy_copy.simps [simp del]
  strrchr_back.simps [simp del] strnlen_loop.simps [simp del]

subsection \<open>Moving memory\<close>

text \<open>What a copy of \<open>n\<close> bytes should leave, whatever the overlap.\<close>

definition moved :: "memory \<Rightarrow> addr \<Rightarrow> addr \<Rightarrow> nat \<Rightarrow> memory" where
  "moved m d s n = (\<lambda>a. if unat (a - d) < n then m (s + (a - d)) else m a)"

lemma unat_pred_less:
  assumes "n < 2 ^ 64"
  shows "unat (x - 1 :: u64) < n \<longleftrightarrow> x \<noteq> 0 \<and> unat x < Suc n"
proof (cases "x = 0")
  case True
  have "unat (- 1 :: u64) = 2 ^ 64 - 1" by (simp add: unsigned_minus_1_eq_mask mask_eq_exp_minus_1)
  then show ?thesis using assms True by simp
next
  case False
  then show ?thesis using unat_minus_one [of x] unat_gt_0 [of x] by auto
qed

text \<open>A copy upwards is right when no byte is read after it was overwritten: the destination is not
  ahead of the source within the copied length. A copy downwards is its mirror image.\<close>

lemma copy_up_moved:
  assumes "d = s \<or> n \<le> unat (d - s)" "n \<le> 2 ^ 64"
  shows "copy_up m d s n = moved m d s n"
  using assms
proof (induction n arbitrary: m d s)
  case (Suc n)
  let ?m = "m(d := m s)"
  have n: "n < 2 ^ 64" using Suc.prems by simp
  have "copy_up ?m (d + 1) (s + 1) n = moved ?m (d + 1) (s + 1) n"
    using Suc.prems by (intro Suc.IH) auto
  moreover have "moved ?m (d + 1) (s + 1) n a = moved m d s (Suc n) a" for a
  proof -
    have lt: "unat (a - (d + 1)) < n \<longleftrightarrow> a \<noteq> d \<and> unat (a - d) < Suc n"
      using unat_pred_less [OF n, of "a - d"] by (simp add: diff_diff_eq)
    have "s + (a - d) \<noteq> d" if "a \<noteq> d" "unat (a - d) < Suc n"
    proof
      assume "s + (a - d) = d"
      then have "a - d = d - s" by (metis add_diff_cancel_left')
      then show False using Suc.prems(1) that by auto
    qed
    moreover have "s + 1 + (a - (d + 1)) = s + (a - d)" by simp
    ultimately show ?thesis unfolding moved_def lt by auto
  qed
  ultimately show ?case by auto
qed (simp add: moved_def)

lemma copy_down_moved:
  assumes "d = s \<or> n \<le> unat (s - d)" "n \<le> 2 ^ 64"
  shows "copy_down m (d + of_nat n) (s + of_nat n) n = moved m d s n"
  using assms
proof (induction n arbitrary: m)
  case (Suc n)
  let ?d = "d + of_nat n" and ?s = "s + of_nat n"
  let ?m = "m(?d := m ?s)"
  have n: "n < 2 ^ 64" using Suc.prems by simp
  then have un: "unat (of_nat n :: u64) = n" by (simp add: unat_of_nat)
  have "copy_down m (d + of_nat (Suc n)) (s + of_nat (Suc n)) (Suc n) = copy_down ?m ?d ?s n"
    by simp
  also have "\<dots> = moved ?m d s n" using Suc.prems by (intro Suc.IH) auto
  also have "\<dots> = moved m d s (Suc n)"
  proof
    fix a
    have "s + (a - d) \<noteq> ?d" if "unat (a - d) < n"
    proof
      assume "s + (a - d) = ?d"
      then have e: "s - d = of_nat n - (a - d)" by (simp add: algebra_simps)
      have "a - d \<le> of_nat n" using that un by (simp add: word_le_nat_alt)
      then have "unat (s - d) = n - unat (a - d)" unfolding e by (simp add: unat_sub un)
      then show False using Suc.prems(1) that by auto
    qed
    moreover have "unat (a - d) < Suc n \<longleftrightarrow> unat (a - d) < n \<or> a = ?d"
    proof -
      have "unat (a - d) = n \<longleftrightarrow> a - d = of_nat n" using un unsigned_word_eqI by metis
      then show ?thesis by (auto simp: less_Suc_eq diff_eq_eq add.commute)
    qed
    moreover have "\<not> unat (?d - d) < n" using un by simp
    ultimately show "moved ?m d s n a = moved m d s (Suc n) a" unfolding moved_def by auto
  qed
  finally show ?case .
qed (simp add: moved_def)

lemma memmove_moved:
  assumes "unat src + unat n < 2 ^ 64" "unat dst + unat n \<le> 2 ^ 64"
  shows "memmove m dst src n = moved m dst src (unat n)"
proof -
  have sn: "unat (src + n) = unat src + unat n" using assms by (intro unat_add_no_overflow) simp
  consider "n = 0" | "n \<noteq> 0" "src < dst" "src + n > dst" | "n \<noteq> 0" "\<not> (src < dst \<and> src + n > dst)" by blast
  then show ?thesis
  proof cases
    case 1
    then show ?thesis by (simp add: memmove_def moved_def)
  next
    case 2
    have "unat (src - dst) = 2 ^ 64 - (unat dst - unat src)"
      using 2 by (simp add: unat_sub_if' word_less_nat_alt)
    then have "unat n \<le> unat (src - dst)" using assms by simp
    then have "copy_down m (dst + of_nat (unat n)) (src + of_nat (unat n)) (unat n) = moved m dst src (unat n)"
      by (intro copy_down_moved) (simp_all add: less_imp_le unat64_less)
    then show ?thesis using 2 by (simp add: memmove_def)
  next
    case 3
    have "dst = src \<or> unat n \<le> unat (dst - src)"
    proof (cases "src < dst")
      case True
      then have "src + n \<le> dst" using 3 by (simp add: not_less)
      then have "unat src + unat n \<le> unat dst" by (simp add: word_le_nat_alt sn)
      moreover have "unat (dst - src) = unat dst - unat src" using True by (simp add: unat_sub less_imp_le)
      ultimately show ?thesis by linarith
    next
      case False
      then have "unat dst \<le> unat src" by (simp add: not_less word_le_nat_alt)
      then show ?thesis
        using assms by (cases "unat dst = unat src") (auto simp: unat_sub_if' intro: unsigned_word_eqI)
    qed
    then have "copy_up m dst src (unat n) = moved m dst src (unat n)" by (intro copy_up_moved) (simp_all add: less_imp_le unat64_less)
    then show ?thesis using 3 by (auto simp: memmove_def)
  qed
qed

subsection \<open>Strings in memory\<close>

text \<open>The C string \<open>cs\<close> (without its NUL) stands at \<open>s\<close>; it is shorter than the address space.\<close>

definition cstring :: "memory \<Rightarrow> addr \<Rightarrow> u8 list \<Rightarrow> bool" where
  "cstring m s cs \<longleftrightarrow> length cs < 2 ^ 64 \<and> 0 \<notin> set cs \<and>
     (\<forall>i<length cs. m (s + of_nat i) = cs ! i) \<and> m (s + of_nat (length cs)) = 0"

lemma cstring_Nil: "cstring m s [] \<longleftrightarrow> m s = 0"
  by (simp add: cstring_def)

lemma cstring_Cons: "cstring m s (c # cs) \<longleftrightarrow> length cs < 2 ^ 64 - 1 \<and> c \<noteq> 0 \<and> m s = c \<and> cstring m (s + 1) cs"
  by (auto simp: cstring_def nth_Cons' less_Suc_eq_0_disj algebra_simps)

lemma strlen_loop_cstring: "cstring m s cs \<Longrightarrow> strlen_loop m s = Some (s + of_nat (length cs) + 1)"
  by (induction cs arbitrary: s)
    (auto simp: cstring_Nil cstring_Cons strlen_loop.simps algebra_simps)

lemma str_end_cstring: "cstring m s cs \<Longrightarrow> str_end m s = Some (s + of_nat (length cs))"
  by (induction cs arbitrary: s) (auto simp: cstring_Nil cstring_Cons str_end.simps algebra_simps)

lemma strlen_cstring: "cstring m s cs \<Longrightarrow> strlen m s = Some (of_nat (length cs))"
  by (simp add: strlen_def strlen_loop_cstring)

lemma strcmp_cstring:
  assumes "cstring m p cs" "cstring m q ds"
  shows "\<exists>d. strcmp m p q = Some d \<and> (d = 0 \<longleftrightarrow> cs = ds) \<and>
     (d < 0 \<longleftrightarrow> (cs, ds) \<in> lexord {(x, y). x < y})"
  using assms
proof (induction cs arbitrary: p q ds)
  case Nil
  then show ?case
    by (cases ds) (auto simp: cstring_Nil cstring_Cons strcmp.simps uint_pos uint_0_iff)
next
  case (Cons c cs)
  show ?case
  proof (cases ds)
    case Nil
    then show ?thesis using Cons.prems by (auto simp: cstring_Nil cstring_Cons strcmp.simps uint_0_iff)
  next
    case (Cons e es)
    show ?thesis
    proof (cases "c = e")
      case True
      then have "strcmp m p q = strcmp m (p + 1) (q + 1)"
        using Cons.prems Cons by (simp add: cstring_Cons strcmp.simps [of m p q])
      then show ?thesis
        using Cons.IH [of "p + 1" "q + 1" es] Cons.prems Cons True by (auto simp: cstring_Cons)
    next
      case False
      then have "strcmp m p q = Some (uint c - uint e)"
        using Cons.prems Cons by (simp add: cstring_Cons strcmp.simps [of m p q])
      then show ?thesis using False Cons by (auto simp: word_less_def word_uint_eq_iff)
    qed
  qed
qed

lemma cstring_stop: "cstring m s cs \<Longrightarrow> unat i = length cs \<Longrightarrow> m (s + i) = 0"
proof -
  assume "cstring m s cs" "unat i = length cs"
  then have "m (s + of_nat (unat i)) = 0" by (simp only: cstring_def)
  then show ?thesis by simp
qed

lemma cstring_go: "cstring m s cs \<Longrightarrow> unat i < length cs \<Longrightarrow> m (s + i) \<noteq> 0"
proof -
  assume "cstring m s cs" "unat i < length cs"
  then have "m (s + of_nat (unat i)) = cs ! unat i" "cs ! unat i \<noteq> 0"
    unfolding cstring_def by (auto dest: nth_mem)
  then show ?thesis by simp
qed

lemma strnlen_loop_spec:
  assumes "cstring m s cs" "unat len \<le> length cs" "len \<le> max_len"
  shows "unat (strnlen_loop m s max_len len) = min (unat max_len) (length cs)"
  using assms
proof (induction m s max_len len rule: strnlen_loop.induct)
  case (1 m s max_len len)
  show ?case
  proof (cases "len < max_len \<and> m (s + len) \<noteq> 0")
    case True
    have "unat len \<noteq> length cs" using cstring_stop [OF 1(2)] True by auto
    moreover have "unat (len + 1) = unat len + 1"
      using unat_inc [of len max_len] True by simp
    ultimately have "unat (strnlen_loop m s max_len (len + 1)) = min (unat max_len) (length cs)"
      using 1(2-4) True by (intro 1(1)) (auto simp: word_le_nat_alt word_less_nat_alt)
    then show ?thesis using True by (subst strnlen_loop.simps) simp
  next
    case False
    then have eq: "strnlen_loop m s max_len len = len" by (subst strnlen_loop.simps) auto
    show ?thesis
    proof (cases "len < max_len")
      case True
      then have "m (s + len) = 0" using False by simp
      then have "unat len = length cs" using cstring_go [OF 1(2)] 1(3) by (cases "unat len < length cs") auto
      then show ?thesis using eq True by (simp add: word_less_nat_alt)
    next
      case False
      then have "len = max_len" using 1(4) by simp
      then show ?thesis using eq 1(3) by simp
    qed
  qed
qed

subsection \<open>Copying strings\<close>

text \<open>The bytes from \<open>s\<close> on that a copy of at most \<open>n\<close> bytes may touch.\<close>

definition in_buf :: "addr \<Rightarrow> nat \<Rightarrow> addr \<Rightarrow> bool" where
  "in_buf s n a \<longleftrightarrow> unat (a - s) < n"

lemma in_buf_zero [simp]: "\<not> in_buf s 0 a"
  by (simp add: in_buf_def)

lemma in_buf_Suc: "n < 2 ^ 64 \<Longrightarrow> in_buf s (Suc n) a \<longleftrightarrow> a = s \<or> in_buf (s + 1) n a"
  using unat_pred_less [of n "a - s"] by (auto simp: in_buf_def diff_diff_eq)

lemma in_buf_start: "in_buf s (Suc n) s"
  by (simp add: in_buf_def)

lemma start_notin_buf: "n < 2 ^ 64 \<Longrightarrow> \<not> in_buf (s + 1) n s"
  by (simp add: in_buf_def unsigned_minus_1_eq_mask mask_eq_exp_minus_1)

text \<open>\<^verbatim>\<open>safe_strncpy\<close> with room for \<open>n\<close> bytes: the source string lies outside of the buffer.\<close>

lemma cstring_cong:
  "cstring m s cs \<Longrightarrow> (\<And>i. i \<le> length cs \<Longrightarrow> m' (s + of_nat i) = m (s + of_nat i)) \<Longrightarrow> cstring m' s cs"
  by (auto simp: cstring_def)

lemma cstring_step:
  assumes "cstring m t (c # cs)" "\<And>i. i \<le> length (c # cs) \<Longrightarrow> \<not> in_buf s (Suc n) (t + of_nat i)"
    "n < 2 ^ 64"
  shows "cstring (m(s := v)) (t + 1) cs" "\<And>i. i \<le> length cs \<Longrightarrow> \<not> in_buf (s + 1) n (t + 1 + of_nat i)"
proof -
  have A: "t + 1 + of_nat i \<noteq> s \<and> \<not> in_buf (s + 1) n (t + 1 + of_nat i)" if "i \<le> length cs" for i
    using assms(2) [of "Suc i"] that in_buf_Suc [OF assms(3), of s "t + of_nat (Suc i)"]
    by (simp add: algebra_simps)
  then show "\<And>i. i \<le> length cs \<Longrightarrow> \<not> in_buf (s + 1) n (t + 1 + of_nat i)" by blast
  have "cstring m (t + 1) cs" using assms(1) by (simp add: cstring_Cons)
  then show "cstring (m(s := v)) (t + 1) cs"
    by (rule cstring_cong) (use A in auto)
qed

lemma safe_strncpy_spec:
  assumes "cstring m t cs" "\<And>i. i \<le> length cs \<Longrightarrow> \<not> in_buf s (unat n) (t + of_nat i)" "n \<noteq> 0"
  shows "cstring (safe_strncpy m s t n) s (take (unat n - 1) cs) \<and>
         (\<forall>a. \<not> in_buf s (unat n) a \<longrightarrow> safe_strncpy m s t n a = m a)"
  using assms
proof (induction "unat n" arbitrary: m s t n cs)
  case 0
  then show ?case by (simp add: unat_eq_0)
next
  case (Suc k)
  have "k < 18446744073709551616" using Suc.hyps(2) unat64_less [of n] by linarith
  then have k: "k < 2 ^ 64" by simp
  have n: "unat n = Suc k" using Suc.hyps(2) by simp
  show ?case
  proof (cases "n > 1")
    case False
    then have "n = 1" using Suc.prems(3) by (metis linorder_less_linear word_less_1 not_less)
    then show ?thesis
      by (auto simp: safe_strncpy_def safe_strncpy_copy.simps cstring_Nil in_buf_def)
  next
    case True
    have n1: "unat (n - 1) = k" using n Suc.prems(3) by (simp add: unat_minus_one)
    have n10: "n - 1 \<noteq> 0" using True by auto
    then have k0: "k \<noteq> 0" using n1 by (metis unat_eq_0)
    show ?thesis
    proof (cases cs)
      case Nil
      then have m0: "m t = 0" using Suc.prems(1) by (simp add: cstring_Nil)
      have "safe_strncpy m s t n = m(s := 0, s + 1 := 0)"
        using True m0 Suc.prems(3) by (simp add: safe_strncpy_def safe_strncpy_copy.simps [of m s t n])
      moreover have "in_buf s (Suc k) (s + 1)" "in_buf s (Suc k) s"
        using k0 by (simp_all add: in_buf_def)
      ultimately show ?thesis using Nil n by (auto simp: cstring_Nil)
    next
      case (Cons c ds)
      let ?m = "m(s := c)"
      have m: "m t = c" "c \<noteq> 0" using Suc.prems(1) Cons by (simp_all add: cstring_Cons)
      have pre: "\<And>i. i \<le> length (c # ds) \<Longrightarrow> \<not> in_buf s (Suc k) (t + of_nat i)"
        using Suc.prems(2) Cons n by simp
      note st = cstring_step [OF Suc.prems(1) [unfolded Cons] pre k]
      have IH: "cstring (safe_strncpy ?m (s + 1) (t + 1) (n - 1)) (s + 1) (take (unat (n - 1) - 1) ds) \<and>
          (\<forall>a. \<not> in_buf (s + 1) (unat (n - 1)) a \<longrightarrow> safe_strncpy ?m (s + 1) (t + 1) (n - 1) a = ?m a)"
        by (rule Suc.hyps(1)) (use n1 n10 st in simp_all)
      have "safe_strncpy m s t n = safe_strncpy ?m (s + 1) (t + 1) (n - 1)"
        using True m n10 Suc.prems(3) by (simp add: safe_strncpy_def safe_strncpy_copy.simps [of m s t n])
      moreover have "safe_strncpy ?m (s + 1) (t + 1) (n - 1) s = c"
        using IH start_notin_buf [OF k] n1 by auto
      moreover have "take (unat n - 1) cs = c # take (unat (n - 1) - 1) ds" using n n1 k0 Cons by (cases k) auto
      moreover have "length (take (unat (n - 1) - 1) ds) < 2 ^ 64 - 1" using n1 k k0 by simp
      ultimately show ?thesis
        using IH m n n1 in_buf_Suc [OF k, of s] by (auto simp: cstring_Cons)
    qed
  qed
qed

lemma unat_SucD:
  assumes "unat (n :: u64) = Suc k"
  shows "n \<noteq> 0" "n > 0" "unat (n - 1) = k" "k < 2 ^ 64"
proof -
  show n: "n \<noteq> 0" using assms by auto
  then show "n > 0" by (simp add: word_neq_0_conv)
  show "unat (n - 1) = k" using unat_minus_one [OF n] assms by simp
  have "k < 18446744073709551616" using assms unat64_less [of n] by linarith
  then show "k < 2 ^ 64" by simp
qed

lemma strncpy_fill_zero: "strncpy_fill m s n = (\<lambda>a. if in_buf s (unat n) a then 0 else m a)"
proof (induction "unat n" arbitrary: m s n)
  case 0
  then have "n = 0" by (simp add: unat_eq_0)
  then show ?case by (subst strncpy_fill.simps) simp
next
  case (Suc k)
  note n = unat_SucD [OF Suc.hyps(2) [symmetric]] and k = unat_SucD(4) [OF Suc.hyps(2) [symmetric]]
  then have "strncpy_fill m s n = strncpy_fill (m(s := 0)) (s + 1) (n - 1)"
    by (subst strncpy_fill.simps) simp
  then show ?case
    using Suc.hyps(1) [of "n - 1" "m(s := 0)" "s + 1"] n in_buf_Suc [OF k, of s] Suc.hyps(2) by auto
qed

text \<open>The copying loop on a source that is shorter than \<open>n\<close>, and on one that is not.\<close>

lemma strncpy_copy_short:
  assumes "cstring m t cs" "\<And>i. i \<le> length cs \<Longrightarrow> \<not> in_buf s (unat n) (t + of_nat i)" "length cs < unat n"
  shows "\<exists>m'. strncpy_copy m s t n = (m', s + of_nat (length cs) + 1, n - of_nat (length cs) - 1) \<and>
     cstring m' s cs \<and> (\<forall>a. \<not> in_buf s (length cs + 1) a \<longrightarrow> m' a = m a)"
  using assms
proof (induction cs arbitrary: m s t n)
  case Nil
  then have "n > 0" "m t = 0" by (auto simp: cstring_Nil word_gt_0 unat_gt_0)
  then show ?case by (subst strncpy_copy.simps) (auto simp: cstring_Nil in_buf_def)
next
  case (Cons c cs)
  obtain k where k: "unat n = Suc k" using Cons.prems(3) by (cases "unat n") auto
  note n1 = unat_SucD [OF k] and k64 = unat_SucD(4) [OF k]
  let ?m = "m(s := c)"
  have m: "m t = c" "c \<noteq> 0" using Cons.prems(1) by (simp_all add: cstring_Cons)
  have pre: "\<And>i. i \<le> length (c # cs) \<Longrightarrow> \<not> in_buf s (Suc k) (t + of_nat i)" using Cons.prems(2) k by simp
  note st = cstring_step [OF Cons.prems(1) pre k64]
  have "\<exists>m'. strncpy_copy ?m (s + 1) (t + 1) (n - 1) =
        (m', s + 1 + of_nat (length cs) + 1, n - 1 - of_nat (length cs) - 1) \<and>
      cstring m' (s + 1) cs \<and> (\<forall>a. \<not> in_buf (s + 1) (length cs + 1) a \<longrightarrow> m' a = ?m a)"
    by (rule Cons.IH [OF st(1)]) (use st(2) n1 Cons.prems(3) k in simp_all)
  then obtain m' where m': "strncpy_copy ?m (s + 1) (t + 1) (n - 1) =
        (m', s + 1 + of_nat (length cs) + 1, n - 1 - of_nat (length cs) - 1)"
      "cstring m' (s + 1) cs" "\<forall>a. \<not> in_buf (s + 1) (length cs + 1) a \<longrightarrow> m' a = ?m a" by blast
  have len: "length cs + 1 < 2 ^ 64" using Cons.prems(3) k k64 by simp
  have "m' s = c" using m'(3) start_notin_buf [OF len] by simp
  moreover have "strncpy_copy m s t n = strncpy_copy ?m (s + 1) (t + 1) (n - 1)"
    using n1 m by (subst strncpy_copy.simps) simp
  ultimately show ?case
    using m' m in_buf_Suc [OF len, of s] len by (auto simp: cstring_Cons algebra_simps)
qed

lemma strncpy_copy_long:
  assumes "cstring m t cs" "\<And>i. i \<le> length cs \<Longrightarrow> \<not> in_buf s (unat n) (t + of_nat i)" "unat n \<le> length cs"
  shows "\<exists>m'. strncpy_copy m s t n = (m', s + n, - 1)"
  using assms
proof (induction "unat n" arbitrary: m s t n cs)
  case 0
  then have "n = 0" by (simp add: unat_eq_0)
  then show ?case by (subst strncpy_copy.simps) simp
next
  case (Suc k)
  note n1 = unat_SucD [OF Suc.hyps(2) [symmetric]] and k64 = unat_SucD(4) [OF Suc.hyps(2) [symmetric]]
  obtain c ds where cs: "cs = c # ds" using Suc.hyps(2) Suc.prems(3) by (cases cs) auto
  have m: "m t = c" "c \<noteq> 0" using Suc.prems(1) cs by (simp_all add: cstring_Cons)
  have pre: "\<And>i. i \<le> length (c # ds) \<Longrightarrow> \<not> in_buf s (Suc k) (t + of_nat i)"
    using Suc.prems(2) Suc.hyps(2) cs by simp
  note st = cstring_step [OF Suc.prems(1) [unfolded cs] pre k64]
  have "\<exists>m'. strncpy_copy (m(s := c)) (s + 1) (t + 1) (n - 1) = (m', s + 1 + (n - 1), - 1)"
    by (rule Suc.hyps(1) [of _ _ _ ds]) (use st n1 Suc.prems(3) Suc.hyps(2) cs in simp_all)
  moreover have "strncpy_copy m s t n = strncpy_copy (m(s := c)) (s + 1) (t + 1) (n - 1)"
    using n1 m by (subst strncpy_copy.simps) simp
  ultimately show ?case by simp
qed

lemma strncpy_long:
  assumes "cstring m t cs" "\<And>i. i \<le> length cs \<Longrightarrow> \<not> in_buf s (unat n) (t + of_nat i)" "unat n \<le> length cs"
    "a \<noteq> s + n - 1"
  shows "strncpy m s t n a = 0"
proof -
  obtain m' where c: "strncpy_copy m s t n = (m', s + n, - 1)" using strncpy_copy_long [OF assms(1-3)] by blast
  have "unat (- 1 :: u64) = 18446744073709551615" by (simp add: unsigned_minus_1_eq_mask mask_eq_exp_minus_1)
  moreover have "a - (s + n) \<noteq> - 1" using assms(4) by (metis diff_add_cancel uminus_add_conv_diff add.commute)
  then have "unat (a - (s + n)) \<noteq> unat (- 1 :: u64)" by (metis unsigned_word_eqI)
  ultimately have "in_buf (s + n) (unat (- 1 :: u64)) a"
    unfolding in_buf_def using unat64_less [of "a - (s + n)"] by linarith
  then show ?thesis by (simp add: strncpy_def c strncpy_fill_zero)
qed

lemma in_buf_split:
  assumes "k \<le> n" "n \<le> 2 ^ 64"
  shows "in_buf (s + of_nat k) (n - k) a \<longleftrightarrow> in_buf s n a \<and> \<not> in_buf s k a"
proof (cases "k < 2 ^ 64")
  case True
  then have k: "unat (of_nat k :: u64) = k" by (simp add: unat_of_nat)
  define x where "x = a - s"
  have x: "unat x < 18446744073709551616" by (rule unat64_less)
  have e: "a - (s + of_nat k) = x - of_nat k" by (simp add: x_def)
  have "unat (x - of_nat k) = (if k \<le> unat x then unat x - k else unat x + 2 ^ 64 - k)"
    unfolding unat_sub_if' k by simp
  then show ?thesis using assms x unfolding in_buf_def e x_def [symmetric] by auto
next
  case False
  then have "k = n" using assms by simp
  then show ?thesis by auto
qed

lemma strncpy_short:
  assumes "cstring m t cs" "\<And>i. i \<le> length cs \<Longrightarrow> \<not> in_buf s (unat n) (t + of_nat i)" "length cs < unat n"
  shows "(\<forall>i<length cs. strncpy m s t n (s + of_nat i) = cs ! i) \<and>
    (\<forall>a. in_buf (s + of_nat (length cs)) (unat n - length cs) a \<longrightarrow> strncpy m s t n a = 0) \<and>
    (\<forall>a. \<not> in_buf s (unat n) a \<longrightarrow> strncpy m s t n a = m a)"
proof -
  let ?L = "length cs"
  obtain m' where c: "strncpy_copy m s t n = (m', s + of_nat ?L + 1, n - of_nat ?L - 1)" and s: "cstring m' s cs"
    and fr: "\<forall>a. \<not> in_buf s (?L + 1) a \<longrightarrow> m' a = m a"
    using strncpy_copy_short [OF assms] by blast
  have n64: "unat n \<le> 2 ^ 64" "?L + 1 < 2 ^ 64" using unat64_less [of n] assms(3) by simp_all
  have L: "unat (of_nat i :: u64) = i" if "i \<le> ?L + 1" for i using that n64 by (simp add: unat_of_nat)
  have "n - of_nat ?L - 1 = n - of_nat (?L + 1)" by simp
  then have un: "unat (n - of_nat ?L - 1) = unat n - (?L + 1)"
    using L [of "?L + 1"] assms(3) by (simp only: unat_sub_if') simp
  have e: "strncpy m s t n a = (if in_buf s (unat n) a \<and> \<not> in_buf s (?L + 1) a then 0 else m' a)" for a
    using in_buf_split [of "?L + 1" "unat n" s a] assms(3) n64
    by (simp add: strncpy_def c strncpy_fill_zero un ac_simps)
  have at: "in_buf s (?L + 1) (s + of_nat i)" if "i \<le> ?L" for i using L [of i] that by (simp add: in_buf_def)
  have "strncpy m s t n (s + of_nat i) = cs ! i" if "i < ?L" for i
    using e at [of i] s that by (simp add: cstring_def)
  moreover have "strncpy m s t n a = 0" if "in_buf (s + of_nat ?L) (unat n - ?L) a" for a
  proof -
    have a: "in_buf s (unat n) a" "\<not> in_buf s ?L a" using in_buf_split [of ?L "unat n" s a] assms(3) n64 that by simp_all
    show ?thesis
    proof (cases "in_buf s (?L + 1) a")
      case True
      then have "unat (a - s) = unat (of_nat ?L :: u64)" using a(2) L [of ?L] by (simp add: in_buf_def)
      then have "a - s = of_nat ?L" by (rule unsigned_word_eqI)
      then have "a = s + of_nat ?L" by (metis add.commute diff_add_cancel)
      then show ?thesis using e True s by (simp add: cstring_def)
    qed (simp add: e a)
  qed
  moreover have "strncpy m s t n a = m a" if "\<not> in_buf s (unat n) a" for a
    using e fr that assms(3) by (auto simp: in_buf_def)
  ultimately show ?thesis by blast
qed

subsection \<open>Sorting\<close>

text \<open>The insertion loop of \<^verbatim>\<open>qsort\<close> on a list: the element at index \<open>j\<close> sinks towards the front.\<close>

fun sink :: "('a \<Rightarrow> 'a \<Rightarrow> int) \<Rightarrow> 'a list \<Rightarrow> nat \<Rightarrow> 'a list" where
  "sink c xs 0 = xs"
| "sink c xs (Suc j) = (if c (xs ! j) (xs ! Suc j) > 0 then sink c (xs[j := xs ! Suc j, Suc j := xs ! j]) j else xs)"

text \<open>What \<^verbatim>\<open>qsort\<close> relies on: \<open>compare(x, y) <= 0\<close> is a total preorder.\<close>

definition comparator :: "('a \<Rightarrow> 'a \<Rightarrow> int) \<Rightarrow> bool" where
  "comparator c \<longleftrightarrow> (\<forall>x y. c x y > 0 \<longrightarrow> c y x \<le> 0) \<and> (\<forall>x y z. c x y \<le> 0 \<longrightarrow> c y z \<le> 0 \<longrightarrow> c x z \<le> 0)"

abbreviation ordered :: "('a \<Rightarrow> 'a \<Rightarrow> int) \<Rightarrow> 'a list \<Rightarrow> bool" where
  "ordered c xs \<equiv> sorted_wrt (\<lambda>x y. c x y \<le> 0) xs"

lemma sink_spec:
  assumes c: "comparator c" and "ordered c (us @ vs)" "\<forall>v\<in>set vs. c x v \<le> 0"
  shows "\<exists>ps qs. us = ps @ qs \<and> sink c (us @ x # vs @ rest) (length us) = ps @ x # qs @ vs @ rest \<and>
     ordered c (ps @ x # qs @ vs)"
  using assms(2,3)
proof (induction us arbitrary: vs rule: rev_induct)
  case Nil
  then show ?case by simp
next
  case (snoc u ws)
  show ?case
  proof (cases "c u x > 0")
    case True
    then have xu: "c x u \<le> 0" using c by (auto simp: comparator_def)
    have sw: "(ws @ u # x # vs @ rest)[length ws := x, Suc (length ws) := u] = ws @ x # (u # vs) @ rest"
      by (simp add: list_update_append)
    have "\<exists>ps qs. ws = ps @ qs \<and> sink c (ws @ x # (u # vs) @ rest) (length ws) = ps @ x # qs @ (u # vs) @ rest \<and>
        ordered c (ps @ x # qs @ u # vs)"
      using snoc.prems xu by (intro snoc.IH) auto
    then obtain ps qs where "ws = ps @ qs" "sink c (ws @ x # (u # vs) @ rest) (length ws) = ps @ x # qs @ (u # vs) @ rest"
      "ordered c (ps @ x # qs @ u # vs)" by blast
    then show ?thesis
      using True sw by (intro exI [of _ ps] exI [of _ "qs @ [u]"]) (simp add: nth_append)
  next
    case False
    then have "c u x \<le> 0" by simp
    moreover have "c w x \<le> 0" if "w \<in> set ws" for w
    proof -
      have "c w u \<le> 0" using snoc.prems(1) that by (simp add: sorted_wrt_append)
      then show ?thesis using c \<open>c u x \<le> 0\<close> unfolding comparator_def by blast
    qed
    ultimately have "ordered c ((ws @ [u]) @ x # [] @ vs)"
      using snoc.prems by (auto simp: sorted_wrt_append)
    then show ?thesis
      using False by (intro exI [of _ "ws @ [u]"] exI [of _ "[]"]) (simp add: nth_append)
  qed
qed

lemma sink_sorts:
  assumes "comparator c" "i < length xs" "ordered c (take i xs)"
  shows "mset (sink c xs i) = mset xs" "length (sink c xs i) = length xs" "ordered c (take (Suc i) (sink c xs i))"
proof -
  let ?us = "take i xs" and ?x = "xs ! i" and ?r = "drop (Suc i) xs"
  have xs: "?us @ ?x # [] @ ?r = xs" using assms(2) by (simp add: id_take_nth_drop [symmetric])
  have len: "length ?us = i" using assms(2) by simp
  obtain ps qs where s: "?us = ps @ qs" "sink c (?us @ ?x # [] @ ?r) (length ?us) = ps @ ?x # qs @ [] @ ?r"
    "ordered c (ps @ ?x # qs @ [])"
    using sink_spec [OF assms(1), of ?us "[]" ?x ?r] assms(3) unfolding append_Nil2 by fastforce
  have e: "sink c xs i = ps @ ?x # qs @ ?r" using s(2) unfolding xs len by simp
  have l: "length ps + length qs = i" using arg_cong [OF s(1), of length] len by simp
  show "mset (sink c xs i) = mset xs"
    using arg_cong [OF xs, of mset] arg_cong [OF s(1), of mset] by (simp add: e add.assoc)
  then show "length (sink c xs i) = length xs" by (metis size_mset)
  have "take (Suc i) (sink c xs i) = ps @ ?x # qs" using l by (simp add: e take_Cons')
  then show "ordered c (take (Suc i) (sink c xs i))" using s(3) by simp
qed

lemma fold_sink_sorts:
  assumes "comparator c" "1 \<le> n" "n \<le> length xs"
  shows "mset (fold (\<lambda>i xs. sink c xs i) [1..<n] xs) = mset xs \<and>
         length (fold (\<lambda>i xs. sink c xs i) [1..<n] xs) = length xs \<and>
         ordered c (take n (fold (\<lambda>i xs. sink c xs i) [1..<n] xs))"
  using assms(2,3)
proof (induction n rule: dec_induct)
  case base
  then show ?case by (cases xs) auto
next
  case (step n)
  let ?ys = "fold (\<lambda>i xs. sink c xs i) [1..<n] xs"
  have IH: "mset ?ys = mset xs \<and> length ?ys = length xs \<and> ordered c (take n ?ys)" using step by simp
  have "n < length ?ys" using IH step.prems by simp
  moreover have "[1..<Suc n] = [1..<n] @ [n]" using step.hyps by simp
  ultimately show ?case using sink_sorts [OF assms(1), of n ?ys] IH by simp
qed

text \<open>The elements in memory.\<close>

definition elem_at :: "memory \<Rightarrow> addr \<Rightarrow> u64 \<Rightarrow> u8 list" where
  "elem_at m p sz = map (\<lambda>k. m (p + of_nat k)) [0..<unat sz]"

definition array_at :: "memory \<Rightarrow> addr \<Rightarrow> u64 \<Rightarrow> nat \<Rightarrow> u8 list list" where
  "array_at m base sz n = map (\<lambda>i. elem_at m (base + of_nat i * sz) sz) [0..<n]"

lemma off_inj:
  assumes "x < 2 ^ 64" "y < 2 ^ 64"
  shows "base + of_nat x = base + (of_nat y :: u64) \<longleftrightarrow> x = y"
proof -
  have "unat (of_nat x :: u64) = x" "unat (of_nat y :: u64) = y" using assms by (simp_all add: unat_of_nat)
  then show ?thesis by (metis add_left_cancel)
qed

lemma byte_swap_off:
  assumes "x + n \<le> y" "y + n \<le> N" "N \<le> 2 ^ 64" "z < N"
  shows "byte_swap m (base + of_nat x) (base + of_nat y) n (base + of_nat z) =
    (if x \<le> z \<and> z < x + n then m (base + of_nat (y + (z - x)))
     else if y \<le> z \<and> z < y + n then m (base + of_nat (x + (z - y))) else m (base + of_nat z))"
proof -
  define R where "R m w = m (base + of_nat w)" for m :: memory and w
  have "R (byte_swap m (base + of_nat x) (base + of_nat y) n) z =
    (if x \<le> z \<and> z < x + n then R m (y + (z - x)) else if y \<le> z \<and> z < y + n then R m (x + (z - y)) else R m z)"
    using assms(1,2)
  proof (induction n arbitrary: m x y)
    case (Suc n)
    define m' where "m' = m(base + of_nat x := m (base + of_nat y), base + of_nat y := m (base + of_nat x))"
    have rd: "R m' w = (if w = y then R m x else if w = x then R m y else R m w)" if "w < N" for w
      using off_inj [of w x base] off_inj [of w y base] that Suc.prems assms(3) by (auto simp: m'_def R_def)
    have "byte_swap m (base + of_nat x) (base + of_nat y) (Suc n) =
        byte_swap m' (base + of_nat (Suc x)) (base + of_nat (Suc y)) n"
      by (simp add: algebra_simps m'_def)
    moreover have "R (byte_swap m' (base + of_nat (Suc x)) (base + of_nat (Suc y)) n) z =
      (if Suc x \<le> z \<and> z < Suc x + n then R m' (Suc y + (z - Suc x))
       else if Suc y \<le> z \<and> z < Suc y + n then R m' (Suc x + (z - Suc y)) else R m' z)"
      by (rule Suc.IH) (use Suc.prems in simp_all)
    moreover have "R m' (Suc y + (z - Suc x)) = R m (y + (z - x))" if "Suc x \<le> z" "z < Suc x + n"
    proof -
      have "Suc y + (z - Suc x) = y + (z - x)" "y + (z - x) < N" "y + (z - x) \<noteq> y" "y + (z - x) \<noteq> x"
        using that Suc.prems by linarith+
      then show ?thesis using rd [of "y + (z - x)"] by (simp only: simp_thms if_False)
    qed
    moreover have "R m' (Suc x + (z - Suc y)) = R m (x + (z - y))" if "Suc y \<le> z" "z < Suc y + n"
    proof -
      have "Suc x + (z - Suc y) = x + (z - y)" "x + (z - y) < N" "x + (z - y) \<noteq> y" "x + (z - y) \<noteq> x"
        using that Suc.prems by linarith+
      then show ?thesis using rd [of "x + (z - y)"] by (simp only: simp_thms if_False)
    qed
    ultimately show ?case
      using rd [OF assms(4)] Suc.prems by (cases "z = x"; cases "z = y") auto
  qed auto
  then show ?thesis by (simp only: R_def)
qed

lemma elem_at_off:
  "elem_at m (base + of_nat i * sz) sz = map (\<lambda>k. m (base + of_nat (i * unat sz + k))) [0..<unat sz]"
  by (simp add: elem_at_def add.assoc)

lemma elem_at_swap:
  assumes fit: "n * unat sz \<le> 2 ^ 64" and j: "Suc j < n" and i: "i < n"
  shows "elem_at (byte_swap m (base + of_nat j * sz) (base + of_nat (Suc j) * sz) (unat sz)) (base + of_nat i * sz) sz =
    elem_at m (base + of_nat (if i = j then Suc j else if i = Suc j then j else i) * sz) sz"
proof -
  let ?s = "unat sz"
  have ad0: "base + of_nat i * sz = base + of_nat (i * ?s)" for i by simp
  have *: "byte_swap m (base + of_nat (j * ?s)) (base + of_nat (Suc j * ?s)) ?s (base + of_nat (i * ?s + k)) =
      m (base + of_nat ((if i = j then Suc j else if i = Suc j then j else i) * ?s + k))" if k: "k < ?s" for k
  proof -
    have lt: "i * ?s + k < n * ?s"
      using i k by (metis add.commute add_less_mono1 less_le_trans mult_Suc mult_le_mono1 Suc_leI)
    have "Suc j * ?s + ?s \<le> n * ?s" using j by (metis Suc_leI add.commute mult_Suc mult_le_mono1)
    note sw = byte_swap_off [of "j * ?s" ?s "Suc j * ?s" "n * ?s" "i * ?s + k" m base, OF _ this fit lt]
    consider "i = j" | "i = Suc j" | "i < j" | "Suc j < i" by linarith
    then show ?thesis
    proof cases
      case 3
      then have "i * ?s + ?s \<le> j * ?s" by (metis Suc_leI add.commute mult_Suc mult_le_mono1)
      then show ?thesis using sw 3 k by simp
    next
      case 4
      then have "Suc j * ?s + ?s \<le> i * ?s" by (metis Suc_leI add.commute mult_Suc mult_le_mono1)
      then show ?thesis using sw 4 k by simp
    qed (use sw k in \<open>simp_all add: add.assoc\<close>)
  qed
  show ?thesis unfolding elem_at_off unfolding ad0 by (rule map_cong [OF refl]) (rule *, simp)
qed

lemma array_at_sink:
  assumes cmp: "\<And>m p q. cmp m p q = c (elem_at m p sz) (elem_at m q sz)" and fit: "n * unat sz \<le> 2 ^ 64"
    and "j < n"
  shows "array_at (qsort_insert cmp m base sz j) base sz n = sink c (array_at m base sz n) j"
  using assms(3)
proof (induction j arbitrary: m)
  case (Suc j)
  let ?m = "byte_swap m (base + of_nat j * sz) (base + of_nat (Suc j) * sz) (unat sz)"
  let ?a = "array_at m base sz n"
  have nth: "?a ! i = elem_at m (base + of_nat i * sz) sz" if "i < n" for i using that by (simp add: array_at_def)
  have "array_at ?m base sz n = ?a[j := ?a ! Suc j, Suc j := ?a ! j]"
  proof (rule nth_equalityI)
    fix i assume "i < length (array_at ?m base sz n)"
    then have i: "i < n" by (simp add: array_at_def)
    have "array_at ?m base sz n ! i = elem_at ?m (base + of_nat i * sz) sz" using i by (simp add: array_at_def)
    also have "\<dots> = ?a ! (if i = j then Suc j else if i = Suc j then j else i)"
      using elem_at_swap [OF fit Suc.prems i] nth i Suc.prems by auto
    also have "\<dots> = ?a[j := ?a ! Suc j, Suc j := ?a ! j] ! i"
      using i Suc.prems by (simp add: nth_list_update array_at_def)
    finally show "array_at ?m base sz n ! i = ?a[j := ?a ! Suc j, Suc j := ?a ! j] ! i" .
  qed (simp add: array_at_def)
  moreover have "cmp m (base + of_nat j * sz) (base + of_nat (Suc j) * sz) = c (?a ! j) (?a ! Suc j)"
    using nth [of j] nth [of "Suc j"] Suc.prems unfolding cmp by simp
  moreover have "array_at (qsort_insert cmp ?m base sz j) base sz n = sink c (array_at ?m base sz n) j"
    using Suc.IH Suc.prems by simp
  ultimately show ?case by (simp del: of_nat_Suc)
qed simp

lemma qsort_sorts:
  assumes cmp: "\<And>m p q. cmp m p q = c (elem_at m p sz) (elem_at m q sz)" and c: "comparator c"
    and fit: "unat n * unat sz \<le> 2 ^ 64" and b: "base \<noteq> 0" "sz \<noteq> 0"
  shows "ordered c (array_at (qsort cmp m base n sz) base sz (unat n)) \<and>
    mset (array_at (qsort cmp m base n sz) base sz (unat n)) = mset (array_at m base sz (unat n))"
proof (cases "n < 2")
  case True
  then have "unat n < 2" by (simp add: word_less_nat_alt)
  then have "unat n = 0 \<or> unat n = 1" by linarith
  then show ?thesis using True by (auto simp: qsort_def array_at_def)
next
  case False
  then have n2: "2 \<le> unat n" by (simp add: word_less_nat_alt)
  let ?f = "\<lambda>k. fold (\<lambda>i m. qsort_insert cmp m base sz i) [1..<k] m"
  have "array_at (?f k) base sz (unat n) = fold (\<lambda>i xs. sink c xs i) [1..<k] (array_at m base sz (unat n))"
    if "1 \<le> k" "k \<le> unat n" for k
    using that
  proof (induction k rule: dec_induct)
    case (step k)
    then show ?case using array_at_sink [where cmp = cmp and c = c, OF cmp fit, of k "?f k" base] by simp
  qed simp
  then have e: "array_at (qsort cmp m base n sz) base sz (unat n) =
      fold (\<lambda>i xs. sink c xs i) [1..<unat n] (array_at m base sz (unat n))"
    using n2 False b by (simp add: qsort_def)
  have "length (array_at m base sz (unat n)) = unat n" by (simp add: array_at_def)
  then show ?thesis
    using fold_sink_sorts [OF c, of "unat n" "array_at m base sz (unat n)"] n2 unfolding e by (metis One_nat_def Suc_leD numeral_2_eq_2 order_refl take_all)
qed

subsection \<open>Properties\<close>

text \<open>C33. \<^verbatim>\<open>memmove\<close> and \<^verbatim>\<open>memcpy\<close> copy correctly whatever the overlap: when neither buffer wraps around the
  end of the address space, the destination afterwards holds the old contents of the source and every
  other byte is unchanged.\<close>

theorem memmove_correct:
  assumes "unat src + unat n < 2 ^ 64" "unat dst + unat n \<le> 2 ^ 64"
  shows "memmove m dst src n = (\<lambda>a. if unat (a - dst) < unat n then m (src + (a - dst)) else m a) \<and>
         memcpy m dst src n = memmove m dst src n"
  using memmove_moved [OF assms] by (simp add: moved_def memcpy_def)

theorem memmove_correct_witness:
  "memmove (\<lambda>a. ucast a) 0x102 0x100 4 0x105 = 0x03"
  using memmove_correct [of "0x100" 4 "0x102" "\<lambda>a. ucast a"] by simp

text \<open>C34. On C strings \<^verbatim>\<open>strlen\<close> and \<^verbatim>\<open>strcmp\<close> end and return what they should: the length, and a value that is
  zero exactly for equal strings and negative exactly when the first is smaller in the order of unsigned
  bytes; \<^verbatim>\<open>strnlen\<close> is the length cut at its bound.\<close>

theorem strings_measured:
  assumes "cstring m p cs" "cstring m q ds"
  shows "strlen m p = Some (of_nat (length cs)) \<and> unat (strnlen m p k) = min (unat k) (length cs) \<and>
    (\<exists>d. strcmp m p q = Some d \<and> (d = 0 \<longleftrightarrow> cs = ds) \<and> (d < 0 \<longleftrightarrow> (cs, ds) \<in> lexord {(x, y). x < y}))"
  using strlen_cstring [OF assms(1)] strcmp_cstring [OF assms] strnlen_loop_spec [OF assms(1), of 0 k]
  by (simp add: strnlen_def)

definition demo_memory :: memory where
  "demo_memory = (\<lambda>_. 0)(0x100 := 0x61, 0x101 := 0x62, 0x200 := 0x61, 0x201 := 0x63)"

lemma demo_strings: "cstring demo_memory 0x100 [0x61, 0x62]" "cstring demo_memory 0x200 [0x61, 0x63]"
  by (simp_all add: cstring_Cons cstring_Nil demo_memory_def)

theorem strings_measured_witness:
  "strlen demo_memory 0x100 = Some 2 \<and> (\<exists>d. strcmp demo_memory 0x100 0x200 = Some d \<and> d < 0)"
  using strings_measured [OF demo_strings, of 0] by auto

text \<open>C35. \<^verbatim>\<open>safe_strncpy\<close> always terminates the destination: it holds the source cut to \<open>n - 1\<close> bytes and a NUL,
  and no byte outside of the \<open>n\<close> bytes of the buffer changes.\<close>

theorem safe_strncpy_correct:
  assumes "cstring m t cs" "\<And>i. i \<le> length cs \<Longrightarrow> \<not> in_buf s (unat n) (t + of_nat i)" "n \<noteq> 0"
  shows "cstring (safe_strncpy m s t n) s (take (unat n - 1) cs) \<and>
         (\<forall>a. \<not> in_buf s (unat n) a \<longrightarrow> safe_strncpy m s t n a = m a)"
  using safe_strncpy_spec [OF assms] by blast

theorem safe_strncpy_correct_witness:
  "cstring (safe_strncpy demo_memory 0x300 0x100 2) 0x300 [0x61]"
proof -
  have "\<not> in_buf 0x300 (unat (2::u64)) (0x100 + of_nat i)" if "i \<le> length [0x61, 0x62 :: u8]" for i
  proof -
    have "i = 0 \<or> i = 1 \<or> i = 2" using that by auto
    then show ?thesis by (auto simp: in_buf_def)
  qed
  then show ?thesis using safe_strncpy_correct [OF demo_strings(1), of "0x300" 2] by simp
qed

text \<open>\<^verbatim>\<open>strncpy\<close> with a source shorter than \<open>n\<close>: the buffer holds the string, padded with NUL bytes to the full
  \<open>n\<close>, and nothing else changes.\<close>

theorem strncpy_short_correct:
  assumes "cstring m t cs" "\<And>i. i \<le> length cs \<Longrightarrow> \<not> in_buf s (unat n) (t + of_nat i)" "length cs < unat n"
  shows "(\<forall>i<length cs. strncpy m s t n (s + of_nat i) = cs ! i) \<and>
    (\<forall>a. in_buf (s + of_nat (length cs)) (unat n - length cs) a \<longrightarrow> strncpy m s t n a = 0) \<and>
    (\<forall>a. \<not> in_buf s (unat n) a \<longrightarrow> strncpy m s t n a = m a)"
  using strncpy_short [OF assms] by blast

theorem strncpy_short_correct_witness: "strncpy demo_memory 0x300 0x100 4 0x301 = 0x62"
proof -
  have "\<not> in_buf 0x300 (unat (4::u64)) (0x100 + of_nat i)" if "i \<le> length [0x61, 0x62 :: u8]" for i
  proof -
    have "i = 0 \<or> i = 1 \<or> i = 2" using that by auto
    then show ?thesis by (auto simp: in_buf_def)
  qed
  then have "\<forall>i<2. strncpy demo_memory 0x300 0x100 4 (0x300 + of_nat i) = [0x61, 0x62 :: u8] ! i"
    using strncpy_short_correct [OF demo_strings(1), of "0x300" 4] by simp
  then show ?thesis by (force dest: spec [of _ 1])
qed

text \<open>C36. \<^verbatim>\<open>strncpy\<close> with a source of \<open>n\<close> or more bytes overruns the buffer: the counter, an unsigned \<^verbatim>\<open>size_t\<close>, has
  wrapped to its maximum when the padding loop starts, which then clears every byte of the address space
  but the last one copied.\<close>

theorem strncpy_overruns:
  assumes "cstring m t cs" "\<And>i. i \<le> length cs \<Longrightarrow> \<not> in_buf s (unat n) (t + of_nat i)" "unat n \<le> length cs"
    "a \<noteq> s + n - 1"
  shows "strncpy m s t n a = 0"
  by (rule strncpy_long [OF assms])

theorem strncpy_overruns_witness: "strncpy demo_memory 0x300 0x100 2 0x200 = 0 \<and> demo_memory 0x200 \<noteq> 0"
proof -
  have "\<not> in_buf 0x300 (unat (2::u64)) (0x100 + of_nat i)" if "i \<le> length [0x61, 0x62 :: u8]" for i
  proof -
    have "i = 0 \<or> i = 1 \<or> i = 2" using that by auto
    then show ?thesis by (auto simp: in_buf_def)
  qed
  then show ?thesis using strncpy_overruns [OF demo_strings(1), of "0x300" 2 "0x200"] by (simp add: demo_memory_def)
qed

text \<open>C37. \<^verbatim>\<open>qsort\<close> sorts: for a comparison function that reads only the two elements and is a total preorder, the
  elements afterwards are a permutation of those before, in order.\<close>

theorem qsort_correct:
  assumes "\<And>m p q. cmp m p q = c (elem_at m p sz) (elem_at m q sz)" "comparator c"
    "unat n * unat sz \<le> 2 ^ 64" "base \<noteq> 0" "sz \<noteq> 0"
  shows "ordered c (array_at (qsort cmp m base n sz) base sz (unat n)) \<and>
    mset (array_at (qsort cmp m base n sz) base sz (unat n)) = mset (array_at m base sz (unat n))"
  using qsort_sorts [OF assms] by blast

theorem qsort_correct_witness:
  "let c = (\<lambda>x y. uint (hd x) - uint (hd y));
       cmp = (\<lambda>m p q. c (elem_at m p 1) (elem_at m q 1));
       m = (\<lambda>_. 0)(0x100 := 3, 0x101 := 1, 0x102 := 2)
   in ordered c (array_at (qsort cmp m 0x100 3 1) 0x100 1 3)"
  using qsort_correct [of "\<lambda>m p q. uint (hd (elem_at m p 1)) - uint (hd (elem_at m q 1))"
      "\<lambda>x y. uint (hd x) - uint (hd y)" 1 3 "0x100" "(\<lambda>_. 0)(0x100 := 3, 0x101 := 1, 0x102 := 2)"]
  by (simp add: comparator_def Let_def)

end
