(* ===== verification/Ktime.thy ===== *)
theory Ktime
  imports Prelude
begin

text \<open>
  Time conversion and the clocks (\<^verbatim>\<open>kernel/timeconv.c\<close>, \<^verbatim>\<open>kernel/ktime.c\<close>) and the load average
  (\<^verbatim>\<open>kernel/loadavg.c\<close>). The cycle counter \<^verbatim>\<open>time_r()\<close> is the argument \<open>now\<close> and the timer
  frequency, which the timer driver reads from the device tree, the argument \<open>frequency\<close>. The count of active
  threads of a load sample comes from the process table and is the argument \<open>active\<close>.
\<close>

subsection \<open>Conversion\<close>

definition NSEC_PER_SEC :: u64 where
  "NSEC_PER_SEC = 1000000000"

definition MSEC_PER_SEC :: u64 where
  "MSEC_PER_SEC = 1000"

definition ktime_ticks_to_ns :: "u64 \<Rightarrow> u32 \<Rightarrow> u64" where
  "ktime_ticks_to_ns ticks frequency =
     (if frequency = 0 then 0
      else let f = ucast frequency; seconds = ticks div f
           in if seconds > NOT 0 div NSEC_PER_SEC then NOT 0
              else seconds * NSEC_PER_SEC + ticks mod f * NSEC_PER_SEC div f)"

text \<open>\<^verbatim>\<open>ktime_ms_to_ticks\<close> and \<^verbatim>\<open>ktime_ns_to_ticks\<close> are the same code with different units.\<close>

definition units_to_ticks :: "u64 \<Rightarrow> u64 \<Rightarrow> u64 \<Rightarrow> u64" where
  "units_to_ticks per_sec frequency units =
     (let seconds = units div per_sec; remainder = units mod per_sec
      in if seconds > NOT 0 div frequency then NOT 0
         else let ticks = seconds * frequency;
                  partial = frequency div per_sec * remainder;
                  fraction = frequency mod per_sec * remainder;
                  partial = partial + fraction div per_sec;
                  partial = (if fraction mod per_sec \<noteq> 0 then partial + 1 else partial)
              in if ticks > NOT 0 - partial then NOT 0 else ticks + partial)"

definition ktime_ms_to_ticks :: "u64 \<Rightarrow> u64 \<Rightarrow> u64" where
  "ktime_ms_to_ticks frequency milliseconds = units_to_ticks MSEC_PER_SEC frequency milliseconds"

definition ktime_ns_to_ticks :: "u64 \<Rightarrow> u64 \<Rightarrow> u64" where
  "ktime_ns_to_ticks frequency nanoseconds = units_to_ticks NSEC_PER_SEC frequency nanoseconds"

subsection \<open>The clocks\<close>

record ktime_state =
  boot_ticks :: u64
  realtime_base_ns :: u64
  realtime_base_ticks :: u64
  realtime_ready :: u8

definition ktime_boot_init :: "u64 \<Rightarrow> ktime_state \<Rightarrow> ktime_state" where
  "ktime_boot_init ticks k =
     k\<lparr>boot_ticks := ticks, realtime_base_ns := 0, realtime_base_ticks := ticks, realtime_ready := 1\<rparr>"

definition ktime_set_realtime_ns :: "u64 \<Rightarrow> u64 \<Rightarrow> ktime_state \<Rightarrow> ktime_state" where
  "ktime_set_realtime_ns now nanoseconds k =
     k\<lparr>realtime_base_ns := nanoseconds, realtime_base_ticks := now, realtime_ready := 1\<rparr>"

definition ktime_get_ticks :: "u64 \<Rightarrow> u64" where
  "ktime_get_ticks now = now"

definition ktime_get_ms :: "u64 \<Rightarrow> u64 \<Rightarrow> u64" where
  "ktime_get_ms frequency now =
     now div frequency * MSEC_PER_SEC + now mod frequency * MSEC_PER_SEC div frequency"

definition ktime_get_ns :: "u64 \<Rightarrow> u64 \<Rightarrow> u64" where
  "ktime_get_ns frequency now = ktime_ticks_to_ns now (ucast frequency)"

definition ktime_get_boot_ns :: "u64 \<Rightarrow> u64 \<Rightarrow> ktime_state \<Rightarrow> u64" where
  "ktime_get_boot_ns frequency now k = ktime_ticks_to_ns (now - boot_ticks k) (ucast frequency)"

definition ktime_get_realtime_ns :: "u64 \<Rightarrow> u64 \<Rightarrow> ktime_state \<Rightarrow> int \<times> u64 option" where
  "ktime_get_realtime_ns frequency now k =
     (if realtime_ready k = 0 then (-1, None)
      else let elapsed = ktime_ticks_to_ns (now - realtime_base_ticks k) (ucast frequency)
           in (0, Some (if realtime_base_ns k > NOT 0 - elapsed then NOT 0 else realtime_base_ns k + elapsed)))"

subsection \<open>The load average\<close>

definition LOADAVG_FIXED :: u32 where
  "LOADAVG_FIXED = push_bit 11 1"

definition loadavg_exponent :: "u32 list" where
  "loadavg_exponent = [1884, 2014, 2037]"

function loadavg_power_loop :: "u64 \<Rightarrow> u64 \<Rightarrow> u64 \<Rightarrow> u64" where
  "loadavg_power_loop result factor exponent =
     (if exponent \<noteq> 0 then
        let fixed = ucast LOADAVG_FIXED;
            result' = (if exponent AND 1 \<noteq> 0 then (result * factor + fixed div 2) div fixed else result)
        in loadavg_power_loop result' ((factor * factor + fixed div 2) div fixed) (drop_bit 1 exponent)
      else result)"
  by pat_completeness auto
termination
proof (relation "measure (\<lambda>(result, factor, exponent). unat exponent)")
  fix exponent :: u64
  assume e: "exponent \<noteq> 0"
  have "unat (drop_bit 1 exponent) = unat exponent div 2" by (simp add: drop_bit_eq_div unat_div)
  moreover have "0 < unat exponent" using e by (simp add: unat_gt_0)
  ultimately have "unat (drop_bit 1 exponent) < unat exponent" by simp
  then show "((r, f, drop_bit 1 exponent), r', f', exponent) \<in> measure (\<lambda>(result, factor, exponent). unat exponent)"
    for r f r' f' :: u64 by simp
qed simp

declare loadavg_power_loop.simps [simp del]

definition loadavg_fixed_power :: "u32 \<Rightarrow> u64 \<Rightarrow> u32" where
  "loadavg_fixed_power base exponent = ucast (loadavg_power_loop (ucast LOADAVG_FIXED) (ucast base) exponent)"

definition loadavg_update :: "u32 \<Rightarrow> u32 \<Rightarrow> u32 \<Rightarrow> u64 \<Rightarrow> u32" where
  "loadavg_update old active exponent periods =
     (let decay = loadavg_fixed_power exponent periods;
          target = ucast active * ucast LOADAVG_FIXED :: u64
      in ucast ((ucast old * ucast decay + target * ucast (LOADAVG_FIXED - decay) + ucast (LOADAVG_FIXED div 2))
                div ucast LOADAVG_FIXED :: u64))"

definition loadavg_sample :: "u32 \<Rightarrow> u32 list \<Rightarrow> u32 list" where
  "loadavg_sample active average = map2 (\<lambda>old e. loadavg_update old active e 1) average loadavg_exponent"

definition loadavg_init :: "u32 list" where
  "loadavg_init = [0, 0, 0]"

subsection \<open>Exactness of the conversions\<close>

abbreviation max64 :: nat where
  "max64 \<equiv> 18446744073709551615"

definition ceil_div :: "nat \<Rightarrow> nat \<Rightarrow> nat" where
  "ceil_div a b = a div b + (if a mod b \<noteq> 0 then 1 else 0)"

lemma ceil_div_shift: "0 < b \<Longrightarrow> ceil_div (b * q + r) b = q + ceil_div r b"
  by (simp add: ceil_div_def)

lemma ceil_div_bounds: "0 < b \<Longrightarrow> a \<le> ceil_div a b * b \<and> ceil_div a b * b < a + b"
proof -
  assume b: "0 < b"
  have a: "a div b * b + a mod b = a" by simp
  have m: "a mod b < b" using b by simp
  show ?thesis
  proof (cases "a mod b = 0")
    case True
    then show ?thesis using a b by (simp add: ceil_div_def)
  next
    case False
    then have "ceil_div a b * b = a div b * b + b" by (simp add: ceil_div_def)
    then show ?thesis using a m False by linarith
  qed
qed

lemma unat_max [simp]: "unat (- 1 :: u64) = max64"
  by (simp add: unsigned_minus_1_eq_mask mask_eq_exp_minus_1)

lemma units_to_ticks_exact:
  assumes p: "0 < unat per_sec" "unat per_sec \<le> 1000000000" and f: "0 < unat frequency" "unat frequency < 4294967296"
  shows "unat (units_to_ticks per_sec frequency units) = min (ceil_div (unat units * unat frequency) (unat per_sec)) max64"
proof -
  define P F u s r where "P = unat per_sec" and "F = unat frequency" and "u = unat units"
    and "s = u div P" and "r = u mod P"
  have PF: "0 < P" "P \<le> 1000000000" "0 < F" "F < 4294967296" using assms by (simp_all add: P_def F_def)
  have rP: "r < P" using PF by (simp add: r_def)
  have u: "u = P * s + r" by (simp add: s_def r_def)
  have us: "unat (units div per_sec) = s" "unat (units mod per_sec) = r"
    by (simp_all add: unat_div unat_mod s_def r_def u_def P_def)
  have uf: "unat (frequency div per_sec) = F div P" "unat (frequency mod per_sec) = F mod P"
    by (simp_all add: unat_div unat_mod F_def P_def)
  define partial0 fraction partial where "partial0 = frequency div per_sec * (units mod per_sec)"
    and "fraction = frequency mod per_sec * (units mod per_sec)"
    and "partial = (if fraction mod per_sec \<noteq> 0 then partial0 + fraction div per_sec + 1 else partial0 + fraction div per_sec)"
  have "F div P * r \<le> F * r" by simp
  also have "\<dots> \<le> 4294967296 * 1000000000" using PF rP by (intro mult_mono) auto
  finally have b0: "F div P * r \<le> 4294967296000000000" by simp
  have "F mod P * r \<le> 1000000000 * 1000000000"
    using PF rP mod_less_divisor [of P F] by (intro mult_mono) linarith+
  then have b1: "F mod P * r \<le> 1000000000000000000" by simp
  have p0: "unat partial0 = F div P * r"
    unfolding partial0_def using b0 us uf by (subst unat_mult_no_overflow) simp_all
  have fr: "unat fraction = F mod P * r"
    unfolding fraction_def using b1 us uf by (subst unat_mult_no_overflow) simp_all
  have "unat (fraction div per_sec) = F mod P * r div P" by (simp add: unat_div fr P_def)
  moreover have "F mod P * r div P \<le> 1000000000000000000" using b1 by (meson div_le_dividend order_trans)
  ultimately have sum: "unat (partial0 + fraction div per_sec) = F div P * r + F mod P * r div P"
    using p0 b0 by (subst unat_add_no_overflow) simp_all
  have fm: "fraction mod per_sec \<noteq> 0 \<longleftrightarrow> F mod P * r mod P \<noteq> 0"
    by (metis P_def fr unat_0 unat_eq_0 unat_mod)
  have "unat (partial0 + fraction div per_sec + 1) = unat (partial0 + fraction div per_sec) + 1"
    using unat_add_no_overflow [of "partial0 + fraction div per_sec" 1] sum b0
      \<open>F mod P * r div P \<le> 1000000000000000000\<close> by simp
  then have part: "unat partial = F div P * r + ceil_div (F mod P * r) P"
    using sum fm by (simp add: partial_def ceil_div_def)
  have "F = P * (F div P) + F mod P" by simp
  then have "F * r = P * (F div P * r) + F mod P * r" by (metis add_mult_distrib mult.assoc)
  then have "ceil_div (F * r) P = unat partial" using ceil_div_shift [OF PF(1)] part by metis
  moreover have "u * F = P * (s * F) + F * r" using u by (simp add: algebra_simps)
  ultimately have total: "ceil_div (u * F) P = s * F + unat partial" using ceil_div_shift [OF PF(1)] by metis
  show ?thesis
  proof (cases "s > max64 div F")
    case True
    then have "units div per_sec > NOT 0 div frequency"
      by (simp add: word_less_nat_alt unat_div F_def us(1) [unfolded unat_div])
    moreover have "s * F > max64" using True PF(3) by (simp add: div_less_iff_less_mult)
    ultimately show ?thesis
      using total unfolding units_to_ticks_def Let_def by (simp add: u_def F_def P_def)
  next
    case False
    then have c1: "\<not> units div per_sec > NOT 0 div frequency"
      by (simp add: word_less_nat_alt unat_div F_def us(1) [unfolded unat_div])
    have "s * F \<le> max64" using False PF(3) by (simp add: not_less less_eq_div_iff_mult_less_eq)
    then have tk: "unat (units div per_sec * frequency) = s * F"
      using us by (subst unat_mult_no_overflow) (simp_all add: F_def)
    have pm: "unat partial \<le> max64" using unat64_less [of partial] by simp
    then have nm: "unat (NOT 0 - partial) = max64 - unat partial"
      by (subst unat_sub) (simp_all add: word_le_nat_alt)
    have res: "units_to_ticks per_sec frequency units =
        (if units div per_sec * frequency > NOT 0 - partial then NOT 0 else units div per_sec * frequency + partial)"
      using c1 unfolding units_to_ticks_def Let_def partial_def partial0_def fraction_def by simp
    show ?thesis
    proof (cases "s * F > max64 - unat partial")
      case True
      then show ?thesis using res tk nm pm total by (simp add: word_less_nat_alt u_def F_def P_def)
    next
      case False
      then have "s * F + unat partial \<le> max64" using pm by linarith
      moreover from this have "unat (units div per_sec * frequency + partial) = s * F + unat partial"
        using tk by (subst unat_add_no_overflow) simp_all
      ultimately show ?thesis using res tk nm False total by (simp add: word_less_nat_alt u_def F_def P_def)
    qed
  qed
qed

text \<open>The nanoseconds of a tick count, rounded down: what \<^verbatim>\<open>ktime_ticks_to_ns\<close> means to compute. It saturates
  beyond 18446744073 seconds; in that last second the sum can pass \<open>2 ^ 64\<close> and wraps.\<close>

definition tick_ns :: "u64 \<Rightarrow> u32 \<Rightarrow> nat" where
  "tick_ns ticks frequency = unat ticks * 1000000000 div unat frequency"

definition ns_saturates :: "u64 \<Rightarrow> u32 \<Rightarrow> bool" where
  "ns_saturates ticks frequency \<longleftrightarrow> 18446744073 < unat ticks div unat frequency"

lemma tick_ns_split:
  assumes "0 < unat frequency"
  shows "tick_ns ticks frequency =
    unat ticks div unat frequency * 1000000000 + unat ticks mod unat frequency * 1000000000 div unat frequency"
    "unat ticks mod unat frequency * 1000000000 div unat frequency < 1000000000"
proof -
  define F t where "F = unat frequency" and "t = unat ticks"
  have F0: "0 < F" using assms by (simp add: F_def)
  have "t mod F * 1000000000 < F * 1000000000" using F0 by simp
  then show "unat ticks mod unat frequency * 1000000000 div unat frequency < 1000000000"
    unfolding F_def [symmetric] t_def [symmetric] by (simp add: div_less_iff_less_mult F0 mult.commute)
  have "t * 1000000000 = F * (t div F * 1000000000) + t mod F * 1000000000"
    by (metis add_mult_distrib mult.assoc mult_div_mod_eq)
  then show "tick_ns ticks frequency =
      unat ticks div unat frequency * 1000000000 + unat ticks mod unat frequency * 1000000000 div unat frequency"
    unfolding tick_ns_def F_def [symmetric] t_def [symmetric]
    using F0 by (metis div_mult_self2 less_numeral_extra(3) add.commute)
qed

lemma ticks_to_ns_exact:
  assumes f: "frequency \<noteq> 0"
  shows "unat (ktime_ticks_to_ns ticks frequency) =
    (if ns_saturates ticks frequency then max64 else tick_ns ticks frequency mod 2 ^ 64)"
proof -
  define F t where "F = unat frequency" and "t = unat ticks"
  have F0: "0 < F" using f by (simp add: F_def unat_gt_0)
  have F32: "F < 4294967296" using unsigned_less [where 'a = nat, of frequency] by (simp add: F_def)
  have s: "unat (ticks div ucast frequency) = t div F" by (simp add: unat_div F_def t_def)
  have N: "unat NSEC_PER_SEC = 1000000000" by (simp add: NSEC_PER_SEC_def)
  have lim: "ticks div ucast frequency > NOT 0 div NSEC_PER_SEC \<longleftrightarrow> ns_saturates ticks frequency"
    by (simp add: word_less_nat_alt s unat_div N t_def F_def ns_saturates_def)
  show ?thesis
  proof (cases "ns_saturates ticks frequency")
    case True
    then show ?thesis using f lim by (simp add: ktime_ticks_to_ns_def Let_def)
  next
    case False
    have a: "unat (ticks div ucast frequency * NSEC_PER_SEC) = t div F * 1000000000"
      using False s N by (subst unat_mult_no_overflow) (simp_all add: t_def F_def ns_saturates_def)
    have m: "unat (ticks mod ucast frequency) = t mod F" by (simp add: unat_mod F_def t_def)
    have tm: "t mod F < 4294967296" using F32 mod_less_divisor [OF F0, of t] by linarith
    have b: "unat (ticks mod ucast frequency * NSEC_PER_SEC) = t mod F * 1000000000"
      using tm m N by (subst unat_mult_no_overflow) simp_all
    then have c: "unat (ticks mod ucast frequency * NSEC_PER_SEC div ucast frequency) = t mod F * 1000000000 div F"
      by (simp add: unat_div F_def)
    have "unat (ticks div ucast frequency * NSEC_PER_SEC + ticks mod ucast frequency * NSEC_PER_SEC div ucast frequency) =
        tick_ns ticks frequency mod 2 ^ 64"
      unfolding unat_word_ariths(1) a c using tick_ns_split(1) [of frequency ticks] F0 by (simp add: t_def F_def)
    then show ?thesis using f lim False by (simp add: ktime_ticks_to_ns_def Let_def)
  qed
qed

subsection \<open>The load average stays between its inputs\<close>

lemma fixed_unat: "unat (ucast LOADAVG_FIXED :: u64) = 2048" "unat LOADAVG_FIXED = 2048"
  by (simp_all add: LOADAVG_FIXED_def)

lemma rounded_mean_le:
  assumes "a \<le> 2048" "b \<le> 2048"
  shows "(a * b + 1024) div 2048 \<le> (2048::nat)"
proof -
  have "a * b \<le> 2048 * 2048" using assms by (intro mult_mono) auto
  then show ?thesis by simp
qed

lemma loadavg_power_le:
  assumes "unat result \<le> 2048" "unat factor \<le> 2048"
  shows "unat (loadavg_power_loop result factor exponent) \<le> 2048"
  using assms
proof (induction result factor exponent rule: loadavg_power_loop.induct)
  case (1 result factor exponent)
  let ?step = "\<lambda>a b. (a * b + ucast LOADAVG_FIXED div 2) div (ucast LOADAVG_FIXED :: u64)"
  have st: "unat (?step a b) \<le> 2048" if "unat a \<le> 2048" "unat b \<le> 2048" for a b :: u64
  proof -
    have m: "unat a * unat b \<le> 2048 * 2048" using that by (intro mult_mono) auto
    then have "unat (a * b) = unat a * unat b" by (subst unat_mult_no_overflow) simp_all
    moreover have "unat (ucast LOADAVG_FIXED div 2 :: u64) = 1024" by (simp add: unat_div fixed_unat LOADAVG_FIXED_def)
    ultimately have "unat (a * b + ucast LOADAVG_FIXED div 2) = unat a * unat b + 1024"
      using m by (subst unat_add_no_overflow) simp_all
    then show ?thesis using rounded_mean_le [OF that] by (simp only: unat_div fixed_unat)
  qed
  show ?case
  proof (cases "exponent = 0")
    case True
    then show ?thesis using 1 by (subst loadavg_power_loop.simps) simp
  next
    case False
    let ?r = "if exponent AND 1 \<noteq> 0 then ?step result factor else result"
    have r: "unat ?r \<le> 2048" using st [of result factor] 1(2,3) by simp
    have "unat (loadavg_power_loop ?r (?step factor factor) (drop_bit 1 exponent)) \<le> 2048"
      by (rule 1(1) [OF False refl refl]) (use r st [of factor factor] 1(3) in \<open>simp_all only:\<close>)
    then show ?thesis using False by (subst loadavg_power_loop.simps) (simp only: Let_def if_True not_False_eq_True)
  qed
qed

lemma loadavg_fixed_power_le: "unat base \<le> 2048 \<Longrightarrow> unat (loadavg_fixed_power base exponent) \<le> 2048"
proof -
  assume "unat base \<le> 2048"
  then have "unat (loadavg_power_loop (ucast LOADAVG_FIXED) (ucast base) exponent) \<le> 2048"
    by (intro loadavg_power_le) (simp_all add: fixed_unat)
  then show ?thesis
    by (simp add: loadavg_fixed_power_def unsigned_ucast_eq take_bit_nat_eq_self)
qed

lemma weighted_mean:
  assumes "d \<le> (2048::nat)" "old \<le> hi" "lo \<le> old" "t \<le> hi" "lo \<le> t"
  shows "lo \<le> (old * d + t * (2048 - d) + 1024) div 2048" "(old * d + t * (2048 - d) + 1024) div 2048 \<le> hi"
proof -
  have e: "x * d + x * (2048 - d) = x * 2048" for x :: nat using assms(1) by (simp flip: distrib_left)
  have "lo * d + lo * (2048 - d) \<le> old * d + t * (2048 - d)" using assms by (intro add_mono mult_right_mono) auto
  then have "lo * 2048 \<le> old * d + t * (2048 - d) + 1024" unfolding e by linarith
  then show "lo \<le> (old * d + t * (2048 - d) + 1024) div 2048" by (simp add: less_eq_div_iff_mult_less_eq)
  have "old * d + t * (2048 - d) \<le> hi * d + hi * (2048 - d)" using assms by (intro add_mono mult_right_mono) auto
  then have "old * d + t * (2048 - d) + 1024 < (hi + 1) * 2048" unfolding e by simp
  then show "(old * d + t * (2048 - d) + 1024) div 2048 \<le> hi"
    by (metis add.commute div_less_iff_less_mult less_Suc_eq_le plus_1_eq_Suc zero_less_numeral)
qed

lemma loadavg_update_bounds:
  assumes e: "unat exponent \<le> 2048" and a: "unat active < 2 ^ 21"
    and n_def: "n = unat (loadavg_update old active exponent periods)"
  shows "min (unat old) (unat active * 2048) \<le> n" "n \<le> max (unat old) (unat active * 2048)"
proof -
  define d where "d = loadavg_fixed_power exponent periods"
  have d: "unat d \<le> 2048" unfolding d_def by (rule loadavg_fixed_power_le [OF e])
  let ?F = "ucast LOADAVG_FIXED :: u64"
  let ?t = "ucast active * ?F" and ?o = "ucast old :: u64" and ?r = "ucast (LOADAVG_FIXED - d) :: u64"
  define t where "t = unat active * 2048"
  have o32: "unat old < 4294967296" using unsigned_less [where 'a = nat, of old] by simp
  have t32: "t < 4294967296" using a by (simp add: t_def)
  have ut: "unat ?t = t" using t32 by (subst unat_mult_no_overflow) (simp_all add: fixed_unat t_def)
  have ur: "unat ?r = 2048 - unat d"
    using d by (simp add: unat_sub word_le_nat_alt fixed_unat)
  have "unat old * unat d \<le> 4294967296 * 2048" using o32 d by (intro mult_mono) auto
  then have m1b: "unat old * unat d \<le> 8796093022208" by simp
  then have m1: "unat (?o * ucast d) = unat old * unat d" by (subst unat_mult_no_overflow) simp_all
  have "t * (2048 - unat d) \<le> 4294967296 * 2048" using t32 by (intro mult_mono) auto
  then have m2b: "t * (2048 - unat d) \<le> 8796093022208" by simp
  then have m2: "unat (?t * ?r) = t * (2048 - unat d)" using ut ur by (subst unat_mult_no_overflow) simp_all
  have h: "unat (ucast (LOADAVG_FIXED div 2) :: u64) = 1024" by (simp add: unat_div fixed_unat LOADAVG_FIXED_def)
  have "unat (?o * ucast d + ?t * ?r) = unat old * unat d + t * (2048 - unat d)"
    using m1 m1b m2 m2b by (subst unat_add_no_overflow) simp_all
  then have "unat (?o * ucast d + ?t * ?r + ucast (LOADAVG_FIXED div 2)) = unat old * unat d + t * (2048 - unat d) + 1024"
    using m1b m2b h by (subst unat_add_no_overflow) simp_all
  then have v: "unat ((?o * ucast d + ?t * ?r + ucast (LOADAVG_FIXED div 2)) div ?F) =
      (unat old * unat d + t * (2048 - unat d) + 1024) div 2048"
    by (simp only: unat_div fixed_unat)
  note W = weighted_mean [OF d, of "unat old" "max (unat old) t" "min (unat old) t" t]
  have "n = (unat old * unat d + t * (2048 - unat d) + 1024) div 2048"
  proof -
    have "(unat old * unat d + t * (2048 - unat d) + 1024) div 2048 < 2 ^ 32" using W(2) o32 t32 by simp
    then show ?thesis
      unfolding n_def loadavg_update_def Let_def d_def [symmetric] unsigned_ucast_eq v
      by (simp add: take_bit_nat_eq_self)
  qed
  then show "min (unat old) (unat active * 2048) \<le> n" "n \<le> max (unat old) (unat active * 2048)"
    using W unfolding t_def by simp_all
qed

subsection \<open>Properties\<close>

text \<open>C38. A time span in nanoseconds or milliseconds becomes the least number of timer ticks that covers it,
  saturated at the largest 64-bit value; no intermediate product overflows for any frequency below 4 GHz.\<close>

theorem ns_to_ticks_exact:
  assumes "0 < unat frequency" "unat frequency < 2 ^ 32"
  shows "unat (ktime_ns_to_ticks frequency units) = min (ceil_div (unat units * unat frequency) 1000000000) max64 \<and>
         unat (ktime_ms_to_ticks frequency units) = min (ceil_div (unat units * unat frequency) 1000) max64"
  using units_to_ticks_exact [of NSEC_PER_SEC frequency units] units_to_ticks_exact [of MSEC_PER_SEC frequency units] assms
  by (simp add: ktime_ns_to_ticks_def ktime_ms_to_ticks_def NSEC_PER_SEC_def MSEC_PER_SEC_def)

theorem ns_to_ticks_exact_witness: "unat (ktime_ms_to_ticks 10000000 5) = 50000"
  using ns_to_ticks_exact [of 10000000 5] by (simp add: ceil_div_def)

text \<open>C39. Converting nanoseconds to ticks and back. Unless the tick count saturates, the result is the exact
  number of nanoseconds of the ticks, rounded down, saturated beyond 18446744073 seconds, and wrapped
  around when it passes \<open>2 ^ 64\<close> within that last second; it is earlier than the nanoseconds one
  started from exactly in this case of a wrap.\<close>

theorem ticks_roundtrip_not_early:
  assumes "frequency \<noteq> 0" "t = ktime_ns_to_ticks (ucast frequency) ns" "unat t < max64"
  shows "unat (ktime_ticks_to_ns t frequency) = (if ns_saturates t frequency then max64 else tick_ns t frequency mod 2 ^ 64) \<and>
         (unat (ktime_ticks_to_ns t frequency) < unat ns \<longleftrightarrow> \<not> ns_saturates t frequency \<and> 2 ^ 64 \<le> tick_ns t frequency)"
proof -
  define F where "F = unat frequency"
  have f: "0 < F" using assms(1) by (simp add: F_def unat_gt_0)
  have "F < 2 ^ 32" using unsigned_less [where 'a = nat, of frequency] by (simp add: F_def)
  then have t: "unat t = min (ceil_div (unat ns * F) 1000000000) max64"
    using units_to_ticks_exact [of NSEC_PER_SEC "ucast frequency" ns] f assms(2)
    by (simp add: ktime_ns_to_ticks_def NSEC_PER_SEC_def F_def)
  then have lo: "unat ns * F \<le> unat t * 1000000000" and hi: "unat t * 1000000000 < unat ns * F + 1000000000"
    using assms(3) ceil_div_bounds [of 1000000000 "unat ns * F"] by simp_all
  have ns: "unat ns \<le> tick_ns t frequency" unfolding tick_ns_def F_def [symmetric]
    using lo f by (simp add: less_eq_div_iff_mult_less_eq)
  have "1000000000 * 1 \<le> 1000000000 * F" by (rule mult_le_mono2) (use f in simp)
  then have "unat t * 1000000000 < (unat ns + 1000000000) * F" unfolding distrib_right using hi by linarith
  then have up: "tick_ns t frequency < unat ns + 1000000000" unfolding tick_ns_def F_def [symmetric]
    using f by (simp add: div_less_iff_less_mult)
  have "unat ns \<le> max64" using unsigned_less [where 'a = nat, of ns] by simp
  then show ?thesis
    using ticks_to_ns_exact [OF assms(1), of t] ns up by (auto simp: mod_if)
qed

theorem ticks_roundtrip_not_early_witness:
  "unat (ktime_ticks_to_ns (ktime_ns_to_ticks (ucast (10000000::u32)) 1234) 10000000) = 1300"
proof -
  have t: "ktime_ns_to_ticks (ucast (10000000::u32)) 1234 = 13" by code_simp
  show ?thesis unfolding t using ticks_roundtrip_not_early [of 10000000 13 1234] t
    by (simp add: ns_saturates_def tick_ns_def)
qed

text \<open>\<^verbatim>\<open>ktime_ticks_to_ns\<close> means to saturate, but its guard lets the last second through: at a timer
  frequency of 10 MHz a later tick count gives an earlier time.\<close>

theorem ticks_to_ns_wraps:
  "(184467440737000000 :: u64) < 184467440739000000 \<and>
   ktime_ticks_to_ns 184467440739000000 10000000 < ktime_ticks_to_ns 184467440737000000 10000000"
  by code_simp

text \<open>A load average moves towards the load and never past it: for fewer than \<open>2 ^ 21\<close> active threads the new
  value lies between the old value and the current load in fixed point, whatever the number of periods.\<close>

theorem loadavg_between:
  assumes "unat exponent \<le> unat LOADAVG_FIXED" "unat active < 2 ^ 21"
  shows "min (unat old) (unat active * 2048) \<le> unat (loadavg_update old active exponent periods) \<and>
         unat (loadavg_update old active exponent periods) \<le> max (unat old) (unat active * 2048)"
  using loadavg_update_bounds [OF _ assms(2) refl] assms(1) by (simp add: fixed_unat)

theorem loadavg_between_witness: "unat (loadavg_update 0 3 1884 1) \<le> 6144"
  using loadavg_between [of 1884 3 0 1] by (simp add: fixed_unat)

end
