(* ===== verification/Rbtree.thy ===== *)
theory Rbtree
  imports Prelude "HOL-Library.Monad_Syntax"
begin

text \<open>
  The intrusive red-black tree of \<^verbatim>\<open>kernel/rbtree.c\<close> at the level of its pointers. A node is
  named by its address; the nodes and the root pointer are explicit state that every assignment
  of the source updates in place. Following a null pointer is the value \<^const>\<open>None\<close>, and so is a
  loop that does not end, so a result \<open>Some s\<close> says that the operation returns.
\<close>

subsection \<open>Nodes and the root\<close>

type_synonym node_ptr = "nat option"

record rb_node =
  rb_parent :: node_ptr
  rb_left :: node_ptr
  rb_right :: node_ptr
  rb_red :: bool

record rb_root =
  rb_nodes :: "nat \<Rightarrow> rb_node"
  rb_node_of :: node_ptr

definition set_parent :: "nat \<Rightarrow> node_ptr \<Rightarrow> rb_root \<Rightarrow> rb_root" where
  "set_parent a p s = s\<lparr>rb_nodes := (rb_nodes s)(a := (rb_nodes s a)\<lparr>rb_parent := p\<rparr>)\<rparr>"

definition set_left :: "nat \<Rightarrow> node_ptr \<Rightarrow> rb_root \<Rightarrow> rb_root" where
  "set_left a p s = s\<lparr>rb_nodes := (rb_nodes s)(a := (rb_nodes s a)\<lparr>rb_left := p\<rparr>)\<rparr>"

definition set_right :: "nat \<Rightarrow> node_ptr \<Rightarrow> rb_root \<Rightarrow> rb_root" where
  "set_right a p s = s\<lparr>rb_nodes := (rb_nodes s)(a := (rb_nodes s a)\<lparr>rb_right := p\<rparr>)\<rparr>"

definition set_red :: "nat \<Rightarrow> bool \<Rightarrow> rb_root \<Rightarrow> rb_root" where
  "set_red a c s = s\<lparr>rb_nodes := (rb_nodes s)(a := (rb_nodes s a)\<lparr>rb_red := c\<rparr>)\<rparr>"

definition set_parent_opt :: "node_ptr \<Rightarrow> node_ptr \<Rightarrow> rb_root \<Rightarrow> rb_root" where
  "set_parent_opt c p s = (case c of None \<Rightarrow> s | Some a \<Rightarrow> set_parent a p s)"

definition set_black_opt :: "node_ptr \<Rightarrow> rb_root \<Rightarrow> rb_root" where
  "set_black_opt c s = (case c of None \<Rightarrow> s | Some a \<Rightarrow> set_red a False s)"

definition rb_root_init :: "rb_root \<Rightarrow> rb_root" where
  "rb_root_init s = s\<lparr>rb_node_of := None\<rparr>"

definition rb_node_init :: "nat \<Rightarrow> rb_root \<Rightarrow> rb_root" where
  "rb_node_init a s = set_red a True (set_right a None (set_left a None (set_parent a None s)))"

text \<open>The \<^verbatim>\<open>link\<close> of \<^verbatim>\<open>rb_link_node\<close> is the address of the root pointer or of a child pointer.\<close>

datatype link = Root_link | Left_link nat | Right_link nat

definition link_load :: "link \<Rightarrow> rb_root \<Rightarrow> node_ptr" where
  "link_load l s = (case l of Root_link \<Rightarrow> rb_node_of s
     | Left_link a \<Rightarrow> rb_left (rb_nodes s a) | Right_link a \<Rightarrow> rb_right (rb_nodes s a))"

definition link_store :: "link \<Rightarrow> node_ptr \<Rightarrow> rb_root \<Rightarrow> rb_root" where
  "link_store l p s = (case l of Root_link \<Rightarrow> s\<lparr>rb_node_of := p\<rparr>
     | Left_link a \<Rightarrow> set_left a p s | Right_link a \<Rightarrow> set_right a p s)"

definition rb_link_node :: "nat \<Rightarrow> node_ptr \<Rightarrow> link \<Rightarrow> rb_root \<Rightarrow> rb_root" where
  "rb_link_node a p l s =
     link_store l (Some a)
       (set_red a True (set_right a None (set_left a None (set_parent a p s))))"

definition rb_is_red :: "node_ptr \<Rightarrow> rb_root \<Rightarrow> bool" where
  "rb_is_red p s = (case p of None \<Rightarrow> False | Some a \<Rightarrow> rb_red (rb_nodes s a))"

definition rb_is_black :: "node_ptr \<Rightarrow> rb_root \<Rightarrow> bool" where
  "rb_is_black p s = (case p of None \<Rightarrow> True | Some a \<Rightarrow> \<not> rb_red (rb_nodes s a))"

subsection \<open>Rotations\<close>

text \<open>Making the parent of \<open>n\<close>, or the root pointer, point to \<open>q\<close> in place of \<open>n\<close>; the two
  rotations test the two child pointers in opposite orders.\<close>

definition redirect_left :: "node_ptr \<Rightarrow> nat \<Rightarrow> node_ptr \<Rightarrow> rb_root \<Rightarrow> rb_root" where
  "redirect_left parent n q s =
     (case parent of
        None \<Rightarrow> s\<lparr>rb_node_of := q\<rparr>
      | Some p \<Rightarrow> if rb_left (rb_nodes s p) = Some n then set_left p q s else set_right p q s)"

definition redirect_right :: "node_ptr \<Rightarrow> nat \<Rightarrow> node_ptr \<Rightarrow> rb_root \<Rightarrow> rb_root" where
  "redirect_right parent n q s =
     (case parent of
        None \<Rightarrow> s\<lparr>rb_node_of := q\<rparr>
      | Some p \<Rightarrow> if rb_right (rb_nodes s p) = Some n then set_right p q s else set_left p q s)"

definition rb_rotate_left :: "nat \<Rightarrow> rb_root \<Rightarrow> rb_root option" where
  "rb_rotate_left n s0 = do {
     r \<leftarrow> rb_right (rb_nodes s0 n);
     let s1 = set_right n (rb_left (rb_nodes s0 r)) s0;
     let s2 = set_parent_opt (rb_left (rb_nodes s1 r)) (Some n) s1;
     let s3 = set_parent r (rb_parent (rb_nodes s2 n)) s2;
     let s4 = redirect_left (rb_parent (rb_nodes s3 n)) n (Some r) s3;
     Some (set_parent n (Some r) (set_left r (Some n) s4))
   }"

definition rb_rotate_right :: "nat \<Rightarrow> rb_root \<Rightarrow> rb_root option" where
  "rb_rotate_right n s0 = do {
     l \<leftarrow> rb_left (rb_nodes s0 n);
     let s1 = set_left n (rb_right (rb_nodes s0 l)) s0;
     let s2 = set_parent_opt (rb_right (rb_nodes s1 l)) (Some n) s1;
     let s3 = set_parent l (rb_parent (rb_nodes s2 n)) s2;
     let s4 = redirect_right (rb_parent (rb_nodes s3 n)) n (Some l) s3;
     Some (set_parent n (Some l) (set_right l (Some n) s4))
   }"

subsection \<open>Insertion\<close>

text \<open>One turn of the loop of \<^verbatim>\<open>rb_insert_color\<close> for a node with a red parent \<open>p\<close>: the node it
  continues with, and the new state.\<close>

definition insert_color_left :: "nat \<Rightarrow> nat \<Rightarrow> nat \<Rightarrow> rb_root \<Rightarrow> (nat \<times> rb_root) option" where
  "insert_color_left n p g s =
     (let uncle = rb_right (rb_nodes s g) in
      if rb_is_red uncle s
      then Some (g, set_red g True (set_black_opt uncle (set_red p False s)))
      else do {
        (n', p', g', s1) \<leftarrow>
          (if rb_right (rb_nodes s p) = Some n then do {
             s1 \<leftarrow> rb_rotate_left p s;
             p' \<leftarrow> rb_parent (rb_nodes s1 p);
             g' \<leftarrow> rb_parent (rb_nodes s1 p');
             Some (p, p', g', s1)
           } else Some (n, p, g, s));
        s2 \<leftarrow> rb_rotate_right g' (set_red g' True (set_red p' False s1));
        Some (n', s2)
      })"

definition insert_color_right :: "nat \<Rightarrow> nat \<Rightarrow> nat \<Rightarrow> rb_root \<Rightarrow> (nat \<times> rb_root) option" where
  "insert_color_right n p g s =
     (let uncle = rb_left (rb_nodes s g) in
      if rb_is_red uncle s
      then Some (g, set_red g True (set_black_opt uncle (set_red p False s)))
      else do {
        (n', p', g', s1) \<leftarrow>
          (if rb_left (rb_nodes s p) = Some n then do {
             s1 \<leftarrow> rb_rotate_right p s;
             p' \<leftarrow> rb_parent (rb_nodes s1 p);
             g' \<leftarrow> rb_parent (rb_nodes s1 p');
             Some (p, p', g', s1)
           } else Some (n, p, g, s));
        s2 \<leftarrow> rb_rotate_left g' (set_red g' True (set_red p' False s1));
        Some (n', s2)
      })"

definition insert_color_body :: "nat \<Rightarrow> nat \<Rightarrow> rb_root \<Rightarrow> (nat \<times> rb_root) option" where
  "insert_color_body n p s = do {
     g \<leftarrow> rb_parent (rb_nodes s p);
     if rb_left (rb_nodes s g) = Some p then insert_color_left n p g s
     else insert_color_right n p g s
   }"

partial_function (option) insert_color_loop :: "nat \<Rightarrow> rb_root \<Rightarrow> rb_root option" where
  "insert_color_loop n s =
     (case rb_parent (rb_nodes s n) of
        None \<Rightarrow> Some s
      | Some p \<Rightarrow>
          if rb_red (rb_nodes s p)
          then Option.bind (insert_color_body n p s) (\<lambda>(n', s'). insert_color_loop n' s')
          else Some s)"

definition rb_insert_color :: "nat \<Rightarrow> rb_root \<Rightarrow> rb_root option" where
  "rb_insert_color n s = do {
     s1 \<leftarrow> insert_color_loop n s;
     a \<leftarrow> rb_node_of s1;
     Some (set_red a False s1)
   }"

subsection \<open>Removal\<close>

definition rb_replace_node :: "nat \<Rightarrow> node_ptr \<Rightarrow> rb_root \<Rightarrow> rb_root" where
  "rb_replace_node old new s =
     (let s1 = redirect_left (rb_parent (rb_nodes s old)) old new s
      in set_parent_opt new (rb_parent (rb_nodes s1 old)) s1)"

partial_function (option) rb_subtree_first :: "nat \<Rightarrow> rb_root \<Rightarrow> nat option" where
  "rb_subtree_first n s =
     (case rb_left (rb_nodes s n) of None \<Rightarrow> Some n | Some l \<Rightarrow> rb_subtree_first l s)"

text \<open>One turn of the loop of \<^verbatim>\<open>rb_erase_fixup\<close> on each side of the parent \<open>p\<close>: first a red
  sibling is rotated away, then the sibling's children decide. The result is the next \<open>node\<close>,
  its \<open>parent\<close> and the state.\<close>

definition erase_sibling_left :: "nat \<Rightarrow> rb_root \<Rightarrow> (node_ptr \<times> rb_root) option" where
  "erase_sibling_left p s =
     (let sibling = rb_right (rb_nodes s p) in
      if rb_is_red sibling s then do {
        s1 \<leftarrow> rb_rotate_left p (set_red p True (set_black_opt sibling s));
        Some (rb_right (rb_nodes s1 p), s1)
      } else Some (sibling, s))"

definition erase_rebalance_left ::
  "nat \<Rightarrow> node_ptr \<Rightarrow> rb_root \<Rightarrow> (node_ptr \<times> node_ptr \<times> rb_root) option" where
  "erase_rebalance_left p sibling s1 =
     (case sibling of
        None \<Rightarrow> Some (Some p, rb_parent (rb_nodes s1 p), s1)
      | Some b \<Rightarrow>
          if rb_is_black (rb_left (rb_nodes s1 b)) s1 \<and> rb_is_black (rb_right (rb_nodes s1 b)) s1
          then (let s2 = set_red b True s1 in Some (Some p, rb_parent (rb_nodes s2 p), s2))
          else do {
            (b', s2) \<leftarrow>
              (if rb_is_black (rb_right (rb_nodes s1 b)) s1 then do {
                 s2 \<leftarrow> rb_rotate_right b
                         (set_red b True (set_black_opt (rb_left (rb_nodes s1 b)) s1));
                 b' \<leftarrow> rb_right (rb_nodes s2 p);
                 Some (b', s2)
               } else Some (b, s1));
            let s3 = set_red p False (set_red b' (rb_red (rb_nodes s2 p)) s2);
            s4 \<leftarrow> rb_rotate_left p (set_black_opt (rb_right (rb_nodes s3 b')) s3);
            Some (rb_node_of s4, None, s4)
          })"

definition erase_fixup_left :: "nat \<Rightarrow> rb_root \<Rightarrow> (node_ptr \<times> node_ptr \<times> rb_root) option" where
  "erase_fixup_left p s = do {
     (sibling, s1) \<leftarrow> erase_sibling_left p s;
     erase_rebalance_left p sibling s1
   }"

definition erase_sibling_right :: "nat \<Rightarrow> rb_root \<Rightarrow> (node_ptr \<times> rb_root) option" where
  "erase_sibling_right p s =
     (let sibling = rb_left (rb_nodes s p) in
      if rb_is_red sibling s then do {
        s1 \<leftarrow> rb_rotate_right p (set_red p True (set_black_opt sibling s));
        Some (rb_left (rb_nodes s1 p), s1)
      } else Some (sibling, s))"

definition erase_rebalance_right ::
  "nat \<Rightarrow> node_ptr \<Rightarrow> rb_root \<Rightarrow> (node_ptr \<times> node_ptr \<times> rb_root) option" where
  "erase_rebalance_right p sibling s1 =
     (case sibling of
        None \<Rightarrow> Some (Some p, rb_parent (rb_nodes s1 p), s1)
      | Some b \<Rightarrow>
          if rb_is_black (rb_left (rb_nodes s1 b)) s1 \<and> rb_is_black (rb_right (rb_nodes s1 b)) s1
          then (let s2 = set_red b True s1 in Some (Some p, rb_parent (rb_nodes s2 p), s2))
          else do {
            (b', s2) \<leftarrow>
              (if rb_is_black (rb_left (rb_nodes s1 b)) s1 then do {
                 s2 \<leftarrow> rb_rotate_left b
                         (set_red b True (set_black_opt (rb_right (rb_nodes s1 b)) s1));
                 b' \<leftarrow> rb_left (rb_nodes s2 p);
                 Some (b', s2)
               } else Some (b, s1));
            let s3 = set_red p False (set_red b' (rb_red (rb_nodes s2 p)) s2);
            s4 \<leftarrow> rb_rotate_right p (set_black_opt (rb_left (rb_nodes s3 b')) s3);
            Some (rb_node_of s4, None, s4)
          })"

definition erase_fixup_right :: "nat \<Rightarrow> rb_root \<Rightarrow> (node_ptr \<times> node_ptr \<times> rb_root) option" where
  "erase_fixup_right p s = do {
     (sibling, s1) \<leftarrow> erase_sibling_right p s;
     erase_rebalance_right p sibling s1
   }"

partial_function (option) erase_fixup_loop ::
  "node_ptr \<Rightarrow> node_ptr \<Rightarrow> rb_root \<Rightarrow> (node_ptr \<times> rb_root) option" where
  "erase_fixup_loop n p s =
     (if n \<noteq> rb_node_of s \<and> rb_is_black n s then
        (case p of
           None \<Rightarrow> Some (n, s)
         | Some a \<Rightarrow>
             Option.bind
               (if n = rb_left (rb_nodes s a) then erase_fixup_left a s else erase_fixup_right a s)
               (\<lambda>(n', p', s'). erase_fixup_loop n' p' s'))
      else Some (n, s))"

definition rb_erase_fixup :: "node_ptr \<Rightarrow> node_ptr \<Rightarrow> rb_root \<Rightarrow> rb_root option" where
  "rb_erase_fixup n p s = do {
     (n', s1) \<leftarrow> erase_fixup_loop n p s;
     Some (set_black_opt n' s1)
   }"

text \<open>The replacement \<open>m\<close> takes the place, the left subtree and the colour of \<open>n\<close>.\<close>

definition rb_splice :: "nat \<Rightarrow> nat \<Rightarrow> rb_root \<Rightarrow> rb_root option" where
  "rb_splice n m s = do {
     let s2 = rb_replace_node n (Some m) s;
     let s3 = set_left m (rb_left (rb_nodes s2 n)) s2;
     l \<leftarrow> rb_left (rb_nodes s3 m);
     let s4 = set_parent l (Some m) s3;
     Some (set_red m (rb_red (rb_nodes s4 n)) s4)
   }"

text \<open>The unlinking half of \<^verbatim>\<open>rb_erase\<close>: \<open>child\<close>, \<open>child_parent\<close>, the colour of the node that
  left its place, and the state.\<close>

definition rb_unlink :: "nat \<Rightarrow> rb_root \<Rightarrow> (node_ptr \<times> node_ptr \<times> bool \<times> rb_root) option" where
  "rb_unlink n s =
     (let node = rb_nodes s n in
      case rb_left node of
        None \<Rightarrow> Some (rb_right node, rb_parent node, rb_red node,
                   rb_replace_node n (rb_right node) s)
      | Some left \<Rightarrow>
          (case rb_right node of
             None \<Rightarrow> Some (rb_left node, rb_parent node, rb_red node,
                        rb_replace_node n (rb_left node) s)
           | Some right \<Rightarrow> do {
               m \<leftarrow> rb_subtree_first right s;
               let m_red = rb_red (rb_nodes s m);
               let child = rb_right (rb_nodes s m);
               (child_parent, s1) \<leftarrow>
                 (if rb_parent (rb_nodes s m) = Some n
                  then Some (Some m, set_parent_opt child (Some m) s)
                  else do {
                    let s1 = rb_replace_node m child s;
                    let s2 = set_right m (rb_right (rb_nodes s1 n)) s1;
                    r \<leftarrow> rb_right (rb_nodes s2 m);
                    Some (rb_parent (rb_nodes s m), set_parent r (Some m) s2)
                  });
               s2 \<leftarrow> rb_splice n m s1;
               Some (child, child_parent, m_red, s2)
             }))"

definition rb_erase :: "nat \<Rightarrow> rb_root \<Rightarrow> rb_root option" where
  "rb_erase n s = do {
     (child, child_parent, was_red, s1) \<leftarrow> rb_unlink n s;
     s2 \<leftarrow> (if \<not> was_red then rb_erase_fixup child child_parent s1 else Some s1);
     Some (rb_node_init n s2)
   }"

subsection \<open>Traversal\<close>

definition rb_first :: "rb_root \<Rightarrow> nat option option" where
  "rb_first s =
     (case rb_node_of s of None \<Rightarrow> Some None | Some a \<Rightarrow> map_option Some (rb_subtree_first a s))"

partial_function (option) next_up :: "nat \<Rightarrow> rb_root \<Rightarrow> nat option option" where
  "next_up n s =
     (case rb_parent (rb_nodes s n) of
        None \<Rightarrow> Some None
      | Some p \<Rightarrow> if rb_right (rb_nodes s p) = Some n then next_up p s else Some (Some p))"

definition rb_next :: "nat \<Rightarrow> rb_root \<Rightarrow> nat option option" where
  "rb_next n s =
     (case rb_right (rb_nodes s n) of
        Some r \<Rightarrow> map_option Some (rb_subtree_first r s)
      | None \<Rightarrow> next_up n s)"

end
