(* ===== verification/Rbtree_Rep.thy ===== *)
theory Rbtree_Rep
  imports Rbtree
begin

text \<open>
  The pointers of \<^verbatim>\<open>kernel/rbtree.c\<close> read as a tree. A coloured tree of addresses is what the
  nodes represent, a list of frames is the path from a node up to the root, and each pointer
  operation is shown to be an operation on the focus of such a path.
\<close>

subsection \<open>Trees of addresses and paths\<close>

datatype rtree = Tip | Bin bool rtree nat rtree

datatype frame = In_left bool nat rtree | In_right rtree bool nat

primrec root_of :: "rtree \<Rightarrow> node_ptr" where
  "root_of Tip = None"
| "root_of (Bin c l a r) = Some a"

primrec inorder :: "rtree \<Rightarrow> nat list" where
  "inorder Tip = []"
| "inorder (Bin c l a r) = inorder l @ a # inorder r"

fun plug :: "frame list \<Rightarrow> rtree \<Rightarrow> rtree" where
  "plug [] t = t"
| "plug (In_left c a r # ctx) t = plug ctx (Bin c t a r)"
| "plug (In_right l c a # ctx) t = plug ctx (Bin c l a t)"

fun frame_addr :: "frame \<Rightarrow> nat" where
  "frame_addr (In_left c a r) = a"
| "frame_addr (In_right l c a) = a"

fun ctx_parent :: "frame list \<Rightarrow> node_ptr" where
  "ctx_parent [] = None"
| "ctx_parent (f # ctx) = Some (frame_addr f)"

fun ctx_root :: "frame list \<Rightarrow> node_ptr \<Rightarrow> node_ptr" where
  "ctx_root [] p = p"
| "ctx_root (f # ctx) p = ctx_root ctx (Some (frame_addr f))"

fun before :: "frame list \<Rightarrow> nat list" where
  "before [] = []"
| "before (In_left c a r # ctx) = before ctx"
| "before (In_right l c a # ctx) = before ctx @ inorder l @ [a]"

fun after :: "frame list \<Rightarrow> nat list" where
  "after [] = []"
| "after (In_left c a r # ctx) = a # inorder r @ after ctx"
| "after (In_right l c a # ctx) = after ctx"

lemma inorder_plug [simp]: "inorder (plug ctx t) = before ctx @ inorder t @ after ctx"
  by (induction ctx t rule: plug.induct) simp_all

lemma root_of_plug [simp]: "root_of (plug ctx t) = ctx_root ctx (root_of t)"
  by (induction ctx t rule: plug.induct) simp_all

lemma plug_append [simp]: "plug (xs @ ys) t = plug ys (plug xs t)"
  by (induction xs t rule: plug.induct) simp_all

lemma root_of_None [simp]: "root_of t = None \<longleftrightarrow> t = Tip"
  by (cases t) simp_all

lemma root_of_in: "root_of t = Some a \<Longrightarrow> a \<in> set (inorder t)"
  by (cases t) simp_all

subsection \<open>Representation\<close>

primrec tree_at :: "(nat \<Rightarrow> rb_node) \<Rightarrow> node_ptr \<Rightarrow> rtree \<Rightarrow> bool" where
  "tree_at h p Tip \<longleftrightarrow> True"
| "tree_at h p (Bin c l a r) \<longleftrightarrow>
     h a = \<lparr>rb_parent = p, rb_left = root_of l, rb_right = root_of r, rb_red = c\<rparr> \<and>
     tree_at h (Some a) l \<and> tree_at h (Some a) r"

fun path_at :: "(nat \<Rightarrow> rb_node) \<Rightarrow> frame list \<Rightarrow> node_ptr \<Rightarrow> bool" where
  "path_at h [] q \<longleftrightarrow> True"
| "path_at h (In_left c a r # ctx) q \<longleftrightarrow>
     h a = \<lparr>rb_parent = ctx_parent ctx, rb_left = q, rb_right = root_of r, rb_red = c\<rparr> \<and>
     tree_at h (Some a) r \<and> path_at h ctx (Some a)"
| "path_at h (In_right l c a # ctx) q \<longleftrightarrow>
     h a = \<lparr>rb_parent = ctx_parent ctx, rb_left = root_of l, rb_right = q, rb_red = c\<rparr> \<and>
     tree_at h (Some a) l \<and> path_at h ctx (Some a)"

text \<open>\<open>focused s ctx t\<close>: the state is a tree whose subtree \<open>t\<close> hangs below the path \<open>ctx\<close>.\<close>

definition focused :: "rb_root \<Rightarrow> frame list \<Rightarrow> rtree \<Rightarrow> bool" where
  "focused s ctx t \<longleftrightarrow>
     rb_node_of s = ctx_root ctx (root_of t) \<and> path_at (rb_nodes s) ctx (root_of t) \<and>
     tree_at (rb_nodes s) (ctx_parent ctx) t \<and> distinct (before ctx @ inorder t @ after ctx)"

definition represents :: "rb_root \<Rightarrow> rtree \<Rightarrow> bool" where
  "represents s t \<longleftrightarrow> focused s [] t"

lemma tree_at_plug:
  "tree_at h None (plug ctx t) \<longleftrightarrow>
     path_at h ctx (root_of t) \<and> tree_at h (ctx_parent ctx) t"
  by (induction ctx t rule: plug.induct) auto

lemma focused_plug: "focused s ctx t \<longleftrightarrow> represents s (plug ctx t)"
  by (auto simp: represents_def focused_def tree_at_plug)

lemma focused_up:
  "focused s (In_left c a r # ctx) t \<longleftrightarrow> focused s ctx (Bin c t a r)"
  "focused s (In_right l c a # ctx) t \<longleftrightarrow> focused s ctx (Bin c l a t)"
  by (simp_all add: focused_plug)

text \<open>An update elsewhere is invisible.\<close>

lemma tree_at_upd [simp]: "a \<notin> set (inorder t) \<Longrightarrow> tree_at (h(a := x)) p t = tree_at h p t"
  by (induction t arbitrary: p) auto

lemma path_at_upd [simp]:
  "a \<notin> set (before ctx) \<Longrightarrow> a \<notin> set (after ctx) \<Longrightarrow> path_at (h(a := x)) ctx q = path_at h ctx q"
  by (induction h ctx q rule: path_at.induct) auto

lemma set_simps [simp]:
  "rb_nodes (set_parent a p s) = (rb_nodes s)(a := (rb_nodes s a)\<lparr>rb_parent := p\<rparr>)"
  "rb_nodes (set_left a p s) = (rb_nodes s)(a := (rb_nodes s a)\<lparr>rb_left := p\<rparr>)"
  "rb_nodes (set_right a p s) = (rb_nodes s)(a := (rb_nodes s a)\<lparr>rb_right := p\<rparr>)"
  "rb_nodes (set_red a c s) = (rb_nodes s)(a := (rb_nodes s a)\<lparr>rb_red := c\<rparr>)"
  "rb_node_of (set_parent a p s) = rb_node_of s"
  "rb_node_of (set_left a p s) = rb_node_of s"
  "rb_node_of (set_right a p s) = rb_node_of s"
  "rb_node_of (set_red a c s) = rb_node_of s"
  by (simp_all add: set_parent_def set_left_def set_right_def set_red_def)

subsection \<open>Reading the focus\<close>

lemma focused_fields:
  assumes "focused s ctx (Bin c l a r)"
  shows "rb_nodes s a = \<lparr>rb_parent = ctx_parent ctx, rb_left = root_of l, rb_right = root_of r,
      rb_red = c\<rparr>"
  using assms by (simp add: focused_def)

lemma focused_child_black:
  assumes "focused s ctx t"
  shows "rb_is_black (root_of t) s \<longleftrightarrow> (case t of Tip \<Rightarrow> True | Bin c l a r \<Rightarrow> \<not> c)"
    "rb_is_red (root_of t) s \<longleftrightarrow> (case t of Tip \<Rightarrow> False | Bin c l a r \<Rightarrow> c)"
  using assms by (cases t; simp add: focused_def rb_is_black_def rb_is_red_def)+

subsection \<open>Recolouring and rotating the focus\<close>

lemma focused_set_red:
  assumes "focused s ctx (Bin c l a r)"
  shows "focused (set_red a d s) ctx (Bin d l a r)"
  using assms by (auto simp: focused_def)

lemma tree_at_cong: "(\<And>a. a \<in> set (inorder t) \<Longrightarrow> h' a = h a) \<Longrightarrow> tree_at h' p t = tree_at h p t"
  by (induction t arbitrary: p) auto

lemma path_at_cong:
  "(\<And>a. a \<in> set (before ctx) \<union> set (after ctx) \<Longrightarrow> h' a = h a) \<Longrightarrow>
     path_at h' ctx q = path_at h ctx q"
  by (induction h ctx q rule: path_at.induct) (auto cong: tree_at_cong)

lemma tree_at_reparent:
  assumes "tree_at (rb_nodes s) p t" "distinct (inorder t)"
  shows "tree_at (rb_nodes (set_parent_opt (root_of t) q s)) q t"
  using assms by (cases t) (auto simp: set_parent_opt_def)

lemma set_parent_opt_other:
  "root_of t = p \<Longrightarrow> a \<notin> set (inorder t) \<Longrightarrow> rb_nodes (set_parent_opt p q s) a = rb_nodes s a"
  by (cases t) (auto simp: set_parent_opt_def)

lemma set_parent_opt_root [simp]: "rb_node_of (set_parent_opt p q s) = rb_node_of s"
  by (simp add: set_parent_opt_def split: option.split)

text \<open>The state with the pointer above the focus turned to \<open>q\<close>.\<close>

definition rehung :: "rb_root \<Rightarrow> frame list \<Rightarrow> node_ptr \<Rightarrow> rb_root \<Rightarrow> bool" where
  "rehung s ctx q s' \<longleftrightarrow>
     path_at (rb_nodes s') ctx q \<and> rb_node_of s' = ctx_root ctx q \<and>
     (\<forall>a. a \<notin> set (before ctx) \<longrightarrow> a \<notin> set (after ctx) \<longrightarrow> rb_nodes s' a = rb_nodes s a)"

lemma redirect_left_rehung:
  assumes "path_at (rb_nodes s) ctx (Some n)" "rb_node_of s = ctx_root ctx (Some n)"
    and "distinct (before ctx @ after ctx)" "n \<notin> set (before ctx)" "n \<notin> set (after ctx)"
  shows "rehung s ctx q (redirect_left (ctx_parent ctx) n q s)"
proof (cases ctx)
  case Nil
  then show ?thesis
    by (simp add: redirect_left_def rehung_def)
next
  case (Cons f rest)
  then show ?thesis
    using assms by (cases f) (auto simp: redirect_left_def rehung_def dest: root_of_in)
qed

lemma redirect_right_rehung:
  assumes "path_at (rb_nodes s) ctx (Some n)" "rb_node_of s = ctx_root ctx (Some n)"
    and "distinct (before ctx @ after ctx)" "n \<notin> set (before ctx)" "n \<notin> set (after ctx)"
  shows "rehung s ctx q (redirect_right (ctx_parent ctx) n q s)"
proof (cases ctx)
  case Nil
  then show ?thesis
    by (simp add: redirect_right_def rehung_def)
next
  case (Cons f rest)
  then show ?thesis
    using assms by (cases f) (auto simp: redirect_right_def rehung_def dest: root_of_in)
qed

lemma focused_rotate_left:
  assumes "focused s ctx (Bin c A n (Bin d B r E))"
  shows "\<exists>s'. rb_rotate_left n s = Some s' \<and> focused s' ctx (Bin d (Bin c A n B) r E)"
proof -
  have f: "rb_nodes s n = \<lparr>rb_parent = ctx_parent ctx, rb_left = root_of A, rb_right = Some r, rb_red = c\<rparr>"
    "rb_nodes s r = \<lparr>rb_parent = Some n, rb_left = root_of B, rb_right = root_of E, rb_red = d\<rparr>"
    "tree_at (rb_nodes s) (Some n) A" "tree_at (rb_nodes s) (Some r) B"
    "tree_at (rb_nodes s) (Some r) E" "path_at (rb_nodes s) ctx (Some n)"
    "rb_node_of s = ctx_root ctx (Some n)"
    using assms by (simp_all add: focused_def)
  have dist: "distinct (before ctx @ inorder A @ n # inorder B @ r # inorder E @ after ctx)"
    using assms by (simp add: focused_def)
  let ?s1 = "set_right n (root_of B) s"
  let ?s2 = "set_parent_opt (root_of B) (Some n) ?s1"
  let ?s3 = "set_parent r (ctx_parent ctx) ?s2"
  let ?s4 = "redirect_left (ctx_parent ctx) n (Some r) ?s3"
  let ?s5 = "set_parent n (Some r) (set_left r (Some n) ?s4)"
  note other = set_parent_opt_other [OF refl, of _ B]
  have nr: "n \<noteq> r" "n \<notin> set (inorder B)" "r \<notin> set (inorder B)"
    using dist by auto
  have rot: "rb_rotate_left n s = Some ?s5"
    using nr by (simp add: rb_rotate_left_def Let_def f other)
  have out: "rb_nodes ?s3 a = rb_nodes s a" if "a \<noteq> n" "a \<noteq> r" "a \<notin> set (inorder B)" for a
    using that by (simp add: other)
  have "path_at (rb_nodes ?s3) ctx (Some n) = path_at (rb_nodes s) ctx (Some n)"
    using dist by (intro path_at_cong out) auto
  then have re: "rehung ?s3 ctx (Some r) ?s4"
    using f dist by (intro redirect_left_rehung) auto
  have keep: "rb_nodes ?s4 a = rb_nodes ?s3 a" if "a \<notin> set (before ctx)" "a \<notin> set (after ctx)" for a
    using re that by (simp add: rehung_def)
  have in_ctx: "n \<notin> set (before ctx)" "n \<notin> set (after ctx)" "r \<notin> set (before ctx)" "r \<notin> set (after ctx)"
    using dist by auto
  have same: "tree_at (rb_nodes ?s5) p t = tree_at (rb_nodes s) p t"
    if "\<And>a. a \<in> set (inorder t) \<Longrightarrow> a \<noteq> n \<and> a \<noteq> r \<and> a \<notin> set (inorder B) \<and>
        a \<notin> set (before ctx) \<and> a \<notin> set (after ctx)" for t p
  proof (rule tree_at_cong)
    fix a
    assume "a \<in> set (inorder t)"
    then show "rb_nodes ?s5 a = rb_nodes s a"
      using that by (simp add: keep other)
  qed
  have "tree_at (rb_nodes ?s2) (Some n) B"
    using f dist by (intro tree_at_reparent) auto
  moreover have "tree_at (rb_nodes ?s5) (Some n) B = tree_at (rb_nodes ?s2) (Some n) B"
  proof (rule tree_at_cong)
    fix a
    assume "a \<in> set (inorder B)"
    then have "a \<noteq> n" "a \<noteq> r" "a \<notin> set (before ctx)" "a \<notin> set (after ctx)"
      using dist by auto
    then show "rb_nodes ?s5 a = rb_nodes ?s2 a"
      by (simp add: keep)
  qed
  ultimately have B: "tree_at (rb_nodes ?s5) (Some n) B"
    by simp
  have "path_at (rb_nodes ?s5) ctx (Some r)"
    using re in_ctx by (simp add: rehung_def)
  moreover have "tree_at (rb_nodes ?s5) (Some n) A" "tree_at (rb_nodes ?s5) (Some r) E"
    using f dist same [of A "Some n"] same [of E "Some r"] by auto
  moreover have "rb_nodes ?s5 n = \<lparr>rb_parent = Some r, rb_left = root_of A, rb_right = root_of B, rb_red = c\<rparr>"
    using nr in_ctx by (simp add: keep f other)
  moreover have "rb_nodes ?s5 r = \<lparr>rb_parent = ctx_parent ctx, rb_left = Some n, rb_right = root_of E, rb_red = d\<rparr>"
    using nr in_ctx by (simp add: keep f other)
  ultimately have "focused ?s5 ctx (Bin d (Bin c A n B) r E)"
    using B re dist by (simp add: focused_def rehung_def)
  then show ?thesis
    using rot by blast
qed

subsection \<open>The mirror image\<close>

text \<open>Exchanging left and right everywhere turns each operation on one side into its
  counterpart on the other, so every fact below is proved for one side only.\<close>

definition flip_node :: "rb_node \<Rightarrow> rb_node" where
  "flip_node n = n\<lparr>rb_left := rb_right n, rb_right := rb_left n\<rparr>"

definition flip :: "rb_root \<Rightarrow> rb_root" where
  "flip s = s\<lparr>rb_nodes := \<lambda>a. flip_node (rb_nodes s a)\<rparr>"

primrec flip_tree :: "rtree \<Rightarrow> rtree" where
  "flip_tree Tip = Tip"
| "flip_tree (Bin c l a r) = Bin c (flip_tree r) a (flip_tree l)"

fun flip_frame :: "frame \<Rightarrow> frame" where
  "flip_frame (In_left c a r) = In_right (flip_tree r) c a"
| "flip_frame (In_right l c a) = In_left c a (flip_tree l)"

abbreviation flip_path :: "frame list \<Rightarrow> frame list" where
  "flip_path ctx \<equiv> map flip_frame ctx"

lemma flip_node_simps [simp]:
  "rb_parent (flip_node n) = rb_parent n" "rb_left (flip_node n) = rb_right n"
  "rb_right (flip_node n) = rb_left n" "rb_red (flip_node n) = rb_red n"
  "flip_node (flip_node n) = n"
  by (simp_all add: flip_node_def)

lemma flip_simps [simp]:
  "rb_nodes (flip s) a = flip_node (rb_nodes s a)" "rb_node_of (flip s) = rb_node_of s"
  "flip (flip s) = s"
  by (simp_all add: flip_def flip_node_def)

lemma flip_tree_simps [simp]:
  "flip_tree (flip_tree t) = t" "root_of (flip_tree t) = root_of t"
  "inorder (flip_tree t) = rev (inorder t)" "flip_tree t = Tip \<longleftrightarrow> t = Tip"
  by (induction t) auto

lemma flip_frame_simps [simp]:
  "flip_frame (flip_frame f) = f" "frame_addr (flip_frame f) = frame_addr f"
  by (cases f; simp)+

lemma flip_path_simps [simp]:
  "flip_path (flip_path ctx) = ctx" "ctx_parent (flip_path ctx) = ctx_parent ctx"
  "before (flip_path ctx) = rev (after ctx)" "after (flip_path ctx) = rev (before ctx)"
proof -
  show "flip_path (flip_path ctx) = ctx"
    by (simp add: map_idI)
  show "ctx_parent (flip_path ctx) = ctx_parent ctx"
    by (cases ctx) simp_all
  show "before (flip_path ctx) = rev (after ctx)" "after (flip_path ctx) = rev (before ctx)"
    by (induction ctx rule: after.induct) simp_all
qed

lemma ctx_root_flip [simp]: "ctx_root (flip_path ctx) p = ctx_root ctx p"
  by (induction ctx p rule: ctx_root.induct) simp_all

lemma plug_flip: "plug (flip_path ctx) (flip_tree t) = flip_tree (plug ctx t)"
  by (induction ctx t rule: plug.induct) (simp_all flip: flip_tree.simps)

lemma flip_node_eq:
  "flip_node n = \<lparr>rb_parent = p, rb_left = l, rb_right = r, rb_red = c\<rparr> \<longleftrightarrow>
     n = \<lparr>rb_parent = p, rb_left = r, rb_right = l, rb_red = c\<rparr>"
  by (cases n) (auto simp: flip_node_def)

lemma tree_at_flip: "tree_at (rb_nodes (flip s)) p (flip_tree t) \<longleftrightarrow> tree_at (rb_nodes s) p t"
  by (induction t arbitrary: p) (auto simp: flip_node_eq)

lemma path_at_flip: "path_at (rb_nodes (flip s)) (flip_path ctx) q \<longleftrightarrow> path_at (rb_nodes s) ctx q"
  by (induction ctx arbitrary: q rule: before.induct)
    (auto simp: flip_node_eq tree_at_flip)

lemma focused_flip: "focused (flip s) (flip_path ctx) (flip_tree t) \<longleftrightarrow> focused s ctx t"
  by (auto simp: focused_def tree_at_flip path_at_flip)

lemma rb_root_eqI:
  "(\<And>a. rb_nodes s a = rb_nodes s' a) \<Longrightarrow> rb_node_of s = rb_node_of s' \<Longrightarrow> s = (s' :: rb_root)"
  by (cases s; cases s') auto

lemma flip_set [simp]:
  "flip (set_parent a p s) = set_parent a p (flip s)"
  "flip (set_left a p s) = set_right a p (flip s)"
  "flip (set_right a p s) = set_left a p (flip s)"
  "flip (set_red a c s) = set_red a c (flip s)"
  "flip (s\<lparr>rb_node_of := q\<rparr>) = (flip s)\<lparr>rb_node_of := q\<rparr>"
  by (rule rb_root_eqI; simp add: flip_node_def)+

lemma flip_set_opt [simp]:
  "flip (set_parent_opt q p s) = set_parent_opt q p (flip s)"
  "flip (set_black_opt q s) = set_black_opt q (flip s)"
  by (simp_all add: set_parent_opt_def set_black_opt_def split: option.split)

lemma flip_redirect:
  "flip (redirect_left p n q s) = redirect_right p n q (flip s)"
  by (simp add: redirect_left_def redirect_right_def split: option.split)

lemma flip_rotate_left: "rb_rotate_right n (flip s) = map_option flip (rb_rotate_left n s)"
  by (cases "rb_right (rb_nodes s n)")
    (simp_all add: rb_rotate_left_def rb_rotate_right_def Let_def del: flip_set flip_set_opt set_simps
      flip: flip_set flip_set_opt flip_redirect)

lemma flip_rotate_right: "rb_rotate_left n (flip s) = map_option flip (rb_rotate_right n s)"
proof -
  have "map_option flip (rb_rotate_right n (flip (flip s))) = rb_rotate_left n (flip s)"
    unfolding flip_rotate_left by (cases "rb_rotate_left n (flip s)") simp_all
  then show ?thesis
    by simp
qed

lemma focused_rotate_right:
  assumes "focused s ctx (Bin c (Bin d E r B) n A)"
  shows "\<exists>s'. rb_rotate_right n s = Some s' \<and> focused s' ctx (Bin d E r (Bin c B n A))"
proof -
  have "focused (flip s) (flip_path ctx) (flip_tree (Bin c (Bin d E r B) n A))"
    using assms by (simp only: focused_flip)
  then obtain s' where "rb_rotate_left n (flip s) = Some s'"
    "focused s' (flip_path ctx) (flip_tree (Bin d E r (Bin c B n A)))"
    using focused_rotate_left by fastforce
  then show ?thesis
    using focused_flip [of "flip s'" ctx "Bin d E r (Bin c B n A)"]
    by (auto simp: flip_rotate_right)
qed

end
