(* ===== verification/Rbtree_Insert.thy ===== *)
theory Rbtree_Insert
  imports Rbtree_Rep
begin

text \<open>
  The red-black invariant on trees and on paths, and insertion: \<^verbatim>\<open>rb_insert_color\<close> on the pointers
  is a recolouring of the path above the new node, which keeps the order of the nodes and
  restores the invariant.
\<close>

subsection \<open>The red-black invariant\<close>

primrec is_red :: "rtree \<Rightarrow> bool" where
  "is_red Tip = False"
| "is_red (Bin c l a r) = c"

primrec blacken :: "rtree \<Rightarrow> rtree" where
  "blacken Tip = Tip"
| "blacken (Bin c l a r) = Bin False l a r"

text \<open>No red node has a red child; every way down to a leaf passes \<open>k\<close> black nodes.\<close>

primrec no_red_red :: "rtree \<Rightarrow> bool" where
  "no_red_red Tip \<longleftrightarrow> True"
| "no_red_red (Bin c l a r) \<longleftrightarrow>
     no_red_red l \<and> no_red_red r \<and> (c \<longrightarrow> \<not> is_red l \<and> \<not> is_red r)"

primrec black_height :: "rtree \<Rightarrow> nat \<Rightarrow> bool" where
  "black_height Tip k \<longleftrightarrow> k = 0"
| "black_height (Bin c l a r) k \<longleftrightarrow>
     (if c then black_height l k \<and> black_height r k
      else \<exists>j. k = Suc j \<and> black_height l j \<and> black_height r j)"

definition rb_tree :: "rtree \<Rightarrow> bool" where
  "rb_tree t \<longleftrightarrow> no_red_red t \<and> \<not> is_red t \<and> (\<exists>k. black_height t k)"

fun path_ok :: "frame list \<Rightarrow> bool \<Rightarrow> bool" where
  "path_ok [] c \<longleftrightarrow> True"
| "path_ok (In_left d a r # ctx) c \<longleftrightarrow>
     no_red_red r \<and> (d \<longrightarrow> \<not> c \<and> \<not> is_red r) \<and> path_ok ctx d"
| "path_ok (In_right l d a # ctx) c \<longleftrightarrow>
     no_red_red l \<and> (d \<longrightarrow> \<not> c \<and> \<not> is_red l) \<and> path_ok ctx d"

fun path_height :: "frame list \<Rightarrow> nat \<Rightarrow> nat \<Rightarrow> bool" where
  "path_height [] i k \<longleftrightarrow> i = k"
| "path_height (In_left c a r # ctx) i k \<longleftrightarrow>
     black_height r i \<and> path_height ctx (if c then i else Suc i) k"
| "path_height (In_right l c a # ctx) i k \<longleftrightarrow>
     black_height l i \<and> path_height ctx (if c then i else Suc i) k"

fun top_black :: "frame list \<Rightarrow> bool" where
  "top_black [] \<longleftrightarrow> True"
| "top_black [In_left c a r] \<longleftrightarrow> \<not> c"
| "top_black [In_right l c a] \<longleftrightarrow> \<not> c"
| "top_black (f # g # ctx) \<longleftrightarrow> top_black (g # ctx)"

lemma no_red_red_plug: "no_red_red (plug ctx t) \<longleftrightarrow> no_red_red t \<and> path_ok ctx (is_red t)"
  by (induction ctx t rule: plug.induct) auto

lemma black_height_plug:
  "black_height (plug ctx t) k \<longleftrightarrow> (\<exists>i. black_height t i \<and> path_height ctx i k)"
  by (induction ctx t rule: plug.induct) auto

lemma is_red_plug: "ctx \<noteq> [] \<Longrightarrow> is_red (plug ctx t) \<longleftrightarrow> \<not> top_black ctx"
proof (induction ctx arbitrary: t rule: top_black.induct)
  case (4 f g ctx)
  then show ?case
    by (cases f) simp_all
qed simp_all

lemma path_ok_mono: "path_ok ctx True \<Longrightarrow> path_ok ctx c"
  by (cases "(ctx, c)" rule: path_ok.cases) auto

lemma black_height_unique: "black_height t i \<Longrightarrow> black_height t j \<Longrightarrow> i = j"
  by (induction t arbitrary: i j) (auto split: if_splits)

lemma blacken_simps [simp]:
  "\<not> is_red (blacken t)" "inorder (blacken t) = inorder t" "root_of (blacken t) = root_of t"
  by (cases t; simp)+

lemma no_red_red_blacken [simp]: "no_red_red t \<Longrightarrow> no_red_red (blacken t)"
  by (cases t) simp_all

lemma black_height_blacken: "black_height t k \<Longrightarrow> is_red t \<Longrightarrow> black_height (blacken t) (Suc k)"
  by (cases t) simp_all

lemma blacken_black [simp]: "\<not> is_red t \<Longrightarrow> blacken t = t"
  by (cases t) simp_all

lemma rb_tree_blacken: "no_red_red t \<Longrightarrow> black_height t k \<Longrightarrow> rb_tree (blacken t)"
  using black_height_blacken [of t k] by (cases "is_red t") (auto simp: rb_tree_def)

text \<open>A red-black tree of \<open>n\<close> nodes is at most \<open>2 log (n + 1)\<close> deep.\<close>

primrec depth :: "rtree \<Rightarrow> nat" where
  "depth Tip = 0"
| "depth (Bin c l a r) = Suc (max (depth l) (depth r))"

lemma depth_le: "no_red_red t \<Longrightarrow> black_height t k \<Longrightarrow> depth t \<le> 2 * k + (if is_red t then 1 else 0)"
proof (induction t arbitrary: k)
  case (Bin c l a r)
  then show ?case
    by (cases c) (force split: if_splits)+
qed simp

lemma size_ge: "black_height t k \<Longrightarrow> 2 ^ k \<le> length (inorder t) + 1"
proof (induction t arbitrary: k)
  case (Bin c l a r)
  then show ?case
    by (cases c) fastforce+
qed simp

lemma rb_tree_depth: "rb_tree t \<Longrightarrow> 2 ^ (depth t div 2) \<le> length (inorder t) + 1"
proof -
  assume "rb_tree t"
  then obtain k where k: "black_height t k" "depth t \<le> 2 * k"
    using depth_le by (fastforce simp: rb_tree_def)
  then have "(2::nat) ^ (depth t div 2) \<le> 2 ^ k"
    by (intro power_increasing) auto
  then show ?thesis
    using size_ge [OF k(1)] by linarith
qed

subsection \<open>Recolouring the path above a red node\<close>

fun recolour :: "frame list \<Rightarrow> rtree \<Rightarrow> rtree" where
  "recolour (In_left True p s # In_left c g u # ctx) (Bin d x n y) =
     (if is_red u then recolour ctx (Bin True (Bin False (Bin d x n y) p s) g (blacken u))
      else plug ctx (Bin False (Bin d x n y) p (Bin True s g u)))"
| "recolour (In_right s True p # In_left c g u # ctx) (Bin d x n y) =
     (if is_red u then recolour ctx (Bin True (Bin False s p (Bin d x n y)) g (blacken u))
      else plug ctx (Bin False (Bin True s p x) n (Bin True y g u)))"
| "recolour (In_right s True p # In_right u c g # ctx) (Bin d x n y) =
     (if is_red u then recolour ctx (Bin True (blacken u) g (Bin False s p (Bin d x n y)))
      else plug ctx (Bin False (Bin True u g s) p (Bin d x n y)))"
| "recolour (In_left True p s # In_right u c g # ctx) (Bin d x n y) =
     (if is_red u then recolour ctx (Bin True (blacken u) g (Bin False (Bin d x n y) p s))
      else plug ctx (Bin False (Bin True u g x) n (Bin True y p s)))"
| "recolour ctx t = plug ctx t"

lemma inorder_recolour: "inorder (recolour ctx t) = before ctx @ inorder t @ after ctx"
  by (induction ctx t rule: recolour.induct) simp_all

lemma top_black_tl: "top_black (f # ctx) \<Longrightarrow> top_black ctx"
  by (cases ctx) simp_all

lemma path_ok_single: "top_black [f] \<Longrightarrow> path_ok [f] False \<Longrightarrow> path_ok [f] True"
  by (cases f) simp_all

lemma recolour_invariant:
  assumes "is_red t" "no_red_red t" "path_ok ctx False" "black_height t i" "path_height ctx i k"
    "top_black ctx"
  shows "no_red_red (recolour ctx t) \<and> black_height (recolour ctx t) k"
  using assms
proof (induction ctx t arbitrary: i rule: recolour.induct)
  case (1 p s c g u ctx d x n y)
  show ?case
  proof (cases "is_red u")
    case True
    have "no_red_red (recolour ctx (Bin True (Bin False (Bin d x n y) p s) g (blacken u))) \<and>
        black_height (recolour ctx (Bin True (Bin False (Bin d x n y) p s) g (blacken u))) k"
      using 1(2-) True black_height_blacken [of u i]
      by (intro 1(1) [where i = "Suc i"]) (auto dest: top_black_tl)
    then show ?thesis
      using True by simp
  next
    case False
    then show ?thesis
      using 1(2-) by (auto simp: no_red_red_plug black_height_plug)
  qed
next
  case (2 s p c g u ctx d x n y)
  show ?case
  proof (cases "is_red u")
    case True
    have "no_red_red (recolour ctx (Bin True (Bin False s p (Bin d x n y)) g (blacken u))) \<and>
        black_height (recolour ctx (Bin True (Bin False s p (Bin d x n y)) g (blacken u))) k"
      using 2(2-) True black_height_blacken [of u i]
      by (intro 2(1) [where i = "Suc i"]) (auto dest: top_black_tl)
    then show ?thesis
      using True by simp
  next
    case False
    then show ?thesis
      using 2(2-) by (auto simp: no_red_red_plug black_height_plug)
  qed
next
  case (3 s p u c g ctx d x n y)
  show ?case
  proof (cases "is_red u")
    case True
    have "no_red_red (recolour ctx (Bin True (blacken u) g (Bin False s p (Bin d x n y)))) \<and>
        black_height (recolour ctx (Bin True (blacken u) g (Bin False s p (Bin d x n y)))) k"
      using 3(2-) True black_height_blacken [of u i]
      by (intro 3(1) [where i = "Suc i"]) (auto dest: top_black_tl)
    then show ?thesis
      using True by simp
  next
    case False
    then show ?thesis
      using 3(2-) by (auto simp: no_red_red_plug black_height_plug)
  qed
next
  case (4 p s u c g ctx d x n y)
  show ?case
  proof (cases "is_red u")
    case True
    have "no_red_red (recolour ctx (Bin True (blacken u) g (Bin False (Bin d x n y) p s))) \<and>
        black_height (recolour ctx (Bin True (blacken u) g (Bin False (Bin d x n y) p s))) k"
      using 4(2-) True black_height_blacken [of u i]
      by (intro 4(1) [where i = "Suc i"]) (auto dest: top_black_tl)
    then show ?thesis
      using True by simp
  next
    case False
    then show ?thesis
      using 4(2-) by (auto simp: no_red_red_plug black_height_plug)
  qed
qed (auto simp: no_red_red_plug black_height_plug path_ok_single simp del: plug.simps)

subsection \<open>The loop body on the pointers\<close>

lemma focused_is_red:
  assumes "focused s ctx t"
  shows "rb_is_red (root_of t) s \<longleftrightarrow> is_red t" "rb_is_black (root_of t) s \<longleftrightarrow> \<not> is_red t"
  using focused_child_black [OF assms] by (cases t; simp)+

lemma focused_children:
  assumes "focused s ctx (Bin c l a r)"
  shows "focused s (In_left c a r # ctx) l" "focused s (In_right l c a # ctx) r"
  using assms by (simp_all add: focused_up)

lemma focused_blacken:
  assumes "focused s ctx t"
  shows "focused (set_black_opt (root_of t) s) ctx (blacken t)"
  using assms by (cases t) (auto simp: set_black_opt_def focused_set_red)

lemma focused_blacken_children:
  assumes "focused s ctx (Bin c l a r)"
  shows "focused (set_black_opt (root_of l) s) ctx (Bin c (blacken l) a r)"
    "focused (set_black_opt (root_of r) s) ctx (Bin c l a (blacken r))"
  using focused_children [OF assms, THEN focused_blacken] by (simp_all add: focused_up)

lemma focused_red_left:
  "focused s ctx (Bin c (Bin d x p y) g u) \<Longrightarrow> focused (set_red p e s) ctx (Bin c (Bin e x p y) g u)"
  using focused_set_red [of s "In_left c g u # ctx" d x p y e] by (simp add: focused_up)

lemma focused_red_right:
  "focused s ctx (Bin c u g (Bin d x p y)) \<Longrightarrow> focused (set_red p e s) ctx (Bin c u g (Bin e x p y))"
  using focused_set_red [of s "In_right u c g # ctx" d x p y e] by (simp add: focused_up)

lemma insert_left_uncle:
  assumes "focused s ctx (Bin c (Bin d x p y) g u)" "is_red u"
  shows "\<exists>s'. insert_color_left n p g s = Some (g, s') \<and>
    focused s' ctx (Bin True (Bin False x p y) g (blacken u))"
proof -
  have "rb_right (rb_nodes s g) = root_of u" "rb_is_red (root_of u) s"
    using focused_fields [OF assms(1)] focused_is_red [OF focused_children(2) [OF assms(1)]]
      assms(2) by simp_all
  then have "insert_color_left n p g s =
      Some (g, set_red g True (set_black_opt (root_of u) (set_red p False s)))"
    by (simp add: insert_color_left_def)
  moreover have "focused (set_red g True (set_black_opt (root_of u) (set_red p False s))) ctx
      (Bin True (Bin False x p y) g (blacken u))"
    using assms(1) by (intro focused_set_red [of _ _ c] focused_blacken_children focused_red_left)
  ultimately show ?thesis
    by blast
qed

lemma insert_left_outer:
  assumes "focused s ctx (Bin c (Bin d x p y) g u)" "\<not> is_red u" "root_of y \<noteq> Some n"
  shows "\<exists>s'. insert_color_left n p g s = Some (n, s') \<and>
    focused s' ctx (Bin False x p (Bin True y g u))"
proof -
  have "rb_right (rb_nodes s g) = root_of u" "\<not> rb_is_red (root_of u) s"
    using focused_fields [OF assms(1)] focused_is_red [OF focused_children(2) [OF assms(1)]]
      assms(2) by simp_all
  moreover have "rb_right (rb_nodes s p) = root_of y"
    using focused_fields [OF focused_children(1) [OF assms(1)]] by simp
  moreover have "focused (set_red g True (set_red p False s)) ctx (Bin True (Bin False x p y) g u)"
    using assms(1) by (intro focused_set_red [of _ _ c] focused_red_left)
  from focused_rotate_right [OF this] obtain s' where
    "rb_rotate_right g (set_red g True (set_red p False s)) = Some s'"
    "focused s' ctx (Bin False x p (Bin True y g u))" by blast
  ultimately show ?thesis
    using assms(3) by (simp add: insert_color_left_def)
qed

lemma insert_left_inner:
  assumes "focused s ctx (Bin c (Bin d x p (Bin e y n z)) g u)" "\<not> is_red u"
  shows "\<exists>s'. insert_color_left n p g s = Some (p, s') \<and>
    focused s' ctx (Bin False (Bin d x p y) n (Bin True z g u))"
proof -
  have "rb_right (rb_nodes s g) = root_of u" "\<not> rb_is_red (root_of u) s"
    using focused_fields [OF assms(1)] focused_is_red [OF focused_children(2) [OF assms(1)]]
      assms(2) by simp_all
  moreover have "rb_right (rb_nodes s p) = Some n"
    using focused_fields [OF focused_children(1) [OF assms(1)]] by simp
  moreover from focused_rotate_left [OF focused_children(1) [OF assms(1)]] obtain s1 where
    1: "rb_rotate_left p s = Some s1"
    and f: "focused s1 ctx (Bin c (Bin e (Bin d x p y) n z) g u)"
    by (auto simp: focused_up)
  moreover have "rb_parent (rb_nodes s1 p) = Some n" "rb_parent (rb_nodes s1 n) = Some g"
    using focused_fields [OF focused_children(1) [OF focused_children(1) [OF f]]]
      focused_fields [OF focused_children(1) [OF f]] by simp_all
  moreover have "focused (set_red g True (set_red n False s1)) ctx
      (Bin True (Bin False (Bin d x p y) n z) g u)"
    using f by (intro focused_set_red [of _ _ c] focused_red_left)
  from focused_rotate_right [OF this] obtain s' where
    "rb_rotate_right g (set_red g True (set_red n False s1)) = Some s'"
    "focused s' ctx (Bin False (Bin d x p y) n (Bin True z g u))" by blast
  ultimately show ?thesis
    by (simp add: insert_color_left_def)
qed

lemma flip_is_red [simp]: "rb_is_red p (flip s) = rb_is_red p s"
  by (simp add: rb_is_red_def split: option.split)

lemma flip_insert_color:
  "insert_color_left n p g (flip s) = map_option (map_prod id flip) (insert_color_right n p g s)"
proof -
  have "rb_rotate_right q (set_red q c (set_red r d (flip t))) =
      map_option flip (rb_rotate_left q (set_red q c (set_red r d t)))" for q r c d t
    using flip_rotate_left [of q "set_red q c (set_red r d t)"] by simp
  then show ?thesis
    by (cases "rb_rotate_right p s")
      (auto simp: insert_color_left_def insert_color_right_def Let_def flip_rotate_right
        Option.bind_eq_Some_conv map_option_case split: option.splits Option.bind_splits)
qed

lemma flip_colour [simp]:
  "is_red (flip_tree t) = is_red t" "flip_tree (blacken t) = blacken (flip_tree t)"
  by (cases t; simp)+

lemma insert_color_mirror:
  assumes "\<exists>s'. insert_color_left n p g (flip s) = Some (m, s') \<and>
    focused s' (flip_path ctx) (flip_tree t)"
  shows "\<exists>s'. insert_color_right n p g s = Some (m, s') \<and> focused s' ctx t"
proof -
  obtain s' where "insert_color_left n p g (flip s) = Some (m, s')"
    "focused s' (flip_path ctx) (flip_tree t)"
    using assms by blast
  then show ?thesis
    using focused_flip [of "flip s'" ctx t] by (auto simp: flip_insert_color)
qed

lemma insert_right_uncle:
  assumes "focused s ctx (Bin c u g (Bin d y p x))" "is_red u"
  shows "\<exists>s'. insert_color_right n p g s = Some (g, s') \<and>
    focused s' ctx (Bin True (blacken u) g (Bin False y p x))"
  using insert_left_uncle [of "flip s" "flip_path ctx" c d "flip_tree x" p "flip_tree y" g
      "flip_tree u" n] assms focused_flip [of s ctx "Bin c u g (Bin d y p x)"]
  by (intro insert_color_mirror) simp

lemma insert_right_outer:
  assumes "focused s ctx (Bin c u g (Bin d y p x))" "\<not> is_red u" "root_of y \<noteq> Some n"
  shows "\<exists>s'. insert_color_right n p g s = Some (n, s') \<and>
    focused s' ctx (Bin False (Bin True u g y) p x)"
  using insert_left_outer [of "flip s" "flip_path ctx" c d "flip_tree x" p "flip_tree y" g
      "flip_tree u" n] assms focused_flip [of s ctx "Bin c u g (Bin d y p x)"]
  by (intro insert_color_mirror) simp

lemma insert_right_inner:
  assumes "focused s ctx (Bin c u g (Bin d (Bin e z n y) p x))" "\<not> is_red u"
  shows "\<exists>s'. insert_color_right n p g s = Some (p, s') \<and>
    focused s' ctx (Bin False (Bin True u g z) n (Bin d y p x))"
  using insert_left_inner [of "flip s" "flip_path ctx" c d "flip_tree x" p e "flip_tree y" n
      "flip_tree z" g "flip_tree u"] assms
    focused_flip [of s ctx "Bin c u g (Bin d (Bin e z n y) p x)"]
  by (intro insert_color_mirror) simp

subsection \<open>The loop\<close>

lemma focused_distinct:
  assumes "focused s ctx (Bin c l a r)"
  shows "a \<notin> set (inorder l)" "a \<notin> set (inorder r)" "a \<notin> set (before ctx)" "a \<notin> set (after ctx)"
    "set (inorder l) \<inter> set (inorder r) = {}"
  using assms by (auto simp: focused_def)

lemma insert_loop_stop:
  assumes "focused s (f # ctx) (Bin c x n y)" "\<not> rb_red (rb_nodes s (frame_addr f))"
  shows "insert_color_loop n s = Some s"
  using focused_fields [OF assms(1)] assms(2) by (subst insert_color_loop.simps) simp

text \<open>The loop ends below a black node, to the left or to the right of it.\<close>

lemma insert_loop_end:
  assumes "focused s ctx (Bin False l p r)" "root_of l = Some n \<or> root_of r = Some n"
  shows "insert_color_loop n s = Some s \<and> represents s (plug ctx (Bin False l p r))"
proof -
  have "\<not> rb_red (rb_nodes s p)"
    using focused_fields [OF assms(1)] by simp
  then have "insert_color_loop n s = Some s"
    using focused_children [OF assms(1)] assms(2)
    by (cases l; cases r) (auto intro: insert_loop_stop)
  then show ?thesis
    using assms(1) by (simp add: focused_plug)
qed

lemma insert_body_left:
  assumes "focused s ctx (Bin c (Bin d x p y) g u)"
  shows "insert_color_body n p s = insert_color_left n p g s"
  using focused_fields [OF assms] focused_fields [OF focused_children(1) [OF assms]]
  by (simp add: insert_color_body_def)

lemma insert_body_right:
  assumes "focused s ctx (Bin c u g (Bin d x p y))"
  shows "insert_color_body n p s = insert_color_right n p g s"
proof -
  have "root_of u \<noteq> Some p"
    using focused_distinct [OF assms] root_of_in by fastforce
  then show ?thesis
    using focused_fields [OF assms] focused_fields [OF focused_children(2) [OF assms]]
    by (simp add: insert_color_body_def)
qed

lemma insert_loop_step:
  assumes "focused s (f # ctx) (Bin c l n r)" "rb_red (rb_nodes s (frame_addr f))"
    and "insert_color_body n (frame_addr f) s = Some (m, s')"
  shows "insert_color_loop n s = insert_color_loop m s'"
  using focused_fields [OF assms(1)] assms(2,3) by (subst insert_color_loop.simps) simp

lemma insert_loop_black:
  assumes "focused s ctx t" "root_of t = Some n" "path_ok ctx True"
  shows "insert_color_loop n s = Some s \<and> represents s (plug ctx t)"
proof (cases ctx)
  case Nil
  then show ?thesis
    using assms by (cases t) (auto simp: represents_def insert_color_loop.simps focused_fields)
next
  case (Cons f rest)
  then show ?thesis
    using assms insert_loop_end [of s rest _ _ _ n] by (cases f) (fastforce simp: focused_up)+
qed

lemma insert_loop_recolour:
  assumes "focused s ctx t" "root_of t = Some n" "path_ok ctx False" "top_black ctx"
  shows "\<exists>s'. insert_color_loop n s = Some s' \<and> represents s' (recolour ctx t)"
  using assms
proof (induction ctx t arbitrary: s n rule: recolour.induct)
  case (1 p b c g u ctx d x m y)
  then have f: "focused s ctx (Bin c (Bin True (Bin d x m y) p b) g u)" and n: "n = m"
    by (simp_all add: focused_up)
  have red: "rb_red (rb_nodes s p)"
    using focused_fields [OF focused_children(1) [OF f]] by simp
  note step = insert_loop_step [OF 1(2), simplified, OF red, unfolded insert_body_left [OF f]]
  show ?case
  proof (cases "is_red u")
    case True
    then show ?thesis
      using insert_left_uncle [OF f True, of m] step 1(1) [OF True, of _ g] 1(4-) n
      by (fastforce dest: top_black_tl)
  next
    case False
    moreover have "root_of b \<noteq> Some m"
      using focused_distinct(5) [OF focused_children(1) [OF f]] root_of_in by fastforce
    ultimately obtain s' where "insert_color_left m p g s = Some (m, s')"
      "focused s' ctx (Bin False (Bin d x m y) p (Bin True b g u))"
      using insert_left_outer [OF f] by blast
    then show ?thesis
      using step insert_loop_end [of s' ctx _ p _ m] False n by fastforce
  qed
next
  case (2 b p c g u ctx d x m y)
  then have f: "focused s ctx (Bin c (Bin True b p (Bin d x m y)) g u)" and n: "n = m"
    by (simp_all add: focused_up)
  have red: "rb_red (rb_nodes s p)"
    using focused_fields [OF focused_children(1) [OF f]] by simp
  note step = insert_loop_step [OF 2(2), simplified, OF red, unfolded insert_body_left [OF f]]
  show ?case
  proof (cases "is_red u")
    case True
    then show ?thesis
      using insert_left_uncle [OF f True, of m] step 2(1) [OF True, of _ g] 2(4-) n
      by (fastforce dest: top_black_tl)
  next
    case False
    then obtain s' where "insert_color_left m p g s = Some (p, s')"
      "focused s' ctx (Bin False (Bin True b p x) m (Bin True y g u))"
      using insert_left_inner [OF f] by blast
    then show ?thesis
      using step insert_loop_end [of s' ctx _ m _ p] False n by fastforce
  qed
next
  case (3 b p u c g ctx d x m y)
  then have f: "focused s ctx (Bin c u g (Bin True b p (Bin d x m y)))" and n: "n = m"
    by (simp_all add: focused_up)
  have red: "rb_red (rb_nodes s p)"
    using focused_fields [OF focused_children(2) [OF f]] by simp
  note step = insert_loop_step [OF 3(2), simplified, OF red, unfolded insert_body_right [OF f]]
  show ?case
  proof (cases "is_red u")
    case True
    then show ?thesis
      using insert_right_uncle [OF f True, of m] step 3(1) [OF True, of _ g] 3(4-) n
      by (fastforce dest: top_black_tl)
  next
    case False
    moreover have "root_of b \<noteq> Some m"
      using focused_distinct(5) [OF focused_children(2) [OF f]] root_of_in by fastforce
    ultimately obtain s' where "insert_color_right m p g s = Some (m, s')"
      "focused s' ctx (Bin False (Bin True u g b) p (Bin d x m y))"
      using insert_right_outer [OF f] by blast
    then show ?thesis
      using step insert_loop_end [of s' ctx _ p _ m] False n by fastforce
  qed
next
  case (4 p b u c g ctx d x m y)
  then have f: "focused s ctx (Bin c u g (Bin True (Bin d x m y) p b))" and n: "n = m"
    by (simp_all add: focused_up)
  have red: "rb_red (rb_nodes s p)"
    using focused_fields [OF focused_children(2) [OF f]] by simp
  note step = insert_loop_step [OF 4(2), simplified, OF red, unfolded insert_body_right [OF f]]
  show ?case
  proof (cases "is_red u")
    case True
    then show ?thesis
      using insert_right_uncle [OF f True, of m] step 4(1) [OF True, of _ g] 4(4-) n
      by (fastforce dest: top_black_tl)
  next
    case False
    then obtain s' where "insert_color_right m p g s = Some (p, s')"
      "focused s' ctx (Bin False (Bin True u g x) m (Bin True y p b))"
      using insert_right_inner [OF f] by blast
    then show ?thesis
      using step insert_loop_end [of s' ctx _ m _ p] False n by fastforce
  qed
qed (simp_all add: insert_loop_black path_ok_single del: plug.simps)

text \<open>Linking a node at an empty place and recolouring.\<close>

fun link_at :: "frame list \<Rightarrow> link" where
  "link_at [] = Root_link"
| "link_at (In_left c a r # ctx) = Left_link a"
| "link_at (In_right l c a # ctx) = Right_link a"

lemma focused_link:
  assumes "focused s ctx Tip" "a \<notin> set (before ctx)" "a \<notin> set (after ctx)"
  shows "focused (rb_link_node a (ctx_parent ctx) (link_at ctx) s) ctx (Bin True Tip a Tip)"
  using assms
  by (cases ctx rule: link_at.cases)
    (auto simp: focused_def rb_link_node_def link_store_def)

lemma rb_tree_pathD:
  assumes "rb_tree (plug ctx Tip)"
  shows "path_ok ctx False" "top_black ctx" "\<exists>k. path_height ctx 0 k"
proof -
  show "path_ok ctx False" "\<exists>k. path_height ctx 0 k"
    using assms by (auto simp: rb_tree_def no_red_red_plug black_height_plug)
  show "top_black ctx"
    using assms is_red_plug [of ctx Tip] by (cases "ctx = []") (auto simp: rb_tree_def)
qed

lemma insert_represents:
  assumes "represents s (plug ctx Tip)" "rb_tree (plug ctx Tip)" "a \<notin> set (inorder (plug ctx Tip))"
  shows "\<exists>s' t'. rb_insert_color a (rb_link_node a (ctx_parent ctx) (link_at ctx) s) = Some s' \<and>
    represents s' t' \<and> rb_tree t' \<and> inorder t' = before ctx @ a # after ctx"
proof -
  let ?t = "Bin True Tip a Tip"
  obtain k where ctx: "path_ok ctx False" "top_black ctx" "path_height ctx 0 k"
    using rb_tree_pathD [OF assms(2)] by blast
  have "focused (rb_link_node a (ctx_parent ctx) (link_at ctx) s) ctx ?t"
    using assms by (intro focused_link) (auto simp: focused_plug)
  from insert_loop_recolour [OF this _ ctx(1,2)] obtain s1 where
    loop: "insert_color_loop a (rb_link_node a (ctx_parent ctx) (link_at ctx) s) = Some s1"
    and s1: "represents s1 (recolour ctx ?t)" by auto
  have in_order: "inorder (recolour ctx ?t) = before ctx @ a # after ctx"
    by (simp add: inorder_recolour)
  then obtain r where r: "root_of (recolour ctx ?t) = Some r"
    by (cases "recolour ctx ?t") auto
  then have "rb_node_of s1 = Some r"
    using s1 by (simp add: represents_def focused_def)
  moreover have "represents (set_red r False s1) (blacken (recolour ctx ?t))"
    using focused_blacken [OF s1 [unfolded represents_def]] r
    by (simp add: represents_def set_black_opt_def)
  moreover have "rb_tree (blacken (recolour ctx ?t))"
    using recolour_invariant [of ?t ctx 0 k] ctx by (auto intro: rb_tree_blacken)
  ultimately show ?thesis
    using loop in_order by (auto simp: rb_insert_color_def)
qed

end
