(* ===== verification/Rbtree_Erase.thy ===== *)
theory Rbtree_Erase
  imports Rbtree_Insert
begin

text \<open>
  Removal: \<^verbatim>\<open>rb_erase\<close> unlinks the node, or its in-order successor in its place, and
  \<^verbatim>\<open>rb_erase_fixup\<close> repairs the path above a subtree that has become one black node too short.
\<close>

subsection \<open>Repairing a path\<close>

text \<open>The sibling \<open>b\<close> is black. The flag says whether the whole subtree is still one black node
  too short.\<close>

fun fix_left :: "bool \<Rightarrow> rtree \<Rightarrow> nat \<Rightarrow> rtree \<Rightarrow> bool \<times> rtree" where
  "fix_left c t p (Bin d l b r) =
     (if \<not> is_red l \<and> \<not> is_red r then (True, Bin c t p (Bin True l b r))
      else if \<not> is_red r then
        (case l of Bin e x m y \<Rightarrow> (False, Bin c (Bin False t p x) m (Bin False y b r))
         | Tip \<Rightarrow> (True, Tip))
      else (False, Bin c (Bin False t p l) b (blacken r)))"
| "fix_left c t p Tip = (True, Bin c t p Tip)"

definition fix_right :: "bool \<Rightarrow> rtree \<Rightarrow> nat \<Rightarrow> rtree \<Rightarrow> bool \<times> rtree" where
  "fix_right c u p t = map_prod id flip_tree (fix_left c (flip_tree t) p (flip_tree u))"

fun erase_fix :: "frame list \<Rightarrow> rtree \<Rightarrow> rtree" where
  "erase_fix [] t = blacken t"
| "erase_fix (In_left c p (Bin True l b r) # ctx) t =
     (if is_red t then plug (In_left c p (Bin True l b r) # ctx) (blacken t)
      else case fix_left True t p l of
        (True, u) \<Rightarrow> plug ctx (Bin False (blacken u) b r)
      | (False, u) \<Rightarrow> blacken (plug ctx (Bin False u b r)))"
| "erase_fix (In_left c p u # ctx) t =
     (if is_red t then plug (In_left c p u # ctx) (blacken t)
      else case fix_left c t p u of
        (True, v) \<Rightarrow> erase_fix ctx v
      | (False, v) \<Rightarrow> blacken (plug ctx v))"
| "erase_fix (In_right (Bin True l b r) c p # ctx) t =
     (if is_red t then plug (In_right (Bin True l b r) c p # ctx) (blacken t)
      else case fix_right True r p t of
        (True, u) \<Rightarrow> plug ctx (Bin False l b (blacken u))
      | (False, u) \<Rightarrow> blacken (plug ctx (Bin False l b u)))"
| "erase_fix (In_right u c p # ctx) t =
     (if is_red t then plug (In_right u c p # ctx) (blacken t)
      else case fix_right c u p t of
        (True, v) \<Rightarrow> erase_fix ctx v
      | (False, v) \<Rightarrow> blacken (plug ctx v))"

lemma inorder_fix_left:
  "fix_left c t p u = (up, v) \<Longrightarrow> inorder v = inorder t @ p # inorder u"
  by (auto split: if_splits rtree.splits elim!: fix_left.elims)

lemma inorder_fix_right:
  "fix_right c u p t = (up, v) \<Longrightarrow> inorder v = inorder u @ p # inorder t"
proof -
  assume "fix_right c u p t = (up, v)"
  then obtain w where "fix_left c (flip_tree t) p (flip_tree u) = (up, w)" "v = flip_tree w"
    by (cases "fix_left c (flip_tree t) p (flip_tree u)") (simp add: fix_right_def)
  then show ?thesis
    using inorder_fix_left by simp
qed

lemma inorder_erase_fix: "inorder (erase_fix ctx t) = before ctx @ inorder t @ after ctx"
  by (induction ctx t rule: erase_fix.induct)
    (auto split: prod.splits bool.splits dest!: inorder_fix_left inorder_fix_right
      simp del: fix_left.simps)

lemma flip_invariants [simp]:
  "no_red_red (flip_tree t) = no_red_red t" "black_height (flip_tree t) k = black_height t k"
  by (induction t arbitrary: k) auto

lemma fix_left_invariant:
  assumes "\<not> is_red t" "no_red_red t" "black_height t i"
    and "\<not> is_red u" "no_red_red u" "black_height u (Suc i)" "fix_left c t p u = (up, v)"
  shows "is_red v = c" "no_red_red (blacken v)" "\<not> up \<Longrightarrow> no_red_red v"
    "up \<Longrightarrow> \<not> c \<Longrightarrow> no_red_red v"
    "black_height v (if up then (if c then i else Suc i) else (if c then Suc i else Suc (Suc i)))"
  using assms
  by (auto elim!: fix_left.elims split: if_splits rtree.splits intro: black_height_blacken)

lemma fix_right_invariant:
  assumes "\<not> is_red t" "no_red_red t" "black_height t i"
    and "\<not> is_red u" "no_red_red u" "black_height u (Suc i)" "fix_right c u p t = (up, v)"
  shows "is_red v = c" "no_red_red (blacken v)" "\<not> up \<Longrightarrow> no_red_red v"
    "up \<Longrightarrow> \<not> c \<Longrightarrow> no_red_red v"
    "black_height v (if up then (if c then i else Suc i) else (if c then Suc i else Suc (Suc i)))"
proof -
  obtain w where w: "fix_left c (flip_tree t) p (flip_tree u) = (up, w)" "v = flip_tree w"
    using assms(7) by (cases "fix_left c (flip_tree t) p (flip_tree u)") (simp add: fix_right_def)
  have "\<not> is_red (flip_tree t)" "no_red_red (flip_tree t)" "black_height (flip_tree t) i"
    "\<not> is_red (flip_tree u)" "no_red_red (flip_tree u)" "black_height (flip_tree u) (Suc i)"
    using assms by simp_all
  note inv = fix_left_invariant [OF this w(1)]
  have flip_blacken: "no_red_red (blacken (flip_tree w)) = no_red_red (blacken w)"
    using flip_invariants(1) [of "blacken w"] by simp
  show "is_red v = c" "no_red_red (blacken v)" "\<not> up \<Longrightarrow> no_red_red v"
    "up \<Longrightarrow> \<not> c \<Longrightarrow> no_red_red v"
    "black_height v (if up then (if c then i else Suc i) else (if c then Suc i else Suc (Suc i)))"
    using inv w(2) flip_blacken by simp_all
qed

lemma rb_tree_plug:
  "no_red_red t \<Longrightarrow> path_ok ctx (is_red t) \<Longrightarrow> black_height t i \<Longrightarrow> path_height ctx i k \<Longrightarrow>
     top_black ctx \<Longrightarrow> (ctx = [] \<Longrightarrow> \<not> is_red t) \<Longrightarrow> rb_tree (plug ctx t)"
  using is_red_plug [of ctx t]
  by (cases "ctx = []") (auto simp: rb_tree_def no_red_red_plug black_height_plug)

lemma rb_tree_blacken_plug:
  "no_red_red t \<Longrightarrow> path_ok ctx (is_red t) \<Longrightarrow> black_height t i \<Longrightarrow> path_height ctx i k \<Longrightarrow>
     rb_tree (blacken (plug ctx t))"
  by (intro rb_tree_blacken [of _ k]) (auto simp: no_red_red_plug black_height_plug)

lemma erase_fix_invariant:
  assumes "no_red_red (blacken t)" "path_ok ctx False" "black_height t i" "path_height ctx (Suc i) k"
    "top_black ctx"
  shows "rb_tree (erase_fix ctx t)"
  using assms
proof (induction ctx t arbitrary: i rule: erase_fix.induct [case_names Top Red_l Tip_l Black_l Red_r Tip_r Black_r])
  case (Top t)
  then show ?case
    using black_height_blacken [of t i] by (cases "is_red t") (auto simp: rb_tree_def)
next
  case (Red_l c p l b r ctx t)
  show ?case
  proof (cases "is_red t")
    case True
    then show ?thesis
      using Red_l black_height_blacken [of t i]
      by (auto intro!: rb_tree_plug [of _ _ "Suc i"] simp del: plug.simps)
  next
    case False
    obtain up u where u: "fix_left True t p l = (up, u)"
      by fastforce
    note inv = fix_left_invariant [OF False _ _ _ _ _ u, of i]
    have "no_red_red t" "black_height t i" "\<not> is_red l" "no_red_red l" "black_height l (Suc i)"
      using Red_l False by auto
    note inv = inv [OF this]
    show ?thesis
      using Red_l False u inv black_height_blacken [of u i] top_black_tl [OF Red_l(5)]
      by (cases up) (auto intro!: rb_tree_plug [of _ _ "Suc (Suc i)"]
          rb_tree_blacken_plug [of _ _ "Suc (Suc i)" k])
  qed
next
  case (Black_l c p l b r ctx t)
  show ?case
  proof (cases "is_red t")
    case True
    then show ?thesis
      using Black_l(2-) black_height_blacken [of t i]
      by (auto intro!: rb_tree_plug [of _ _ "Suc i"] simp del: plug.simps)
  next
    case False
    obtain up v where v: "fix_left c t p (Bin False l b r) = (up, v)"
      by fastforce
    note inv = fix_left_invariant [OF False _ _ _ _ _ v, of i]
    have "no_red_red t" "black_height t i" "no_red_red (Bin False l b r)"
      "black_height (Bin False l b r) (Suc i)"
      using Black_l(2-) False by auto
    note inv = inv [OF this(1,2) _ this(3,4), simplified]
    show ?thesis
    proof (cases up)
      case True
      then have up: "up = True"
        by simp
      have "rb_tree (erase_fix ctx v)"
        using Black_l(2-) inv top_black_tl True
        by (intro Black_l(1) [OF False v [symmetric] up, where i = "if c then i else Suc i"])
          (auto split: if_splits dest: path_ok_mono)
      then show ?thesis
        using False v up by (simp del: fix_left.simps)
    next
      case up: False
      then show ?thesis
        using Black_l(2-) False v inv
        by (auto intro!: rb_tree_blacken_plug [of _ _ "if c then Suc i else Suc (Suc i)" k]
            simp del: fix_left.simps)
    qed
  qed
next
  case (Red_r l b r c p ctx t)
  show ?case
  proof (cases "is_red t")
    case True
    then show ?thesis
      using Red_r black_height_blacken [of t i]
      by (auto intro!: rb_tree_plug [of _ _ "Suc i"] simp del: plug.simps)
  next
    case False
    obtain up u where u: "fix_right True r p t = (up, u)"
      by fastforce
    note inv = fix_right_invariant [OF False _ _ _ _ _ u, of i]
    have "no_red_red t" "black_height t i" "\<not> is_red r" "no_red_red r" "black_height r (Suc i)"
      using Red_r False by auto
    note inv = inv [OF this]
    show ?thesis
      using Red_r False u inv black_height_blacken [of u i] top_black_tl [OF Red_r(5)]
      by (cases up) (auto intro!: rb_tree_plug [of _ _ "Suc (Suc i)"]
          rb_tree_blacken_plug [of _ _ "Suc (Suc i)" k])
  qed
next
  case (Black_r l b r c p ctx t)
  show ?case
  proof (cases "is_red t")
    case True
    then show ?thesis
      using Black_r(2-) black_height_blacken [of t i]
      by (auto intro!: rb_tree_plug [of _ _ "Suc i"] simp del: plug.simps)
  next
    case False
    obtain up v where v: "fix_right c (Bin False l b r) p t = (up, v)"
      by fastforce
    note inv = fix_right_invariant [OF False _ _ _ _ _ v, of i]
    have "no_red_red t" "black_height t i" "no_red_red (Bin False l b r)"
      "black_height (Bin False l b r) (Suc i)"
      using Black_r(2-) False by auto
    note inv = inv [OF this(1,2) _ this(3,4), simplified]
    show ?thesis
    proof (cases up)
      case True
      then have up: "up = True"
        by simp
      have "rb_tree (erase_fix ctx v)"
        using Black_r(2-) inv top_black_tl True
        by (intro Black_r(1) [OF False v [symmetric] up, where i = "if c then i else Suc i"])
          (auto split: if_splits dest: path_ok_mono)
      then show ?thesis
        using False v up by (simp del: fix_left.simps)
    next
      case up: False
      then show ?thesis
        using Black_r(2-) False v inv
        by (auto intro!: rb_tree_blacken_plug [of _ _ "if c then Suc i else Suc (Suc i)" k]
            simp del: fix_left.simps)
    qed
  qed
qed auto

subsection \<open>The loop body on the pointers\<close>

lemma rebalance_rotate:
  assumes "focused s ctx (Bin c t p (Bin d x m z))"
    and "s' = set_red p False (set_red m (rb_red (rb_nodes s p)) s)"
  shows "\<exists>s4. rb_rotate_left p (set_black_opt (rb_right (rb_nodes s' m)) s') = Some s4 \<and>
    focused s4 ctx (Bin c (Bin False t p x) m (blacken z))"
proof -
  have "rb_red (rb_nodes s p) = c"
    using focused_fields [OF assms(1)] by simp
  then have f: "focused s' ctx (Bin False t p (Bin c x m z))"
    using assms by (auto intro!: focused_set_red [of _ _ c] focused_red_right)
  then have "rb_right (rb_nodes s' m) = root_of z"
    using focused_fields [OF focused_children(2)] by fastforce
  moreover have "focused (set_black_opt (root_of z) s') ctx (Bin False t p (Bin c x m (blacken z)))"
    using focused_blacken_children(2) [OF focused_children(2) [OF f]] by (simp add: focused_up)
  ultimately show ?thesis
    using focused_rotate_left by simp
qed

lemma rebalance_left:
  assumes f: "focused s ctx (Bin c t p (Bin False l b r))"
    and v: "fix_left c t p (Bin False l b r) = (up, v)"
  shows "\<exists>s'. erase_rebalance_left p (Some b) s =
      Some (if up then Some p else rb_node_of s', if up then ctx_parent ctx else None, s') \<and>
    focused s' ctx v"
proof -
  note fb = focused_children(2) [OF f]
  have b: "rb_left (rb_nodes s b) = root_of l" "rb_right (rb_nodes s b) = root_of r"
    using focused_fields [OF fb] by simp_all
  have l: "rb_is_black (root_of l) s \<longleftrightarrow> \<not> is_red l"
    using focused_is_red [OF focused_children(1) [OF fb]] by simp
  have r: "rb_is_black (root_of r) s \<longleftrightarrow> \<not> is_red r"
    using focused_is_red [OF focused_children(2) [OF fb]] by simp
  consider (both) "\<not> is_red l" "\<not> is_red r" | (inner) "is_red l" "\<not> is_red r" | (outer) "is_red r"
    by blast
  then show ?thesis
  proof cases
    case both
    have "focused (set_red b True s) ctx (Bin c t p (Bin True l b r))"
      using f by (rule focused_red_right)
    then show ?thesis
      using both v b l r focused_fields [of "set_red b True s" ctx c t p]
      by (auto simp: erase_rebalance_left_def Let_def simp del: set_simps)
  next
    case inner
    then obtain e x m y where lm: "l = Bin e x m y"
      by (cases l) auto
    have "focused (set_red b True (set_black_opt (root_of l) s)) (In_right t c p # ctx)
        (Bin True (Bin False x m y) b r)"
      using focused_set_red [OF focused_blacken_children(1) [OF fb], of True] lm by simp
    from focused_rotate_right [OF this] obtain s2 where
      s2: "rb_rotate_right b (set_red b True (set_black_opt (root_of l) s)) = Some s2"
      and f2: "focused s2 ctx (Bin c t p (Bin False x m (Bin True y b r)))"
      by (auto simp: focused_up)
    have "rb_right (rb_nodes s2 p) = Some m"
      using focused_fields [OF f2] by simp
    then show ?thesis
      using inner v b l r s2 lm rebalance_rotate [OF f2 refl]
      by (auto simp: erase_rebalance_left_def Let_def simp del: set_simps)
  next
    case outer
    then show ?thesis
      using v b l r rebalance_rotate [OF f refl]
      by (auto simp: erase_rebalance_left_def Let_def simp del: set_simps)
  qed
qed

lemma sibling_left_black:
  assumes "focused s ctx (Bin c t p u)" "\<not> is_red u"
  shows "erase_sibling_left p s = Some (root_of u, s)"
  using focused_fields [OF assms(1)] focused_is_red [OF focused_children(2) [OF assms(1)]] assms(2)
  by (simp add: erase_sibling_left_def)

lemma sibling_left_red:
  assumes f: "focused s ctx (Bin c t p (Bin True l b r))"
  shows "\<exists>s'. erase_sibling_left p s = Some (root_of l, s') \<and>
    focused s' ctx (Bin False (Bin True t p l) b r)"
proof -
  have b: "rb_right (rb_nodes s p) = Some b" "rb_is_red (Some b) s"
    using focused_fields [OF f] focused_is_red [OF focused_children(2) [OF f]] by simp_all
  have "focused (set_red p True (set_black_opt (Some b) s)) ctx (Bin True t p (Bin False l b r))"
    using focused_set_red [OF focused_blacken_children(2) [OF f], of True] by simp
  from focused_rotate_left [OF this] obtain s' where
    s': "rb_rotate_left p (set_red p True (set_black_opt (Some b) s)) = Some s'"
    "focused s' ctx (Bin False (Bin True t p l) b r)" by blast
  moreover have "rb_right (rb_nodes s' p) = root_of l"
    using focused_fields [OF focused_children(1) [OF s'(2)]] by simp
  ultimately show ?thesis
    using b by (simp add: erase_sibling_left_def)
qed

lemma flip_is_black [simp]: "rb_is_black p (flip s) = rb_is_black p s"
  by (simp add: rb_is_black_def split: option.split)

lemmas unflip = flip_set [symmetric] flip_set_opt [symmetric]

lemma flip_sibling:
  "erase_sibling_left p (flip s) = map_option (map_prod id flip) (erase_sibling_right p s)"
  by (cases "rb_rotate_right p (set_red p True (set_black_opt (rb_left (rb_nodes s p)) s))")
    (simp_all add: erase_sibling_left_def erase_sibling_right_def Let_def unflip flip_rotate_right
      del: flip_set flip_set_opt set_simps)

lemma map_option_bind: "map_option f (Option.bind x g) = Option.bind x (\<lambda>y. map_option f (g y))"
  by (cases x) simp_all

lemma flip_rebalance:
  "erase_rebalance_left p b (flip s) =
     map_option (\<lambda>(n, q, t). (n, q, flip t)) (erase_rebalance_right p b s)"
  by (cases b)
    (auto simp: erase_rebalance_left_def erase_rebalance_right_def Let_def unflip map_option_bind
      flip_rotate_left flip_rotate_right bind_map_option comp_def
      simp del: flip_set flip_set_opt set_simps)

lemma fixup_left_black:
  assumes "focused s ctx (Bin c t p u)" "\<not> is_red u" "u \<noteq> Tip" "fix_left c t p u = (up, v)"
  shows "\<exists>s'. erase_fixup_left p s =
      Some (if up then Some p else rb_node_of s', if up then ctx_parent ctx else None, s') \<and>
    focused s' ctx v"
proof -
  obtain l b r where u: "u = Bin False l b r"
    using assms(2,3) by (cases u) auto
  show ?thesis
    using sibling_left_black [OF assms(1,2)] rebalance_left [OF assms(1) [unfolded u]] assms(4) u
    by (simp add: erase_fixup_left_def)
qed

lemma fixup_left_red:
  assumes "focused s ctx (Bin c t p (Bin True l b r))" "\<not> is_red l" "l \<noteq> Tip"
    and "fix_left True t p l = (up, v)"
  shows "\<exists>s'. erase_fixup_left p s =
      Some (if up then Some p else rb_node_of s', if up then Some b else None, s') \<and>
    focused s' ctx (Bin False v b r)"
proof -
  obtain x m y where l: "l = Bin False x m y"
    using assms(2,3) by (cases l) auto
  obtain s1 where s1: "erase_sibling_left p s = Some (root_of l, s1)"
    and f: "focused s1 (In_left False b r # ctx) (Bin True t p l)"
    using sibling_left_red [OF assms(1)] by (auto simp: focused_up)
  show ?thesis
    using s1 rebalance_left [OF f [unfolded l]] assms(4) l
    by (cases up) (simp_all add: erase_fixup_left_def focused_up)
qed

lemma flip_fixup:
  "erase_fixup_left p (flip s) = map_option (\<lambda>(n, q, t). (n, q, flip t)) (erase_fixup_right p s)"
  by (auto simp: erase_fixup_left_def erase_fixup_right_def flip_sibling flip_rebalance
      map_option_bind bind_map_option comp_def split_def)

lemma fixup_mirror:
  assumes "\<exists>s'. erase_fixup_left p (flip s) =
      Some (if up then Some p else rb_node_of s', if up then q else None, s') \<and>
    focused s' (flip_path ctx) (flip_tree t)"
  shows "\<exists>s'. erase_fixup_right p s =
      Some (if up then Some p else rb_node_of s', if up then q else None, s') \<and> focused s' ctx t"
proof -
  obtain s' where "erase_fixup_left p (flip s) =
      Some (if up then Some p else rb_node_of s', if up then q else None, s')"
    "focused s' (flip_path ctx) (flip_tree t)"
    using assms by blast
  then show ?thesis
    using focused_flip [of "flip s'" ctx t] by (auto simp: flip_fixup)
qed

lemma fixup_right_black:
  assumes "focused s ctx (Bin c u p t)" "\<not> is_red u" "u \<noteq> Tip" "fix_right c u p t = (up, v)"
  shows "\<exists>s'. erase_fixup_right p s =
      Some (if up then Some p else rb_node_of s', if up then ctx_parent ctx else None, s') \<and>
    focused s' ctx v"
proof -
  obtain w where "fix_left c (flip_tree t) p (flip_tree u) = (up, w)" "v = flip_tree w"
    using assms(4) by (cases "fix_left c (flip_tree t) p (flip_tree u)") (simp add: fix_right_def)
  then show ?thesis
    using fixup_left_black [of "flip s" "flip_path ctx" c "flip_tree t" p "flip_tree u" up w]
      assms focused_flip [of s ctx "Bin c u p t"]
    by (intro fixup_mirror) (cases up; simp)
qed

lemma fixup_right_red:
  assumes "focused s ctx (Bin c (Bin True l b r) p t)" "\<not> is_red r" "r \<noteq> Tip"
    and "fix_right True r p t = (up, v)"
  shows "\<exists>s'. erase_fixup_right p s =
      Some (if up then Some p else rb_node_of s', if up then Some b else None, s') \<and>
    focused s' ctx (Bin False l b v)"
proof -
  obtain w where "fix_left True (flip_tree t) p (flip_tree r) = (up, w)" "v = flip_tree w"
    using assms(4)
    by (cases "fix_left True (flip_tree t) p (flip_tree r)") (simp add: fix_right_def)
  then show ?thesis
    using fixup_left_red [of "flip s" "flip_path ctx" c "flip_tree t" p "flip_tree r" b
        "flip_tree l" up w] assms focused_flip [of s ctx "Bin c (Bin True l b r) p t"]
    by (intro fixup_mirror) (cases up; simp)
qed

subsection \<open>The loop\<close>

lemma fixup_exit:
  assumes "focused s ctx t" "root_of t = rb_node_of s \<or> is_red t"
  shows "\<exists>s'. rb_erase_fixup (root_of t) q s = Some s' \<and> represents s' (plug ctx (blacken t))"
proof -
  have "erase_fixup_loop (root_of t) q s = Some (root_of t, s)"
    using focused_is_red(2) [OF assms(1)] assms(2) by (subst erase_fixup_loop.simps) auto
  then have "rb_erase_fixup (root_of t) q s = Some (set_black_opt (root_of t) s)"
    by (simp add: rb_erase_fixup_def)
  then show ?thesis
    using focused_blacken [OF assms(1), unfolded focused_plug] by blast
qed

lemma fixup_done:
  assumes "focused s ctx t"
  shows "\<exists>s'. rb_erase_fixup (rb_node_of s) None s = Some s' \<and> represents s' (blacken (plug ctx t))"
proof -
  have "focused s [] (plug ctx t)"
    using assms unfolding focused_plug [of s ctx] represents_def .
  moreover have "rb_node_of s = root_of (plug ctx t)"
    using assms by (simp add: focused_def)
  ultimately show ?thesis
    using fixup_exit [of s "[]" "plug ctx t" None] by simp
qed

lemma ctx_root_in:
  "\<exists>a. ctx_root (f # ctx) q = Some a \<and> (a \<in> set (before (f # ctx)) \<or> a \<in> set (after (f # ctx)))"
proof (induction ctx arbitrary: f q)
  case Nil
  then show ?case
    by (cases f) simp_all
next
  case (Cons g ctx)
  then show ?case
    using Cons [of g "Some (frame_addr f)"] by (cases f) auto
qed

lemma focused_not_root: "focused s (f # ctx) t \<Longrightarrow> root_of t \<noteq> rb_node_of s"
  using ctx_root_in [of f ctx "root_of t"] root_of_in [of t] by (force simp: focused_def)

lemma fixup_step:
  assumes "focused s (f # ctx) t" "\<not> is_red t"
  shows "rb_erase_fixup (root_of t) (Some (frame_addr f)) s =
    Option.bind
      (if root_of t = rb_left (rb_nodes s (frame_addr f)) then erase_fixup_left (frame_addr f) s
       else erase_fixup_right (frame_addr f) s)
      (\<lambda>(n', p', s'). rb_erase_fixup n' p' s')"
proof -
  have "erase_fixup_loop (root_of t) (Some (frame_addr f)) s =
    Option.bind
      (if root_of t = rb_left (rb_nodes s (frame_addr f)) then erase_fixup_left (frame_addr f) s
       else erase_fixup_right (frame_addr f) s)
      (\<lambda>(n', p', s'). erase_fixup_loop n' p' s')"
    using focused_not_root [OF assms(1)] focused_is_red(2) [OF assms(1)] assms(2)
    by (subst erase_fixup_loop.simps) simp
  then show ?thesis
    by (simp add: rb_erase_fixup_def split_def)
qed

lemma fixup_turn_left:
  assumes "focused s ctx (Bin c t p u)" "\<not> is_red t" "u \<noteq> Tip"
  shows "rb_erase_fixup (root_of t) (Some p) s =
    Option.bind (erase_fixup_left p s) (\<lambda>(n', p', s'). rb_erase_fixup n' p' s')"
  using fixup_step [OF focused_children(1) [OF assms(1)] assms(2)] focused_fields [OF assms(1)]
  by simp

lemma fixup_turn_right:
  assumes "focused s ctx (Bin c u p t)" "\<not> is_red t" "u \<noteq> Tip"
  shows "rb_erase_fixup (root_of t) (Some p) s =
    Option.bind (erase_fixup_right p s) (\<lambda>(n', p', s'). rb_erase_fixup n' p' s')"
proof -
  have "root_of t \<noteq> root_of u"
    using focused_distinct(5) [OF assms(1)] assms(3) by (cases t; cases u) auto
  then show ?thesis
    using fixup_step [OF focused_children(2) [OF assms(1)] assms(2)] focused_fields [OF assms(1)]
    by simp
qed

lemma fix_left_up: "fix_left c t p u = (up, v) \<Longrightarrow> up \<Longrightarrow> root_of v = Some p \<and> is_red v = c"
  by (auto elim!: fix_left.elims split: if_splits rtree.splits)

lemma fix_right_up: "fix_right c u p t = (up, v) \<Longrightarrow> up \<Longrightarrow> root_of v = Some p \<and> is_red v = c"
  using fix_left_up [of c "flip_tree t" p "flip_tree u" up]
  by (cases "fix_left c (flip_tree t) p (flip_tree u)") (auto simp: fix_right_def)

lemma fix_left_height:
  "black_height t i \<Longrightarrow> black_height (Bin False l b r) (Suc i) \<Longrightarrow>
     fix_left c t p (Bin False l b r) = (up, v) \<Longrightarrow> up \<Longrightarrow> black_height v (if c then i else Suc i)"
  by (auto split: if_splits rtree.splits)

lemma fix_right_height:
  "black_height t i \<Longrightarrow> black_height (Bin False l b r) (Suc i) \<Longrightarrow>
     fix_right c (Bin False l b r) p t = (up, v) \<Longrightarrow> up \<Longrightarrow> black_height v (if c then i else Suc i)"
  using fix_left_height [of "flip_tree t" i "flip_tree r" b "flip_tree l" c p up "flip_tree v"]
  by (cases "fix_left c (flip_tree t) p (flip_tree (Bin False l b r))")
    (auto simp: fix_right_def simp del: fix_left.simps)

lemma fixup_loop:
  assumes "focused s ctx t" "path_ok ctx False" "black_height t i" "path_height ctx (Suc i) k"
  shows "\<exists>s'. rb_erase_fixup (root_of t) (ctx_parent ctx) s = Some s' \<and> represents s' (erase_fix ctx t)"
  using assms
proof (induction ctx t arbitrary: s i rule: erase_fix.induct [case_names Top Red_l Tip_l Black_l Red_r Tip_r Black_r])
  case (Top t)
  then show ?case
    using fixup_exit [of s "[]" t] by (auto simp: focused_def)
next
  case (Red_l c p l b r ctx t)
  show ?case
  proof (cases "is_red t")
    case True
    then show ?thesis
      using fixup_exit [OF Red_l(1)] by simp
  next
    case False
    obtain up v where v: "fix_left True t p l = (up, v)"
      by fastforce
    have f: "focused s ctx (Bin c t p (Bin True l b r))" and l: "\<not> is_red l" "l \<noteq> Tip"
      using Red_l by (auto simp: focused_up)
    obtain s' where s': "erase_fixup_left p s =
        Some (if up then Some p else rb_node_of s', if up then Some b else None, s')"
      and f': "focused s' ctx (Bin False v b r)"
      using fixup_left_red [OF f l v] by blast
    have "rb_erase_fixup (root_of t) (Some p) s = Option.bind (erase_fixup_left p s)
        (\<lambda>(n', p', s'). rb_erase_fixup n' p' s')"
      by (rule fixup_turn_left [OF f False]) simp
    then show ?thesis
      using s' False v fixup_done [OF f'] fix_left_up [OF v]
        fixup_exit [OF focused_children(1) [OF f'], of "Some b"]
      by (cases up) (auto simp del: fix_left.simps)
  qed
next
  case (Black_l c p l b r ctx t)
  show ?case
  proof (cases "is_red t")
    case True
    then show ?thesis
      using fixup_exit [OF Black_l(2)] by simp
  next
    case False
    obtain up v where v: "fix_left c t p (Bin False l b r) = (up, v)"
      by fastforce
    have f: "focused s ctx (Bin c t p (Bin False l b r))"
      using Black_l by (auto simp: focused_up)
    obtain s' where s': "erase_fixup_left p s =
        Some (if up then Some p else rb_node_of s', if up then ctx_parent ctx else None, s')"
      and f': "focused s' ctx v"
      using fixup_left_black [OF f _ _ v] by auto
    have turn: "rb_erase_fixup (root_of t) (Some p) s = Option.bind (erase_fixup_left p s)
        (\<lambda>(n', p', s'). rb_erase_fixup n' p' s')"
      by (rule fixup_turn_left [OF f False]) simp
    show ?thesis
    proof (cases up)
      case True
      then have up: "up = True"
        by simp
      have "black_height v (if c then i else Suc i)"
        using fix_left_height [OF _ _ v] Black_l(4,5) up by simp
      then have "\<exists>s''. rb_erase_fixup (root_of v) (ctx_parent ctx) s' = Some s'' \<and>
          represents s'' (erase_fix ctx v)"
        using Black_l(3-) f' up
        by (intro Black_l(1) [OF False v [symmetric] up, where i = "if c then i else Suc i"])
          (auto split: if_splits dest: path_ok_mono)
      then show ?thesis
        using turn s' False v fix_left_up [OF v] up by (simp del: fix_left.simps)
    next
      case up: False
      then show ?thesis
        using turn s' False v fixup_done [OF f'] by (auto simp del: fix_left.simps)
    qed
  qed
next
  case (Red_r l b r c p ctx t)
  show ?case
  proof (cases "is_red t")
    case True
    then show ?thesis
      using fixup_exit [OF Red_r(1)] by simp
  next
    case False
    obtain up v where v: "fix_right True r p t = (up, v)"
      by fastforce
    have f: "focused s ctx (Bin c (Bin True l b r) p t)" and l: "\<not> is_red r" "r \<noteq> Tip"
      using Red_r by (auto simp: focused_up)
    obtain s' where s': "erase_fixup_right p s =
        Some (if up then Some p else rb_node_of s', if up then Some b else None, s')"
      and f': "focused s' ctx (Bin False l b v)"
      using fixup_right_red [OF f l v] by blast
    have "rb_erase_fixup (root_of t) (Some p) s = Option.bind (erase_fixup_right p s)
        (\<lambda>(n', p', s'). rb_erase_fixup n' p' s')"
      by (rule fixup_turn_right [OF f False]) simp
    then show ?thesis
      using s' False v fixup_done [OF f'] fix_right_up [OF v]
        fixup_exit [OF focused_children(2) [OF f'], of "Some b"]
      by (cases up) (auto simp del: fix_left.simps)
  qed
next
  case (Black_r l b r c p ctx t)
  show ?case
  proof (cases "is_red t")
    case True
    then show ?thesis
      using fixup_exit [OF Black_r(2)] by simp
  next
    case False
    obtain up v where v: "fix_right c (Bin False l b r) p t = (up, v)"
      by fastforce
    have f: "focused s ctx (Bin c (Bin False l b r) p t)"
      using Black_r by (auto simp: focused_up)
    obtain s' where s': "erase_fixup_right p s =
        Some (if up then Some p else rb_node_of s', if up then ctx_parent ctx else None, s')"
      and f': "focused s' ctx v"
      using fixup_right_black [OF f _ _ v] by auto
    have turn: "rb_erase_fixup (root_of t) (Some p) s = Option.bind (erase_fixup_right p s)
        (\<lambda>(n', p', s'). rb_erase_fixup n' p' s')"
      by (rule fixup_turn_right [OF f False]) simp
    show ?thesis
    proof (cases up)
      case True
      then have up: "up = True"
        by simp
      have "black_height v (if c then i else Suc i)"
        using fix_right_height [OF _ _ v] Black_r(4,5) up by simp
      then have "\<exists>s''. rb_erase_fixup (root_of v) (ctx_parent ctx) s' = Some s'' \<and>
          represents s'' (erase_fix ctx v)"
        using Black_r(3-) f' up
        by (intro Black_r(1) [OF False v [symmetric] up, where i = "if c then i else Suc i"])
          (auto split: if_splits dest: path_ok_mono)
      then show ?thesis
        using turn s' False v fix_right_up [OF v] up by (simp del: fix_left.simps)
    next
      case up: False
      then show ?thesis
        using turn s' False v fixup_done [OF f'] by (auto simp del: fix_left.simps)
    qed
  qed
qed auto

end
