(* ===== verification/Rbtree_Spec.thy ===== *)
theory Rbtree_Spec
  imports Rbtree_Erase
begin

text \<open>
  Unlinking a node, traversal, and the correctness of the operations of \<^verbatim>\<open>kernel/rbtree.c\<close> against
  the list of nodes in order.
\<close>

subsection \<open>Unlinking\<close>

lemma focused_replace:
  assumes f: "focused s ctx t" and n: "root_of t = Some n"
    and u: "tree_at (rb_nodes s) q u" "distinct (before ctx @ inorder u @ after ctx)"
  shows "focused (rb_replace_node n (root_of u) s) ctx u"
proof -
  have out: "n \<notin> set (before ctx)" "n \<notin> set (after ctx)" and p: "rb_parent (rb_nodes s n) = ctx_parent ctx"
    using f root_of_in [OF n] n by (cases t; auto simp: focused_def)+
  let ?s1 = "redirect_left (ctx_parent ctx) n (root_of u) s"
  have re: "rehung s ctx (root_of u) ?s1"
    using f n out by (intro redirect_left_rehung) (auto simp: focused_def)
  then have keep: "rb_nodes ?s1 a = rb_nodes s a" if "a \<notin> set (before ctx)" "a \<notin> set (after ctx)" for a
    using that by (simp add: rehung_def)
  have "tree_at (rb_nodes ?s1) q u = tree_at (rb_nodes s) q u"
    using u(2) by (intro tree_at_cong keep) auto
  then have "tree_at (rb_nodes (set_parent_opt (root_of u) (ctx_parent ctx) ?s1)) (ctx_parent ctx) u"
    using u by (intro tree_at_reparent) auto
  moreover have "path_at (rb_nodes (set_parent_opt (root_of u) (ctx_parent ctx) ?s1)) ctx (root_of u) =
      path_at (rb_nodes ?s1) ctx (root_of u)"
    using u(2) by (intro path_at_cong set_parent_opt_other [OF refl]) auto
  ultimately have "focused (set_parent_opt (root_of u) (ctx_parent ctx) ?s1) ctx u"
    using re u(2) by (simp add: focused_def rehung_def)
  then show ?thesis
    by (simp add: rb_replace_node_def Let_def p keep [OF out])
qed

text \<open>The successor \<open>m\<close> takes the place of \<open>n\<close>.\<close>

lemma splice:
  assumes path: "path_at (rb_nodes s) ctx (Some n)" "rb_node_of s = ctx_root ctx (Some n)"
    and n: "rb_parent (rb_nodes s n) = ctx_parent ctx" "rb_left (rb_nodes s n) = root_of l"
      "rb_red (rb_nodes s n) = c"
    and l: "tree_at (rb_nodes s) (Some n) l" "root_of l = Some k"
    and r: "rb_right (rb_nodes s m) = root_of r" "tree_at (rb_nodes s) (Some m) r"
    and dist: "distinct (n # before ctx @ inorder l @ m # inorder r @ after ctx)"
  shows "\<exists>s'. rb_splice n m s = Some s' \<and> focused s' ctx (Bin c l m r)"
proof -
  define s2 s3 s4 s5 where "s2 = rb_replace_node n (Some m) s"
    and s3: "s3 = set_left m (rb_left (rb_nodes s2 n)) s2"
    and s4: "s4 = set_parent k (Some m) s3" "s5 = set_red m (rb_red (rb_nodes s4 n)) s4"
  let ?s1 = "redirect_left (ctx_parent ctx) n (Some m) s"
  have re: "rehung s ctx (Some m) ?s1"
    using path dist by (intro redirect_left_rehung) auto
  then have keep: "rb_nodes ?s1 a = rb_nodes s a" if "a \<notin> set (before ctx)" "a \<notin> set (after ctx)" for a
    using that by (simp add: rehung_def)
  have s2: "s2 = set_parent m (ctx_parent ctx) ?s1"
    using dist n by (simp add: s2_def rb_replace_node_def set_parent_opt_def keep)
  have k: "k \<in> set (inorder l)"
    using l(2) by (rule root_of_in)
  then have m: "k \<noteq> m" "n \<noteq> m" "n \<noteq> k" "m \<notin> set (before ctx)" "m \<notin> set (after ctx)"
    "n \<notin> set (before ctx)" "n \<notin> set (after ctx)" "k \<notin> set (before ctx)" "k \<notin> set (after ctx)"
    using dist by auto
  have left: "rb_left (rb_nodes s3 m) = Some k"
    using m n l(2) by (simp add: s3 s2 keep)
  have s5: "rb_nodes s5 a = rb_nodes s a"
    if "a \<noteq> m" "a \<noteq> k" "a \<notin> set (before ctx)" "a \<notin> set (after ctx)" for a
    using that by (simp add: s4 s3 s2 keep)
  have s5_m: "rb_nodes s5 m = \<lparr>rb_parent = ctx_parent ctx, rb_left = Some k, rb_right = root_of r, rb_red = c\<rparr>"
    using m n l(2) r(1) by (cases "rb_nodes s m") (simp add: s4 s3 s2 keep)
  have s5_k: "rb_nodes s5 k = (rb_nodes s k)\<lparr>rb_parent := Some m\<rparr>"
    using m by (simp add: s4 s3 s2 keep)
  have "tree_at (rb_nodes s5) (Some m) l"
  proof -
    have "tree_at (rb_nodes s5) (Some m) l = tree_at (rb_nodes (set_parent_opt (Some k) (Some m) s)) (Some m) l"
    proof (rule tree_at_cong)
      fix a
      assume "a \<in> set (inorder l)"
      then have "a \<noteq> m" "a \<notin> set (before ctx)" "a \<notin> set (after ctx)"
        using dist by auto
      then show "rb_nodes s5 a = rb_nodes (set_parent_opt (Some k) (Some m) s) a"
        using s5 s5_k by (cases "a = k") (simp_all add: set_parent_opt_def)
    qed
    then show ?thesis
      using tree_at_reparent [OF l(1)] dist l(2) by simp
  qed
  moreover have "tree_at (rb_nodes s5) (Some m) r"
  proof -
    have "tree_at (rb_nodes s5) (Some m) r = tree_at (rb_nodes s) (Some m) r"
      using dist k by (intro tree_at_cong s5) auto
    then show ?thesis
      using r(2) by simp
  qed
  moreover have "path_at (rb_nodes s5) ctx (Some m) = path_at (rb_nodes ?s1) ctx (Some m)"
    using m k dist by (intro path_at_cong) (auto simp: s4 s3 s2)
  moreover have "rb_node_of s5 = rb_node_of ?s1"
    by (simp add: s4 s3 s2)
  ultimately have "focused s5 ctx (Bin c l m r)"
    using left re s5_m l(2) dist by (auto simp: focused_def rehung_def)
  moreover have "rb_splice n m s = Some s5"
    using left by (simp add: rb_splice_def Let_def s4 s3 s2_def del: set_simps)
  ultimately show ?thesis
    by blast
qed

text \<open>The leftmost node of a subtree.\<close>

lemma path_append [simp]:
  "before (xs @ ys) = before ys @ before xs" "after (xs @ ys) = after xs @ after ys"
  by (induction xs rule: before.induct) simp_all

lemma leftmost:
  "t \<noteq> Tip \<Longrightarrow> \<exists>ctx d m x. t = plug ctx (Bin d Tip m x) \<and> before ctx = []"
proof (induction t)
  case (Bin c l a r)
  show ?case
  proof (cases "l = Tip")
    case True
    then have "Bin c l a r = plug [] (Bin c Tip a r) \<and> before [] = []"
      by simp
    then show ?thesis
      by blast
  next
    case False
    then obtain ctx d m x where "l = plug ctx (Bin d Tip m x)" "before ctx = []"
      using Bin.IH by blast
    then have "Bin c l a r = plug (ctx @ [In_left c a r]) (Bin d Tip m x) \<and>
        before (ctx @ [In_left c a r]) = []"
      by simp
    then show ?thesis
      by blast
  qed
qed simp

lemma subtree_first:
  "focused s ctx t \<Longrightarrow> root_of t = Some a \<Longrightarrow> rb_subtree_first a s = Some (hd (inorder t))"
proof (induction t arbitrary: ctx a)
  case (Bin c l b r)
  then have [simp]: "a = b"
    by simp
  show ?case
  proof (cases l)
    case Tip
    then show ?thesis
      using focused_fields [OF Bin.prems(1)] by (subst rb_subtree_first.simps) simp
  next
    case (Bin d x e y)
    then have "rb_subtree_first e s = Some (hd (inorder l))"
      using Bin.IH(1) [OF focused_children(1) [OF Bin.prems(1)]] by simp
    then show ?thesis
      using focused_fields [OF Bin.prems(1)] Bin
      by (subst rb_subtree_first.simps) (simp add: hd_append)
  qed
qed simp

lemma unlink_near:
  assumes f: "focused s ctx (Bin c l n (Bin d Tip m x))" and l: "root_of l = Some k"
  shows "\<exists>s'. rb_unlink n s = Some (root_of x, Some m, d, s') \<and> focused s' ctx (Bin c l m x)"
proof -
  let ?s1 = "set_parent_opt (root_of x) (Some m) s"
  note fm = focused_children(2) [OF f]
  note n = focused_fields [OF f] and m = focused_fields [OF fm]
  have dist: "distinct (before ctx @ inorder l @ n # m # inorder x @ after ctx)"
    using f by (simp add: focused_def)
  have keep: "rb_nodes ?s1 a = rb_nodes s a" if "a \<notin> set (inorder x)" for a
    using that by (rule set_parent_opt_other [OF refl])
  have first: "rb_subtree_first m s = Some m"
    using subtree_first [OF fm] by simp
  have "path_at (rb_nodes ?s1) ctx (Some n) = path_at (rb_nodes s) ctx (Some n)"
    using dist by (intro path_at_cong keep) auto
  moreover have "tree_at (rb_nodes ?s1) (Some n) l = tree_at (rb_nodes s) (Some n) l"
    using dist by (intro tree_at_cong keep) auto
  moreover have "tree_at (rb_nodes ?s1) (Some m) x"
    using f dist by (intro tree_at_reparent) (auto simp: focused_def)
  moreover have "rb_nodes ?s1 n = rb_nodes s n" "rb_nodes ?s1 m = rb_nodes s m"
    using dist by (auto intro!: keep)
  ultimately have "\<exists>s'. rb_splice n m ?s1 = Some s' \<and> focused s' ctx (Bin c l m x)"
    using f dist n m l by (intro splice [OF _ _ _ _ _ _ l]) (auto simp: focused_def)
  then show ?thesis
    using n m first l by (auto simp: rb_unlink_def Let_def)
qed

lemma unlink_far:
  assumes f: "focused s ctx (Bin c l n (plug (g # down) (Bin d Tip m x)))"
    and l: "root_of l = Some k" and down: "before (g # down) = []"
  shows "\<exists>s'. rb_unlink n s = Some (root_of x, Some (frame_addr g), d, s') \<and>
    focused s' ctx (Bin c l m (plug (g # down) x))"
proof -
  define r where "r = plug (g # down) x"
  obtain b where b: "root_of r = Some b" "root_of (plug (g # down) (Bin d Tip m x)) = Some b"
    unfolding r_def using ctx_root_in [of g down] by (metis ctx_root.simps(2) root_of_plug)
  have up: "focused t ((g # down) @ In_right l c n # ctx) u \<longleftrightarrow>
      focused t ctx (Bin c l n (plug (g # down) u))" for t u
    unfolding focused_plug [of t] by (simp only: plug_append plug.simps)
  have fm: "focused s ((g # down) @ In_right l c n # ctx) (Bin d Tip m x)"
    using f by (simp only: up)
  note n = focused_fields [OF f] and m = focused_fields [OF fm]
  have dist: "distinct (before ctx @ inorder l @ n # m # inorder r @ after ctx)"
    using f down by (simp add: focused_def r_def)
  have mb: "m \<noteq> b" "n \<noteq> b" "n \<noteq> m" "b \<notin> set (inorder l)" "b \<notin> set (before ctx)" "b \<notin> set (after ctx)"
    using dist root_of_in [OF b(1)] by auto
  let ?s1 = "rb_replace_node m (root_of x) s"
  have "focused ?s1 ((g # down) @ In_right l c n # ctx) x"
    using fm by (intro focused_replace [OF fm]) (auto simp: focused_def)
  then have f1: "focused ?s1 ctx (Bin c l n r)"
    by (simp only: up r_def)
  note n1 = focused_fields [OF f1]
  let ?s2 = "set_right m (Some b) ?s1"
  let ?s3 = "set_parent b (Some m) ?s2"
  have "tree_at (rb_nodes ?s2) (Some n) r"
    using f1 dist by (simp add: focused_def)
  then have "tree_at (rb_nodes ?s3) (Some m) r"
    using tree_at_reparent [of ?s2 "Some n" r "Some m"] dist b(1)
    by (simp add: set_parent_opt_def del: set_simps)
  moreover have "path_at (rb_nodes ?s3) ctx (Some n)" "tree_at (rb_nodes ?s3) (Some n) l"
    "rb_node_of ?s3 = ctx_root ctx (Some n)"
    using f1 dist mb by (auto simp: focused_def)
  moreover have "rb_nodes ?s3 n = rb_nodes ?s1 n" "rb_right (rb_nodes ?s3 m) = Some b"
    using mb by simp_all
  ultimately have "\<exists>s'. rb_splice n m ?s3 = Some s' \<and> focused s' ctx (Bin c l m r)"
    using dist n1 l b(1) by (intro splice [OF _ _ _ _ _ _ l]) (auto simp del: set_simps)
  moreover have "rb_subtree_first b s = Some m"
    using subtree_first [OF focused_children(2) [OF f] b(2)] down by simp
  moreover have "frame_addr g \<noteq> n"
    using dist down by (cases g) (auto simp: r_def)
  ultimately show ?thesis
    using n m l b n1 mb unfolding r_def [symmetric]
    by (auto simp: rb_unlink_def Let_def simp del: plug.simps)
qed

subsection \<open>Removing a node\<close>

lemma unlink_leaf:
  assumes "focused s ctx (Bin c l n r)" "l = Tip \<and> u = r \<or> r = Tip \<and> u = l"
  shows "\<exists>s'. rb_unlink n s = Some (root_of u, ctx_parent ctx, c, s') \<and> focused s' ctx u"
proof -
  have "focused (rb_replace_node n (root_of u) s) ctx u"
    using assms by (intro focused_replace [OF assms(1), of n "Some n"]) (auto simp: focused_def)
  moreover have "rb_unlink n s = Some (root_of u, ctx_parent ctx, c, rb_replace_node n (root_of u) s)"
    using focused_fields [OF assms(1)] assms(2) by (cases l) (auto simp: rb_unlink_def)
  ultimately show ?thesis
    by blast
qed

text \<open>What is left after the unlinking: the place \<open>ctx\<close> of the subtree \<open>x\<close> that has lost a node
  of colour \<open>d\<close> above it.\<close>

definition gap :: "frame list \<Rightarrow> bool \<Rightarrow> rtree \<Rightarrow> nat \<Rightarrow> bool" where
  "gap ctx d x k \<longleftrightarrow> no_red_red x \<and> black_height x 0 \<and> path_ok ctx d \<and>
     path_height ctx (if d then 0 else 1) k \<and> top_black ctx \<and> (d \<longrightarrow> ctx \<noteq> [])"

lemma gap_leaf:
  assumes "rb_tree (plug ctx (Bin c l n r))" "l = Tip \<and> u = r \<or> r = Tip \<and> u = l"
  shows "\<exists>k. gap ctx c u k"
proof -
  have "top_black ctx" "c \<longrightarrow> ctx \<noteq> []"
    using assms(1) is_red_plug [of ctx "Bin c l n r"]
    by (cases "ctx = []"; auto simp: rb_tree_def)+
  then show ?thesis
    using assms
    by (auto simp: rb_tree_def gap_def no_red_red_plug black_height_plug split: if_splits)
qed

lemma gap_inner:
  assumes "rb_tree (plug ctx (Bin c l n (plug down (Bin d Tip m x))))"
  shows "\<exists>k. gap (down @ In_right l c m # ctx) d x k"
proof -
  let ?ctx = "down @ In_right l c m # ctx"
  have "no_red_red (plug ?ctx (Bin d Tip m x)) = no_red_red (plug ctx (Bin c l n (plug down (Bin d Tip m x))))"
    "black_height (plug ?ctx (Bin d Tip m x)) k = black_height (plug ctx (Bin c l n (plug down (Bin d Tip m x)))) k"
    "is_red (plug ?ctx (Bin d Tip m x)) = is_red (plug ctx (Bin c l n (plug down (Bin d Tip m x))))" for k
    using is_red_plug [of ctx]
    by (cases "ctx = []"; simp add: no_red_red_plug [of ctx] black_height_plug [of ctx])+
  then have "rb_tree (plug ?ctx (Bin d Tip m x))"
    using assms by (simp add: rb_tree_def)
  then show ?thesis
    by (rule gap_leaf) simp
qed

lemma unlink_gap:
  assumes f: "focused s ctx (Bin c l n r)" and rb: "rb_tree (plug ctx (Bin c l n r))"
  shows "\<exists>ctx' d x s' k. rb_unlink n s = Some (root_of x, ctx_parent ctx', d, s') \<and>
    focused s' ctx' x \<and> gap ctx' d x k \<and>
    before ctx' @ inorder x @ after ctx' = before ctx @ inorder l @ inorder r @ after ctx"
proof -
  consider "l = Tip" | "r = Tip" | "l \<noteq> Tip" "r \<noteq> Tip"
    by blast
  then show ?thesis
  proof cases
    case 1
    then show ?thesis
      using unlink_leaf [OF f, of r] gap_leaf [OF rb, of r] by fastforce
  next
    case 2
    then show ?thesis
      using unlink_leaf [OF f, of l] gap_leaf [OF rb, of l] by fastforce
  next
    case 3
    then obtain a where l: "root_of l = Some a"
      by (cases l) auto
    obtain down d m x where r: "r = plug down (Bin d Tip m x)" "before down = []"
      using leftmost [OF 3(2)] by blast
    have up: "focused s' ctx (Bin c l m (plug down x)) \<longleftrightarrow>
        focused s' (down @ In_right l c m # ctx) x" for s'
      unfolding focused_plug [of s'] by simp
    have "\<exists>s'. rb_unlink n s = Some (root_of x, ctx_parent (down @ In_right l c m # ctx), d, s') \<and>
        focused s' ctx (Bin c l m (plug down x))"
      using unlink_near [of s ctx c l n d m x, OF _ l] unlink_far [of s ctx c l n _ _ d m x, OF _ l]
        f r by (cases down) auto
    then show ?thesis
      using gap_inner [OF rb [unfolded r(1)]] r by (fastforce simp: up)
  qed
qed

lemma represents_init:
  assumes "represents s t" "n \<notin> set (inorder t)"
  shows "represents (rb_node_init n s) t"
  using assms by (simp add: represents_def focused_def rb_node_init_def)

lemma fixup_gap:
  assumes "focused s ctx x" "gap ctx d x k"
  shows "\<exists>s' t. (if \<not> d then rb_erase_fixup (root_of x) (ctx_parent ctx) s else Some s) = Some s' \<and>
    represents s' t \<and> rb_tree t \<and> inorder t = before ctx @ inorder x @ after ctx"
proof (cases d)
  case True
  then have "rb_tree (plug ctx x)"
    using assms(2) path_ok_mono by (intro rb_tree_plug [of _ _ 0 k]) (auto simp: gap_def)
  then show ?thesis
    using True assms(1) inorder_plug by (auto simp: focused_plug)
next
  case False
  then show ?thesis
    using fixup_loop [OF assms(1), of 0 k] erase_fix_invariant [of x ctx 0 k] assms(2)
      inorder_erase_fix [of ctx x] by (auto simp: gap_def)
qed

lemma locate: "n \<in> set (inorder t) \<Longrightarrow> \<exists>ctx c l r. t = plug ctx (Bin c l n r)"
proof (induction t)
  case (Bin d x a y)
  consider "n = a" | "n \<in> set (inorder x)" | "n \<in> set (inorder y)"
    using Bin.prems by auto
  then show ?case
  proof cases
    case 1
    then have "Bin d x a y = plug [] (Bin d x n y)"
      by simp
    then show ?thesis
      by blast
  next
    case 2
    then obtain ctx c l r where "x = plug ctx (Bin c l n r)"
      using Bin.IH by blast
    then have "Bin d x a y = plug (ctx @ [In_left d a y]) (Bin c l n r)"
      by simp
    then show ?thesis
      by blast
  next
    case 3
    then obtain ctx c l r where "y = plug ctx (Bin c l n r)"
      using Bin.IH by blast
    then have "Bin d x a y = plug (ctx @ [In_right x d a]) (Bin c l n r)"
      by simp
    then show ?thesis
      by blast
  qed
qed simp

lemma erase_represents:
  assumes "represents s t" "rb_tree t" "n \<in> set (inorder t)"
  shows "\<exists>s' t'. rb_erase n s = Some s' \<and> represents s' t' \<and> rb_tree t' \<and>
    inorder t' = remove1 n (inorder t)"
proof -
  obtain ctx c l r where t: "t = plug ctx (Bin c l n r)"
    using locate [OF assms(3)] by blast
  have f: "focused s ctx (Bin c l n r)"
    using assms(1) by (simp add: focused_plug t)
  have rem: "remove1 n (inorder t) = before ctx @ inorder l @ inorder r @ after ctx"
    using f by (auto simp: t focused_def remove1_append)
  obtain ctx' d x s1 k where s1: "rb_unlink n s = Some (root_of x, ctx_parent ctx', d, s1)"
    "focused s1 ctx' x" "gap ctx' d x k" "before ctx' @ inorder x @ after ctx' = remove1 n (inorder t)"
    using unlink_gap [OF f assms(2) [unfolded t]] rem by auto
  obtain s2 t' where s2: "(if \<not> d then rb_erase_fixup (root_of x) (ctx_parent ctx') s1 else Some s1) = Some s2"
    "represents s2 t'" "rb_tree t'" "inorder t' = remove1 n (inorder t)"
    using fixup_gap [OF s1(2,3)] s1(4) by auto
  have "n \<notin> set (inorder t')"
    using s2(4) rem f by (auto simp: focused_def)
  then show ?thesis
    using s1(1) s2 represents_init [OF s2(2)] by (auto simp: rb_erase_def)
qed

subsection \<open>Traversal\<close>

lemma next_up_after:
  "focused s ctx t \<Longrightarrow> root_of t = Some n \<Longrightarrow>
     next_up n s = Some (case after ctx of [] \<Rightarrow> None | a # _ \<Rightarrow> Some a)"
proof (induction ctx arbitrary: t n rule: after.induct)
  case 1
  then show ?case
    using focused_fields [of s "[]"] by (cases t) (auto simp: next_up.simps)
next
  case (2 c a r ctx)
  then obtain d x y where t: "t = Bin d x n y"
    by (cases t) auto
  have f: "focused s ctx (Bin c t a r)"
    using 2(2) by (simp add: focused_up)
  have "root_of r \<noteq> Some n"
    using focused_distinct(5) [OF f] root_of_in [of r n] by (auto simp: t)
  then show ?case
    using focused_fields [OF f] focused_fields [OF 2(2) [unfolded t]]
    by (subst next_up.simps) simp
next
  case (3 l c a ctx)
  then obtain d x y where t: "t = Bin d x n y"
    by (cases t) auto
  have f: "focused s ctx (Bin c l a t)"
    using 3(2) by (simp add: focused_up)
  then have "next_up a s = Some (case after ctx of [] \<Rightarrow> None | a # _ \<Rightarrow> Some a)"
    using 3(1) by simp
  then show ?case
    using focused_fields [OF f] focused_fields [OF 3(2) [unfolded t]] t
    by (subst next_up.simps) simp
qed

lemma next_represents:
  assumes "represents s t" "inorder t = xs @ n # ys"
  shows "rb_next n s = Some (case ys of [] \<Rightarrow> None | y # _ \<Rightarrow> Some y)"
proof -
  obtain ctx c l r where t: "t = plug ctx (Bin c l n r)"
    using locate [of n t] assms(2) by auto
  have f: "focused s ctx (Bin c l n r)"
    using assms(1) by (simp add: focused_plug t)
  have "(before ctx @ inorder l) @ n # (inorder r @ after ctx) = xs @ n # ys"
    using assms(2) by (simp add: t)
  moreover have "n \<notin> set (before ctx @ inorder l)" "n \<notin> set (inorder r @ after ctx)"
    using f by (auto simp: focused_def)
  ultimately have ys: "ys = inorder r @ after ctx"
    using append_Cons_eq_iff by metis
  show ?thesis
  proof (cases r)
    case Tip
    then show ?thesis
      using next_up_after [OF f] focused_fields [OF f] ys by (simp add: rb_next_def)
  next
    case (Bin d x a y)
    then have "rb_subtree_first a s = Some (hd (inorder r))"
      using subtree_first [OF focused_children(2) [OF f]] by simp
    then show ?thesis
      using focused_fields [OF f] ys Bin by (cases "inorder x") (simp_all add: rb_next_def)
  qed
qed

lemma first_represents:
  assumes "represents s t"
  shows "rb_first s = Some (case inorder t of [] \<Rightarrow> None | a # _ \<Rightarrow> Some a)"
proof (cases t)
  case Tip
  then show ?thesis
    using assms by (simp add: represents_def focused_def rb_first_def)
next
  case (Bin c l a r)
  then have "rb_subtree_first a s = Some (hd (inorder t))"
    using subtree_first [OF assms [unfolded represents_def]] by simp
  then show ?thesis
    using assms Bin
    by (cases "inorder l") (simp_all add: represents_def focused_def rb_first_def)
qed

subsection \<open>The operations against the list of nodes in order\<close>

text \<open>A tree of three nodes, \<open>1\<close> and \<open>3\<close> red below \<open>2\<close>, as the example of the statements.\<close>

definition rb_demo :: rb_root where
  "rb_demo = \<lparr>rb_nodes = (\<lambda>a. \<lparr>rb_parent = None, rb_left = None, rb_right = None, rb_red = True\<rparr>)
     (1 := \<lparr>rb_parent = Some 2, rb_left = None, rb_right = None, rb_red = True\<rparr>,
      2 := \<lparr>rb_parent = None, rb_left = Some 1, rb_right = Some 3, rb_red = False\<rparr>,
      3 := \<lparr>rb_parent = Some 2, rb_left = None, rb_right = None, rb_red = True\<rparr>),
     rb_node_of = Some 2\<rparr>"

abbreviation demo_tree :: rtree where
  "demo_tree \<equiv> Bin False (Bin True Tip 1 Tip) 2 (Bin True Tip 3 Tip)"

lemma rb_demo_represents: "represents rb_demo demo_tree" "rb_tree demo_tree"
  by (simp_all add: represents_def focused_def rb_demo_def rb_tree_def)

text \<open>C26. Inserting into the red-black tree. A node linked with \<^verbatim>\<open>rb_link_node\<close> at an empty place of
  a red-black tree and passed to \<^verbatim>\<open>rb_insert_color\<close> ends up at exactly that place of the in-order
  sequence, every other node keeps its place, the loop returns and follows no null pointer, and
  the result is again a red-black tree, at most twice the logarithm of its size deep.\<close>

theorem rb_insert_correct:
  assumes "represents s (plug ctx Tip)" "rb_tree (plug ctx Tip)"
    and "a \<notin> set (inorder (plug ctx Tip))"
  shows "\<exists>s' t'. rb_insert_color a (rb_link_node a (ctx_parent ctx) (link_at ctx) s) = Some s' \<and>
    represents s' t' \<and> rb_tree t' \<and> inorder t' = before ctx @ a # after ctx \<and>
    2 ^ (depth t' div 2) \<le> length (inorder t') + 1"
  using insert_represents [OF assms] rb_tree_depth by blast

theorem rb_insert_correct_witness:
  "\<exists>s' t'. rb_insert_color 7 (rb_link_node 7 (Some 3) (Left_link 3) rb_demo) = Some s' \<and>
    represents s' t' \<and> rb_tree t' \<and> inorder t' = [1, 2, 7, 3]"
proof -
  have "plug [In_left True 3 Tip, In_right (Bin True Tip 1 Tip) False 2] Tip = demo_tree"
    by simp
  then show ?thesis
    using rb_insert_correct
      [of rb_demo "[In_left True 3 Tip, In_right (Bin True Tip 1 Tip) False 2]" 7]
      rb_demo_represents by auto
qed

text \<open>C27. Removing from the red-black tree. \<^verbatim>\<open>rb_erase\<close> of a node of a red-black tree returns,
  follows no null pointer, removes exactly that node from the in-order sequence, resets its
  fields, and leaves a red-black tree.\<close>

theorem rb_erase_correct:
  assumes "represents s t" "rb_tree t" "n \<in> set (inorder t)"
  shows "\<exists>s' t'. rb_erase n s = Some s' \<and> represents s' t' \<and> rb_tree t' \<and>
    inorder t' = remove1 n (inorder t) \<and>
    rb_nodes s' n = \<lparr>rb_parent = None, rb_left = None, rb_right = None, rb_red = True\<rparr>"
proof -
  obtain s' t' where s': "rb_erase n s = Some s'" "represents s' t'" "rb_tree t'"
    "inorder t' = remove1 n (inorder t)"
    using erase_represents [OF assms] by blast
  moreover obtain s2 where "s' = rb_node_init n s2"
    using s'(1) by (auto simp: rb_erase_def bind_eq_Some_conv split: if_splits)
  ultimately show ?thesis
    by (auto simp: rb_node_init_def)
qed

theorem rb_erase_correct_witness:
  "\<exists>s' t'. rb_erase 2 rb_demo = Some s' \<and> represents s' t' \<and> rb_tree t' \<and> inorder t' = [1, 3]"
  using rb_erase_correct [OF rb_demo_represents, of 2] by auto

text \<open>C28. Traversal of the tree. \<^verbatim>\<open>rb_first\<close> is the first node of the in-order sequence, or null on
  an empty tree, and \<^verbatim>\<open>rb_next\<close> of a node is the one after it, or null at the end.\<close>

theorem rb_traversal_correct:
  assumes "represents s t"
  shows "rb_first s = Some (case inorder t of [] \<Rightarrow> None | a # _ \<Rightarrow> Some a) \<and>
    (\<forall>xs n ys. inorder t = xs @ n # ys \<longrightarrow>
      rb_next n s = Some (case ys of [] \<Rightarrow> None | y # _ \<Rightarrow> Some y))"
  using first_represents [OF assms] next_represents [OF assms] by blast

theorem rb_traversal_correct_witness:
  "rb_first rb_demo = Some (Some 1) \<and> rb_next 1 rb_demo = Some (Some 2) \<and>
    rb_next 3 rb_demo = Some None"
proof -
  note t = rb_traversal_correct [OF rb_demo_represents(1)]
  have "rb_next 1 rb_demo = Some (Some 2)"
    using t [THEN conjunct2, rule_format, of "[]" 1 "[2, 3]"] by simp
  moreover have "rb_next 3 rb_demo = Some None"
    using t [THEN conjunct2, rule_format, of "[1, 2]" 3 "[]"] by simp
  ultimately show ?thesis
    using t [THEN conjunct1] by simp
qed

end
