(* ===== verification/Sched.thy ===== *)
theory Sched
  imports Rbtree_Spec
begin

text \<open>
  The completely fair scheduler of \<^verbatim>\<open>kernel/scheduler.c\<close>: thread accounting, the run queue (a
  red-black tree ordered by virtual runtime, see \<^verbatim>\<open>Rbtree\<close>), the choice of the next thread, and
  the per-CPU loop cut at the points where the run queue lock or a thread lock is taken. A
  \<^verbatim>\<open>PANIC\<close> is \<^const>\<open>None\<close>. The clock, the number of the executing CPU and the answer of the SBI call
  \<^verbatim>\<open>sbi_send_ipi\<close> are arguments. The lock discipline is not part of the state: the checks that a thread's
  lock is held (\<^verbatim>\<open>spinlock_holding\<close>), that interrupts are off (\<^verbatim>\<open>intr_status\<close>) and that no second lock is
  held at a switch (\<^verbatim>\<open>lock_nest_depth\<close>), and their panics, are left out.

  The thread structure also carries the fields of the wait queues, which \<^verbatim>\<open>Wait\<close> models on the
  same state.
\<close>

subsection \<open>Threads, CPUs and the run queue\<close>

datatype thread_state =
  THREAD_UNUSED | THREAD_ALLOCATED | THREAD_RUNNABLE | THREAD_RUNNING | THREAD_SLEEPING | THREAD_EXITED

record sched_entity =
  vruntime :: u64
  exec_start :: u64
  sum_exec_runtime :: u64
  user_runtime :: u64
  system_runtime :: u64
  mode_start :: u64
  slice_ns :: u64
  weight :: u32
  nice :: int
  initialized :: bool
  on_runqueue :: bool
  user_mode :: bool

record thread =
  state :: thread_state
  tid :: int
  home :: bool
  kernel_thread :: bool
  process_reaper :: nat
  sched :: sched_entity
  waiting_on :: "nat option"
  on_waitqueue :: bool
  wait_deadline :: u64
  wait_result :: int
  on_timeout_queue :: bool
  wait_interruptible :: nat
  wait_private :: u64
  wait_bitset :: u32
  signal_sequence :: u64
  fatal_signal_sequence :: u64

record cpu =
  current :: "nat option"
  selected :: "nat option"
  hart_id :: u64
  online :: bool
  idle :: bool
  need_resched :: bool
  idle_since_ns :: u64
  idle_time_ns :: u64

text \<open>\<open>threads\<close> is the memory of the thread structures; \<open>timeline\<close> to \<open>rq_count\<close> are the fields of
  \<^verbatim>\<open>runqueue\<close>; the last two are the queues of \<^verbatim>\<open>kernel/wait.c\<close>.\<close>

record kernel =
  threads :: "nat \<Rightarrow> thread"
  cpus :: "cpu list"
  timeline :: rb_root
  total_weight :: u64
  min_vruntime :: u64
  rq_count :: u32
  context_switches :: u64
  waiters :: "nat \<Rightarrow> nat list"
  timeout_queue :: "nat list"

definition NTHREAD :: nat where
  "NTHREAD = 64"

abbreviation entity :: "kernel \<Rightarrow> nat \<Rightarrow> sched_entity" where
  "entity s t \<equiv> sched (threads s t)"

definition upd_thread :: "nat \<Rightarrow> (thread \<Rightarrow> thread) \<Rightarrow> kernel \<Rightarrow> kernel" where
  "upd_thread t f s = s\<lparr>threads := (threads s)(t := f (threads s t))\<rparr>"

definition upd_entity :: "nat \<Rightarrow> (sched_entity \<Rightarrow> sched_entity) \<Rightarrow> kernel \<Rightarrow> kernel" where
  "upd_entity t f = upd_thread t (\<lambda>th. th\<lparr>sched := f (sched th)\<rparr>)"

definition upd_cpu :: "nat \<Rightarrow> (cpu \<Rightarrow> cpu) \<Rightarrow> kernel \<Rightarrow> kernel" where
  "upd_cpu i f s = s\<lparr>cpus := (cpus s)[i := f (cpus s ! i)]\<rparr>"

definition NICE_0_LOAD :: u64 where
  "NICE_0_LOAD = 1024"

definition SCHED_TARGET_LATENCY_NS :: u64 where
  "SCHED_TARGET_LATENCY_NS = 48000000"

definition SCHED_MIN_GRANULARITY_NS :: u64 where
  "SCHED_MIN_GRANULARITY_NS = 6000000"

definition SCHED_WAKEUP_GRANULARITY_NS :: u64 where
  "SCHED_WAKEUP_GRANULARITY_NS = 4000000"

definition SCHED_MIN_SLICE_NS :: u64 where
  "SCHED_MIN_SLICE_NS = 1000000"

definition nice_weights :: "u32 list" where
  "nice_weights =
    [88761, 71755, 56483, 46273, 36291,
     29154, 23254, 18705, 14949, 11916,
     9548, 7620, 6100, 4904, 3906,
     3121, 2501, 1991, 1586, 1277,
     1024, 820, 655, 526, 423,
     335, 272, 215, 172, 137,
     110, 87, 70, 56, 45,
     36, 29, 23, 18, 15]"

definition cur_thread :: "nat \<Rightarrow> kernel \<Rightarrow> nat option" where
  "cur_thread i s = current (cpus s ! i)"

definition scheduler_init :: "kernel \<Rightarrow> kernel" where
  "scheduler_init s =
     s\<lparr>timeline := rb_root_init (timeline s), total_weight := 0, min_vruntime := 0, rq_count := 0,
       context_switches := 0\<rparr>"

fun idle_sum :: "u64 \<Rightarrow> cpu list \<Rightarrow> u64 \<Rightarrow> u64" where
  "idle_sum now [] load = load"
| "idle_sum now (c # cs) load =
     (let load = load + idle_time_ns c;
          since = idle_since_ns c
      in idle_sum now cs (if since \<noteq> 0 \<and> now > since then load + (now - since) else load))"

definition scheduler_idle_time_ns :: "u64 \<Rightarrow> kernel \<Rightarrow> u64" where
  "scheduler_idle_time_ns now s = idle_sum now (cpus s) 0"

subsection \<open>Runtime accounting\<close>

definition add_saturate :: "u64 \<Rightarrow> u64 \<Rightarrow> u64" where
  "add_saturate left right = (if left > NOT 0 - right then NOT 0 else left + right)"

definition scale_runtime :: "u64 \<Rightarrow> u32 \<Rightarrow> u64" where
  "scale_runtime runtime w =
     runtime div ucast w * NICE_0_LOAD + runtime mod ucast w * NICE_0_LOAD div ucast w"

definition entity_vruntime_now :: "thread \<Rightarrow> u64 \<Rightarrow> u64" where
  "entity_vruntime_now th now =
     (if state th = THREAD_RUNNING \<and> exec_start (sched th) \<noteq> 0 \<and> now > exec_start (sched th)
      then add_saturate (vruntime (sched th))
             (scale_runtime (now - exec_start (sched th)) (weight (sched th)))
      else vruntime (sched th))"

definition account_mode :: "u64 \<Rightarrow> sched_entity \<Rightarrow> sched_entity" where
  "account_mode now e =
     (let start = mode_start e in
      if start = 0 \<or> now \<le> start then e\<lparr>mode_start := now\<rparr>
      else
        (let delta = now - start;
             e1 = (if user_mode e then e\<lparr>user_runtime := user_runtime e + delta\<rparr>
                   else e\<lparr>system_runtime := system_runtime e + delta\<rparr>)
         in e1\<lparr>mode_start := now\<rparr>))"

definition account_runtime :: "u64 \<Rightarrow> sched_entity \<Rightarrow> sched_entity" where
  "account_runtime now e0 =
     (let e = account_mode now e0 in
      if exec_start e = 0 \<or> now \<le> exec_start e then e\<lparr>exec_start := now\<rparr>
      else
        (let delta = now - exec_start e in
         e\<lparr>sum_exec_runtime := add_saturate (sum_exec_runtime e) delta,
           vruntime := add_saturate (vruntime e) (scale_runtime delta (weight e)),
           exec_start := now\<rparr>))"

definition scheduler_account_kernel_enter :: "nat \<Rightarrow> u64 \<Rightarrow> kernel \<Rightarrow> kernel" where
  "scheduler_account_kernel_enter i now s =
     (case cur_thread i s of
        None \<Rightarrow> s
      | Some t \<Rightarrow> upd_entity t (\<lambda>e. (account_mode now e)\<lparr>user_mode := False\<rparr>) s)"

definition scheduler_account_user_enter :: "nat \<Rightarrow> u64 \<Rightarrow> kernel \<Rightarrow> kernel" where
  "scheduler_account_user_enter i now s =
     (case cur_thread i s of
        None \<Rightarrow> s
      | Some t \<Rightarrow> upd_entity t (\<lambda>e. (account_mode now e)\<lparr>user_mode := True\<rparr>) s)"

definition scheduler_thread_times :: "thread \<Rightarrow> u64 \<Rightarrow> u64 \<times> u64" where
  "scheduler_thread_times th now =
     (let e = sched th; start = mode_start e in
      if state th = THREAD_RUNNING \<and> start \<noteq> 0 \<and> now > start then
        (if user_mode e then (add_saturate (user_runtime e) (now - start), system_runtime e)
         else (user_runtime e, add_saturate (system_runtime e) (now - start)))
      else (user_runtime e, system_runtime e))"

subsection \<open>The run queue\<close>

definition entity_before :: "kernel \<Rightarrow> nat \<Rightarrow> nat \<Rightarrow> bool" where
  "entity_before s left right =
     (if vruntime (entity s left) \<noteq> vruntime (entity s right)
      then vruntime (entity s left) < vruntime (entity s right)
      else if tid (threads s left) \<noteq> tid (threads s right)
      then tid (threads s left) < tid (threads s right)
      else left < right)"

partial_function (option) enqueue_descend ::
  "kernel \<Rightarrow> nat \<Rightarrow> node_ptr \<Rightarrow> link \<Rightarrow> (node_ptr \<times> link) option" where
  "enqueue_descend s t parent l =
     (case link_load l (timeline s) of
        None \<Rightarrow> Some (parent, l)
      | Some queued \<Rightarrow>
          enqueue_descend s t (Some queued)
            (if entity_before s t queued then Left_link queued else Right_link queued))"

definition enqueue_entity_locked :: "nat \<Rightarrow> kernel \<Rightarrow> kernel option" where
  "enqueue_entity_locked t s = do {
     (parent, l) \<leftarrow> enqueue_descend s t None Root_link;
     tree \<leftarrow> rb_insert_color t (rb_link_node t parent l (timeline s));
     let s1 = upd_entity t (\<lambda>e. e\<lparr>on_runqueue := True\<rparr>) (s\<lparr>timeline := tree\<rparr>);
     Some (s1\<lparr>rq_count := rq_count s1 + 1,
              total_weight := total_weight s1 + ucast (weight (entity s1 t))\<rparr>)
   }"

definition dequeue_entity_locked :: "nat \<Rightarrow> kernel \<Rightarrow> kernel option" where
  "dequeue_entity_locked t s =
     (if \<not> on_runqueue (entity s t) \<or> rq_count s = 0 \<or>
         total_weight s < ucast (weight (entity s t))
      then None
      else do {
        tree \<leftarrow> rb_erase t (timeline s);
        let s1 = upd_entity t (\<lambda>e. e\<lparr>on_runqueue := False\<rparr>) (s\<lparr>timeline := tree\<rparr>);
        Some (s1\<lparr>rq_count := rq_count s1 - 1,
                 total_weight := total_weight s1 - ucast (weight (entity s1 t))\<rparr>)
      })"

definition place_entity_locked :: "nat \<Rightarrow> kernel \<Rightarrow> kernel" where
  "place_entity_locked t s =
     (let floor = (if min_vruntime s > SCHED_WAKEUP_GRANULARITY_NS
                   then min_vruntime s - SCHED_WAKEUP_GRANULARITY_NS else 0)
      in if \<not> initialized (entity s t)
         then upd_entity t (\<lambda>e. e\<lparr>vruntime := min_vruntime s, initialized := True\<rparr>) s
         else if vruntime (entity s t) < floor then upd_entity t (\<lambda>e. e\<lparr>vruntime := floor\<rparr>) s
         else s)"

fun min_over_cpus :: "kernel \<Rightarrow> nat option \<Rightarrow> u64 \<Rightarrow> cpu list \<Rightarrow> u64 \<Rightarrow> u64" where
  "min_over_cpus s sel now [] minimum = minimum"
| "min_over_cpus s sel now (c # cs) minimum =
     (let m1 = (case current c of
          Some t \<Rightarrow>
            if Some t \<noteq> sel \<and> state (threads s t) = THREAD_RUNNING \<and>
               entity_vruntime_now (threads s t) now < minimum
            then entity_vruntime_now (threads s t) now else minimum
        | None \<Rightarrow> minimum);
          m2 = (case selected c of
          Some t \<Rightarrow> if Some t \<noteq> sel \<and> vruntime (entity s t) < m1 then vruntime (entity s t) else m1
        | None \<Rightarrow> m1)
      in min_over_cpus s sel now cs m2)"

definition update_min_vruntime_locked :: "nat option \<Rightarrow> u64 \<Rightarrow> kernel \<Rightarrow> kernel option" where
  "update_min_vruntime_locked sel now s = do {
     node \<leftarrow> rb_first (timeline s);
     let m0 = (case sel of Some t \<Rightarrow> vruntime (entity s t) | None \<Rightarrow> NOT 0);
     let m1 = (case node of
         Some q \<Rightarrow> if vruntime (entity s q) < m0 then vruntime (entity s q) else m0
       | None \<Rightarrow> m0);
     let m2 = min_over_cpus s sel now (cpus s) m1;
     Some (if m2 \<noteq> NOT 0 \<and> m2 > min_vruntime s then s\<lparr>min_vruntime := m2\<rparr> else s)
   }"

subsection \<open>Choosing a CPU to wake\<close>

fun find_idle :: "nat \<Rightarrow> cpu list \<Rightarrow> nat \<Rightarrow> int" where
  "find_idle me [] logical = -1"
| "find_idle me (c # cs) logical =
     (if logical = me \<or> \<not> online c \<or> \<not> idle c then find_idle me cs (Suc logical) else int logical)"

definition claim_idle_cpu_locked :: "nat \<Rightarrow> kernel \<Rightarrow> int \<times> kernel" where
  "claim_idle_cpu_locked me s =
     (if idle (cpus s ! me) then (-1, upd_cpu me (\<lambda>c. c\<lparr>idle := False\<rparr>) s)
      else
        (let target = find_idle me (cpus s) 0 in
         if target < 0 then (-1, s)
         else (target, upd_cpu (nat target) (\<lambda>c. c\<lparr>idle := False\<rparr>) s)))"

fun preempt_scan :: "kernel \<Rightarrow> u64 \<Rightarrow> u64 \<Rightarrow> cpu list \<Rightarrow> nat \<Rightarrow> int \<Rightarrow> u64 \<Rightarrow> int" where
  "preempt_scan s now wake [] logical target greatest = target"
| "preempt_scan s now wake (c # cs) logical target greatest =
     (case current c of
        Some t \<Rightarrow>
          (let v = entity_vruntime_now (threads s t) now in
           if \<not> online c \<or> state (threads s t) \<noteq> THREAD_RUNNING \<or>
              v \<le> add_saturate wake SCHED_WAKEUP_GRANULARITY_NS \<or> (target \<ge> 0 \<and> v \<le> greatest)
           then preempt_scan s now wake cs (Suc logical) target greatest
           else preempt_scan s now wake cs (Suc logical) (int logical) v)
      | None \<Rightarrow> preempt_scan s now wake cs (Suc logical) target greatest)"

definition select_preempt_cpu_locked :: "nat \<Rightarrow> u64 \<Rightarrow> kernel \<Rightarrow> int \<times> kernel" where
  "select_preempt_cpu_locked waking now s =
     (let wake = vruntime (entity s waking);
          target = preempt_scan s now wake (cpus s) 0 (-1) wake
      in (target, if target \<ge> 0 then upd_cpu (nat target) (\<lambda>c. c\<lparr>need_resched := True\<rparr>) s else s))"

definition wake_cpu :: "(u64 \<Rightarrow> int) \<Rightarrow> nat \<Rightarrow> int \<Rightarrow> kernel \<Rightarrow> kernel option" where
  "wake_cpu sbi_send_ipi me target s =
     (if target < 0 \<or> target = int me then Some s
      else if sbi_send_ipi (hart_id (cpus s ! nat target)) \<noteq> 0 then None
      else Some s)"

fun find_current :: "nat \<Rightarrow> cpu list \<Rightarrow> nat \<Rightarrow> int" where
  "find_current t [] logical = -1"
| "find_current t (c # cs) logical =
     (if current c \<noteq> Some t then find_current t cs (Suc logical) else int logical)"

definition request_resched_on :: "int \<Rightarrow> kernel \<Rightarrow> kernel" where
  "request_resched_on target s =
     (if target \<ge> 0 then upd_cpu (nat target) (\<lambda>c. c\<lparr>need_resched := True\<rparr>) s else s)"

definition scheduler_kick :: "(u64 \<Rightarrow> int) \<Rightarrow> nat \<Rightarrow> nat \<Rightarrow> kernel \<Rightarrow> kernel option" where
  "scheduler_kick sbi_send_ipi me t s =
     (let target = find_current t (cpus s) 0
      in wake_cpu sbi_send_ipi me target (request_resched_on target s))"

subsection \<open>Making a thread runnable\<close>

definition scheduler_enqueue ::
  "(u64 \<Rightarrow> int) \<Rightarrow> nat \<Rightarrow> u64 \<Rightarrow> nat \<Rightarrow> bool \<Rightarrow> kernel \<Rightarrow> kernel option" where
  "scheduler_enqueue sbi_send_ipi me now t wake_idle s =
     (let previous = state (threads s t) in
      if on_runqueue (entity s t) \<or>
         (previous \<noteq> THREAD_ALLOCATED \<and> previous \<noteq> THREAD_RUNNING \<and> previous \<noteq> THREAD_SLEEPING)
      then None
      else do {
        let s1 = (if previous = THREAD_RUNNING then upd_entity t (account_runtime now) s else s);
        s2 \<leftarrow> update_min_vruntime_locked (if previous = THREAD_RUNNING then Some t else None) now s1;
        let s3 = (if previous \<noteq> THREAD_RUNNING then place_entity_locked t s2 else s2);
        let s4 = upd_thread t (\<lambda>th. th\<lparr>state := THREAD_RUNNABLE\<rparr>) s3;
        s5 \<leftarrow> enqueue_entity_locked t s4;
        let (target, s6) = (if wake_idle then claim_idle_cpu_locked me s5 else (-1, s5));
        let (target, s7) =
          (if wake_idle \<and> target < 0 then select_preempt_cpu_locked t now s6 else (target, s6));
        wake_cpu sbi_send_ipi me target s7
      })"

definition scheduler_make_runnable ::
  "(u64 \<Rightarrow> int) \<Rightarrow> nat \<Rightarrow> u64 \<Rightarrow> nat \<Rightarrow> kernel \<Rightarrow> kernel option" where
  "scheduler_make_runnable sbi_send_ipi me now t s = scheduler_enqueue sbi_send_ipi me now t True s"

fun slice_load :: "kernel \<Rightarrow> nat \<Rightarrow> cpu list \<Rightarrow> u32 \<Rightarrow> u64 \<Rightarrow> u32 \<times> u64" where
  "slice_load s sel [] runnable load = (runnable, load)"
| "slice_load s sel (c # cs) runnable load =
     (let (r1, t1) = (case current c of
          Some t \<Rightarrow> if t \<noteq> sel \<and> state (threads s t) = THREAD_RUNNING
                    then (runnable + 1, load + ucast (weight (entity s t))) else (runnable, load)
        | None \<Rightarrow> (runnable, load));
          (r2, t2) = (case selected c of
          Some t \<Rightarrow> if t \<noteq> sel then (r1 + 1, t1 + ucast (weight (entity s t))) else (r1, t1)
        | None \<Rightarrow> (r1, t1))
      in slice_load s sel cs r2 t2)"

definition calculate_slice_locked :: "nat \<Rightarrow> kernel \<Rightarrow> u64" where
  "calculate_slice_locked sel s =
     (let w = ucast (weight (entity s sel));
          (runnable, load) = slice_load s sel (cpus s) (rq_count s + 1) (total_weight s + w);
          period = ucast runnable * SCHED_MIN_GRANULARITY_NS;
          period = (if period < SCHED_TARGET_LATENCY_NS then SCHED_TARGET_LATENCY_NS else period);
          slice = period div load * w + period mod load * w div load
      in if slice < SCHED_MIN_SLICE_NS then SCHED_MIN_SLICE_NS else slice)"

definition scheduler_inherit :: "u64 \<Rightarrow> nat \<Rightarrow> nat \<Rightarrow> kernel \<Rightarrow> kernel option" where
  "scheduler_inherit now child parent s =
     (if state (threads s child) \<noteq> THREAD_ALLOCATED \<or> on_runqueue (entity s child) then None
      else Some (upd_entity child (\<lambda>e. e\<lparr>nice := nice (entity s parent),
        weight := weight (entity s parent),
        vruntime := entity_vruntime_now (threads s parent) now,
        initialized := initialized (entity s parent)\<rparr>) s))"

definition scheduler_set_nice ::
  "(u64 \<Rightarrow> int) \<Rightarrow> nat \<Rightarrow> u64 \<Rightarrow> nat \<Rightarrow> int \<Rightarrow> kernel \<Rightarrow> (int \<times> kernel) option" where
  "scheduler_set_nice sbi_send_ipi me now t value s =
     (if value < -20 \<or> value > 19 then Some (-1, s)
      else do {
        let running = (state (threads s t) = THREAD_RUNNING);
        let s1 = (if running then upd_entity t (account_runtime now) s else s);
        let queued = on_runqueue (entity s1 t);
        s2 \<leftarrow> (if queued then dequeue_entity_locked t s1 else Some s1);
        let s3 = upd_entity t (\<lambda>e. e\<lparr>nice := value,
          weight := nice_weights ! nat (value + 20)\<rparr>) s2;
        s4 \<leftarrow> (if queued then enqueue_entity_locked t s3 else Some s3);
        let target = (if running then find_current t (cpus s4) 0 else -1);
        s5 \<leftarrow> wake_cpu sbi_send_ipi me target (request_resched_on target s4);
        Some (0, s5)
      })"

definition scheduler_get_nice :: "nat \<Rightarrow> kernel \<Rightarrow> int" where
  "scheduler_get_nice t s = nice (entity s t)"

subsection \<open>The scheduler loop\<close>

text \<open>\<^verbatim>\<open>scheduler_next\<close> runs on an idle CPU \<open>i\<close>. Its check that interrupts are off is left out; its only caller
  has just turned them off.\<close>

definition scheduler_next :: "nat \<Rightarrow> u64 \<Rightarrow> kernel \<Rightarrow> (nat option \<times> kernel) option" where
  "scheduler_next i now s =
     (if current (cpus s ! i) \<noteq> None \<or> selected (cpus s ! i) \<noteq> None then None
      else do {
        let s1 = upd_cpu i (\<lambda>c. c\<lparr>idle := False\<rparr>) s;
        node \<leftarrow> rb_first (timeline s1);
        (case node of
           Some t \<Rightarrow> do {
             s2 \<leftarrow> dequeue_entity_locked t s1;
             s3 \<leftarrow> update_min_vruntime_locked (Some t) now s2;
             let s4 = upd_entity t (\<lambda>e. e\<lparr>slice_ns := calculate_slice_locked t s3\<rparr>) s3;
             Some (Some t, upd_cpu i (\<lambda>c. c\<lparr>selected := Some t\<rparr>) s4)
           }
         | None \<Rightarrow>
             if rq_count s1 \<noteq> 0 \<or> total_weight s1 \<noteq> 0 then None
             else Some (None, upd_cpu i (\<lambda>c. c\<lparr>idle := True\<rparr>) s1))
      })"

definition scheduler_start :: "nat \<Rightarrow> kernel \<Rightarrow> kernel" where
  "scheduler_start i = upd_cpu i (\<lambda>c. c\<lparr>current := None, selected := None, idle := False\<rparr>)"

definition scheduler_idle_enter :: "nat \<Rightarrow> u64 \<Rightarrow> kernel \<Rightarrow> kernel" where
  "scheduler_idle_enter i idle_start = upd_cpu i (\<lambda>c. c\<lparr>idle_since_ns := idle_start\<rparr>)"

definition scheduler_idle_leave :: "nat \<Rightarrow> u64 \<Rightarrow> kernel \<Rightarrow> kernel" where
  "scheduler_idle_leave i now =
     upd_cpu i (\<lambda>c. let idle_start = idle_since_ns c; c1 = c\<lparr>idle_since_ns := 0\<rparr> in
       if idle_start \<noteq> 0 \<and> now > idle_start
       then c1\<lparr>idle_time_ns := idle_time_ns c1 + (now - idle_start)\<rparr> else c1)"

text \<open>The selected thread starts to run: from taking its lock to the switch.\<close>

definition scheduler_dispatch :: "nat \<Rightarrow> u64 \<Rightarrow> nat \<Rightarrow> kernel \<Rightarrow> kernel option" where
  "scheduler_dispatch i now t s =
     (if state (threads s t) \<noteq> THREAD_RUNNABLE \<or> on_runqueue (entity s t) \<or>
         (\<not> home (threads s t) \<and> \<not> kernel_thread (threads s t)) \<or>
         selected (cpus s ! i) \<noteq> Some t \<or> current (cpus s ! i) \<noteq> None
      then None
      else
        (let s1 = upd_thread t (\<lambda>th. th\<lparr>state := THREAD_RUNNING\<rparr>) s;
             s2 = upd_entity t (\<lambda>e. e\<lparr>exec_start := now, mode_start := now, user_mode := False\<rparr>) s1;
             s3 = upd_cpu i (\<lambda>c. c\<lparr>selected := None, need_resched := False, current := Some t\<rparr>) s2
         in Some (s3\<lparr>context_switches := context_switches s3 + 1\<rparr>)))"

text \<open>Back on the scheduler's stack after the thread has switched away: what is to be reaped.\<close>

datatype reap = No_reap | Reap_kernel_thread | Reap_process | Reap_user_thread

definition scheduler_switched :: "nat \<Rightarrow> nat \<Rightarrow> kernel \<Rightarrow> (reap \<times> kernel) option" where
  "scheduler_switched i t s =
     (if current (cpus s ! i) \<noteq> Some t \<or> selected (cpus s ! i) \<noteq> None then None
      else
        (let s1 = upd_cpu i (\<lambda>c. c\<lparr>current := None\<rparr>) s;
             th = threads s1 t
         in Some
           (if state th = THREAD_EXITED then
              (if kernel_thread th then Reap_kernel_thread
               else if process_reaper th = 2 then Reap_process
               else if process_reaper th = 0 then Reap_user_thread
               else No_reap)
            else No_reap, s1)))"

subsection \<open>Giving up the CPU\<close>

text \<open>The guard of \<^verbatim>\<open>sched\<close> on the state of the thread that switches away. Its checks of the thread's lock,
  the interrupts and the nesting of locks are left out.\<close>

definition sched_check :: "nat \<Rightarrow> kernel \<Rightarrow> kernel option" where
  "sched_check i s =
     (case current (cpus s ! i) of
        None \<Rightarrow> None
      | Some t \<Rightarrow> if state (threads s t) = THREAD_RUNNING then None else Some s)"

definition yield :: "(u64 \<Rightarrow> int) \<Rightarrow> nat \<Rightarrow> u64 \<Rightarrow> kernel \<Rightarrow> kernel option" where
  "yield sbi_send_ipi i now s = do {
     t \<leftarrow> cur_thread i s;
     s1 \<leftarrow> scheduler_enqueue sbi_send_ipi i now t False s;
     sched_check i s1
   }"

definition leave_running :: "nat \<Rightarrow> u64 \<Rightarrow> thread_state \<Rightarrow> kernel \<Rightarrow> kernel option" where
  "leave_running i now st s = do {
     t \<leftarrow> cur_thread i s;
     if state (threads s t) \<noteq> THREAD_RUNNING then None
     else do {
       let s1 = upd_entity t (account_runtime now) s;
       s2 \<leftarrow> update_min_vruntime_locked (Some t) (exec_start (entity s1 t)) s1;
       Some (upd_thread t (\<lambda>th. th\<lparr>state := st\<rparr>) s2)
     }
   }"

definition scheduler_block_current :: "nat \<Rightarrow> u64 \<Rightarrow> kernel \<Rightarrow> kernel option" where
  "scheduler_block_current i now s = leave_running i now THREAD_SLEEPING s"

definition scheduler_exit_locked :: "nat \<Rightarrow> u64 \<Rightarrow> kernel \<Rightarrow> kernel option" where
  "scheduler_exit_locked i now s = do {
     s1 \<leftarrow> leave_running i now THREAD_EXITED s;
     sched_check i s1
   }"

definition scheduler_exit :: "nat \<Rightarrow> u64 \<Rightarrow> kernel \<Rightarrow> kernel option" where
  "scheduler_exit i now s = (if cur_thread i s = None then None else scheduler_exit_locked i now s)"

definition scheduler_request_resched :: "nat \<Rightarrow> kernel \<Rightarrow> kernel" where
  "scheduler_request_resched i s =
     (if current (cpus s ! i) \<noteq> None then upd_cpu i (\<lambda>c. c\<lparr>need_resched := True\<rparr>) s else s)"

definition scheduler_tick :: "nat \<Rightarrow> u64 \<Rightarrow> kernel \<Rightarrow> kernel option" where
  "scheduler_tick i now s =
     (case current (cpus s ! i) of
        None \<Rightarrow> Some s
      | Some t \<Rightarrow>
          if state (threads s t) \<noteq> THREAD_RUNNING then Some s
          else do {
            let e = entity s t;
            let elapsed = (if now > exec_start e then now - exec_start e else 0);
            node \<leftarrow> rb_first (timeline s);
            let resched = (case node of
                None \<Rightarrow> False
              | Some leftmost \<Rightarrow>
                  elapsed \<ge> slice_ns e \<or>
                  entity_vruntime_now (threads s t) now >
                    add_saturate (vruntime (entity s leftmost)) SCHED_WAKEUP_GRANULARITY_NS);
            Some (if resched then upd_cpu i (\<lambda>c. c\<lparr>need_resched := True\<rparr>) s else s)
          })"

definition scheduler_should_resched :: "nat \<Rightarrow> kernel \<Rightarrow> bool \<times> kernel" where
  "scheduler_should_resched i s =
     (case current (cpus s ! i) of
        None \<Rightarrow> (False, s)
      | Some t \<Rightarrow>
          if state (threads s t) \<noteq> THREAD_RUNNING then (False, s)
          else (need_resched (cpus s ! i), upd_cpu i (\<lambda>c. c\<lparr>need_resched := False\<rparr>) s))"

end
