(* ===== verification/Sched_Queue.thy ===== *)
theory Sched_Queue
  imports Sched
begin

text \<open>
  The run queue of \<^verbatim>\<open>kernel/scheduler.c\<close> as a sorted list: what the scheduler needs of the
  red-black tree as an interface, the order of the entities, and the contract of the operations
  that enqueue, dequeue and account.
\<close>

subsection \<open>The interface of the tree\<close>

definition rb_holds :: "rb_root \<Rightarrow> nat list \<Rightarrow> bool" where
  "rb_holds s xs \<longleftrightarrow> (\<exists>t. represents s t \<and> rb_tree t \<and> inorder t = xs)"

locale ordered_index =
  fixes holds :: "'s \<Rightarrow> nat list \<Rightarrow> bool"
    and first :: "'s \<Rightarrow> nat option option"
    and erase :: "nat \<Rightarrow> 's \<Rightarrow> 's option"
  assumes holds_distinct: "holds s xs \<Longrightarrow> distinct xs"
    and first_holds: "holds s xs \<Longrightarrow> first s = Some (case xs of [] \<Rightarrow> None | x # _ \<Rightarrow> Some x)"
    and erase_holds: "holds s xs \<Longrightarrow> x \<in> set xs \<Longrightarrow> \<exists>s'. erase x s = Some s' \<and> holds s' (remove1 x xs)"
begin

lemma first_Nil: "holds s [] \<Longrightarrow> first s = Some None"
  using first_holds by fastforce

lemma pop: "holds s (x # xs) \<Longrightarrow> first s = Some (Some x) \<and> (\<exists>s'. erase x s = Some s' \<and> holds s' xs)"
  using first_holds [of s "x # xs"] erase_holds [of s "x # xs" x] by simp

lemma first_returns: "holds s xs \<Longrightarrow> \<exists>n. first s = Some n \<and> set_option n \<subseteq> set xs"
  using first_holds by (cases xs) fastforce+

end

interpretation rb: ordered_index rb_holds rb_first rb_erase
proof
  show "rb_holds s xs \<Longrightarrow> distinct xs" for s xs
    by (auto simp: rb_holds_def represents_def focused_def)
  show "rb_holds s xs \<Longrightarrow> rb_first s = Some (case xs of [] \<Rightarrow> None | x # _ \<Rightarrow> Some x)" for s xs
    using first_represents by (auto simp: rb_holds_def)
  show "rb_holds s xs \<Longrightarrow> x \<in> set xs \<Longrightarrow> \<exists>s'. rb_erase x s = Some s' \<and> rb_holds s' (remove1 x xs)"
    for s xs x
    using erase_represents by (fastforce simp: rb_holds_def)
qed

lemma rb_holds_empty: "rb_holds (rb_root_init s) []"
  unfolding rb_holds_def
  by (intro exI [of _ Tip]) (simp add: represents_def focused_def rb_root_init_def rb_tree_def)

subsection \<open>State updates\<close>

named_theorems kernel_simps

lemma upd_simps [kernel_simps, simp]:
  "threads (upd_thread t f s) = (threads s)(t := f (threads s t))"
  "cpus (upd_thread t f s) = cpus s" "timeline (upd_thread t f s) = timeline s"
  "total_weight (upd_thread t f s) = total_weight s" "min_vruntime (upd_thread t f s) = min_vruntime s"
  "rq_count (upd_thread t f s) = rq_count s" "waiters (upd_thread t f s) = waiters s"
  "timeout_queue (upd_thread t f s) = timeout_queue s"
  "threads (upd_entity t g s) = (threads s)(t := (threads s t)\<lparr>sched := g (entity s t)\<rparr>)"
  "cpus (upd_entity t g s) = cpus s" "timeline (upd_entity t g s) = timeline s"
  "total_weight (upd_entity t g s) = total_weight s" "min_vruntime (upd_entity t g s) = min_vruntime s"
  "rq_count (upd_entity t g s) = rq_count s" "waiters (upd_entity t g s) = waiters s"
  "timeout_queue (upd_entity t g s) = timeout_queue s"
  "threads (upd_cpu i h s) = threads s" "cpus (upd_cpu i h s) = (cpus s)[i := h (cpus s ! i)]"
  "timeline (upd_cpu i h s) = timeline s" "total_weight (upd_cpu i h s) = total_weight s"
  "min_vruntime (upd_cpu i h s) = min_vruntime s" "rq_count (upd_cpu i h s) = rq_count s"
  "waiters (upd_cpu i h s) = waiters s" "timeout_queue (upd_cpu i h s) = timeout_queue s"
  by (simp_all add: upd_thread_def upd_entity_def upd_cpu_def)

subsection \<open>The order of the entities\<close>

text \<open>\<open>entity_before\<close> is a strict linear order that only reads virtual runtimes and identifiers.\<close>

lemma before_irrefl: "\<not> entity_before s a a"
  by (simp add: entity_before_def)

lemma before_trans: "entity_before s a b \<Longrightarrow> entity_before s b c \<Longrightarrow> entity_before s a c"
  by (auto simp: entity_before_def split: if_splits)

lemma before_total: "a \<noteq> b \<Longrightarrow> entity_before s a b \<or> entity_before s b a"
  by (auto simp: entity_before_def)

lemma before_cong:
  "vruntime (entity s a) = vruntime (entity s' a) \<Longrightarrow> vruntime (entity s b) = vruntime (entity s' b) \<Longrightarrow>
     tid (threads s a) = tid (threads s' a) \<Longrightarrow> tid (threads s b) = tid (threads s' b) \<Longrightarrow>
     entity_before s a b = entity_before s' a b"
  by (simp add: entity_before_def)

lemma before_vruntime: "entity_before s a b \<Longrightarrow> vruntime (entity s a) \<le> vruntime (entity s b)"
  by (auto simp: entity_before_def split: if_splits)

subsection \<open>Finding the place of an entity\<close>

lemma link_load_at:
  "focused s ctx t \<Longrightarrow> link_load (link_at ctx) s = root_of t"
  by (cases ctx rule: link_at.cases) (auto simp: focused_def link_load_def)

lemma enqueue_descend_place:
  assumes "focused (timeline s) ctx u"
    and "sorted_wrt (\<lambda>a b. entity_before s x a \<longrightarrow> entity_before s x b) (inorder u)"
    and "\<forall>a \<in> set (before ctx). \<not> entity_before s x a" "\<forall>a \<in> set (after ctx). entity_before s x a"
  shows "\<exists>ctx'. enqueue_descend s x (ctx_parent ctx) (link_at ctx) = Some (ctx_parent ctx', link_at ctx') \<and>
    plug ctx' Tip = plug ctx u \<and> (\<forall>a \<in> set (before ctx'). \<not> entity_before s x a) \<and>
    (\<forall>a \<in> set (after ctx'). entity_before s x a)"
  using assms
proof (induction u arbitrary: ctx)
  case Tip
  then show ?case
    using link_load_at [OF Tip(1)] by (subst enqueue_descend.simps) auto
next
  case (Bin c l a r)
  note load = link_load_at [OF Bin.prems(1)]
  show ?case
  proof (cases "entity_before s x a")
    case True
    then have "\<exists>ctx'. enqueue_descend s x (ctx_parent (In_left c a r # ctx)) (link_at (In_left c a r # ctx)) =
        Some (ctx_parent ctx', link_at ctx') \<and> plug ctx' Tip = plug (In_left c a r # ctx) l \<and>
      (\<forall>a \<in> set (before ctx'). \<not> entity_before s x a) \<and> (\<forall>a \<in> set (after ctx'). entity_before s x a)"
      using Bin.prems by (intro Bin.IH(1)) (auto simp: focused_up sorted_wrt_append)
    then show ?thesis
      using load True by (subst enqueue_descend.simps) simp
  next
    case False
    then have "\<exists>ctx'. enqueue_descend s x (ctx_parent (In_right l c a # ctx)) (link_at (In_right l c a # ctx)) =
        Some (ctx_parent ctx', link_at ctx') \<and> plug ctx' Tip = plug (In_right l c a # ctx) r \<and>
      (\<forall>a \<in> set (before ctx'). \<not> entity_before s x a) \<and> (\<forall>a \<in> set (after ctx'). entity_before s x a)"
      using Bin.prems by (intro Bin.IH(2)) (auto simp: focused_up sorted_wrt_append)
    then show ?thesis
      using load False by (subst enqueue_descend.simps) simp
  qed
qed

text \<open>Inserting into the sorted queue: everything before the new thread is not after it in the
  order, everything behind it is.\<close>

lemma enqueue_place:
  assumes "rb_holds (timeline s) xs" "sorted_wrt (entity_before s) xs" "x \<notin> set xs"
  shows "\<exists>p l tree as bs. enqueue_descend s x None Root_link = Some (p, l) \<and>
    rb_insert_color x (rb_link_node x p l (timeline s)) = Some tree \<and> rb_holds tree (as @ x # bs) \<and>
    xs = as @ bs \<and> (\<forall>a \<in> set as. \<not> entity_before s x a) \<and> (\<forall>b \<in> set bs. entity_before s x b)"
proof -
  obtain u where u: "represents (timeline s) u" "rb_tree u" "inorder u = xs"
    using assms(1) by (auto simp: rb_holds_def)
  have "sorted_wrt (\<lambda>a b. entity_before s x a \<longrightarrow> entity_before s x b) (inorder u)"
    using assms(2) by (auto simp: u(3) intro: sorted_wrt_mono_rel [rotated] before_trans)
  then obtain ctx where ctx: "enqueue_descend s x None Root_link = Some (ctx_parent ctx, link_at ctx)"
    "plug ctx Tip = u" "\<forall>a \<in> set (before ctx). \<not> entity_before s x a"
    "\<forall>a \<in> set (after ctx). entity_before s x a"
    using enqueue_descend_place [of s "[]" u x] u(1) by (auto simp: represents_def)
  have split: "xs = before ctx @ after ctx"
    using ctx(2) u(3) by auto
  then obtain tree t' where "rb_insert_color x (rb_link_node x (ctx_parent ctx) (link_at ctx) (timeline s)) = Some tree"
    "represents tree t'" "rb_tree t'" "inorder t' = before ctx @ x # after ctx"
    using insert_represents [of "timeline s" ctx x] u ctx(2) assms(3) by auto
  then show ?thesis
    using ctx split by (auto simp: rb_holds_def)
qed

subsection \<open>The invariant of the run queue\<close>

text \<open>The tree holds exactly the threads marked \<^verbatim>\<open>on_runqueue\<close>, in the order of the entities, and the
  counters agree with it.\<close>

definition queue_inv :: "kernel \<Rightarrow> nat list \<Rightarrow> bool" where
  "queue_inv s xs \<longleftrightarrow>
     rb_holds (timeline s) xs \<and> sorted_wrt (entity_before s) xs \<and>
     (\<forall>t. t \<in> set xs \<longleftrightarrow> on_runqueue (entity s t)) \<and> (\<forall>t \<in> set xs. t < NTHREAD) \<and>
     unat (rq_count s) = length xs \<and>
     unat (total_weight s) = (\<Sum>t \<leftarrow> xs. unat (weight (entity s t)))"

definition weights_ok :: "kernel \<Rightarrow> bool" where
  "weights_ok s \<longleftrightarrow> (\<forall>t. weight (entity s t) \<in> set nice_weights)"

lemma nice_weight_bounds: "w \<in> set nice_weights \<Longrightarrow> 15 \<le> unat w \<and> unat w \<le> 88761"
  by (auto simp: nice_weights_def)

lemma queue_inv_length: "queue_inv s xs \<Longrightarrow> length xs \<le> 64"
proof -
  assume q: "queue_inv s xs"
  then have "distinct xs" "set xs \<subseteq> {..<NTHREAD}"
    using rb.holds_distinct by (auto simp: queue_inv_def)
  then show ?thesis
    using card_mono [of "{..<NTHREAD}" "set xs"] distinct_card [of xs] by (simp add: NTHREAD_def)
qed

lemma weight_sum_le:
  assumes "weights_ok s"
  shows "(\<Sum>t \<leftarrow> xs. unat (weight (entity s t))) \<le> 88761 * length xs"
proof (induction xs)
  case (Cons x xs)
  have "unat (weight (entity s x)) \<le> 88761"
    using assms nice_weight_bounds by (simp add: weights_ok_def)
  then show ?case
    using Cons by simp
qed simp

lemma queue_inv_cong:
  assumes "queue_inv s xs" "timeline s' = timeline s" "rq_count s' = rq_count s"
    "total_weight s' = total_weight s"
    and same: "\<And>t. t \<in> set xs \<Longrightarrow> vruntime (entity s' t) = vruntime (entity s t) \<and>
      tid (threads s' t) = tid (threads s t) \<and> weight (entity s' t) = weight (entity s t)"
    and "\<And>t. on_runqueue (entity s' t) = on_runqueue (entity s t)"
  shows "queue_inv s' xs"
proof -
  have "entity_before s' a b" if "a \<in> set xs" "b \<in> set xs" "entity_before s a b" for a b
    using that same before_cong [of s' a s b] by simp
  then have "sorted_wrt (entity_before s') xs"
    using assms(1) by (auto simp: queue_inv_def intro: sorted_wrt_mono_rel [of xs "entity_before s"])
  moreover have "(\<Sum>t \<leftarrow> xs. unat (weight (entity s' t))) = (\<Sum>t \<leftarrow> xs. unat (weight (entity s t)))"
    using same by (intro arg_cong [of _ _ sum_list] map_cong refl) auto
  ultimately show ?thesis
    using assms by (simp add: queue_inv_def)
qed

text \<open>What an operation on the run queue leaves alone.\<close>

definition same_rest :: "kernel \<Rightarrow> kernel \<Rightarrow> bool" where
  "same_rest s s' \<longleftrightarrow> cpus s' = cpus s \<and> min_vruntime s' = min_vruntime s \<and>
     waiters s' = waiters s \<and> timeout_queue s' = timeout_queue s"

lemma enqueue_entity_spec:
  assumes q: "queue_inv s xs" and w: "weights_ok s" and x: "x < NTHREAD" "\<not> on_runqueue (entity s x)"
  shows "\<exists>s' as bs. enqueue_entity_locked x s = Some s' \<and> queue_inv s' (as @ x # bs) \<and> xs = as @ bs \<and>
    threads s' = threads (upd_entity x (\<lambda>e. e\<lparr>on_runqueue := True\<rparr>) s) \<and> same_rest s s'"
proof -
  have out: "x \<notin> set xs"
    using q x by (auto simp: queue_inv_def)
  obtain p l tree as bs where e: "enqueue_descend s x None Root_link = Some (p, l)"
    "rb_insert_color x (rb_link_node x p l (timeline s)) = Some tree" "rb_holds tree (as @ x # bs)"
    and split: "xs = as @ bs" and as: "\<forall>a \<in> set as. \<not> entity_before s x a"
    and bs: "\<forall>b \<in> set bs. entity_before s x b"
    using enqueue_place [of s xs x] q out by (auto simp: queue_inv_def)
  define s1 where "s1 = upd_entity x (\<lambda>e. e\<lparr>on_runqueue := True\<rparr>) (s\<lparr>timeline := tree\<rparr>)"
  define s' where "s' = s1\<lparr>rq_count := rq_count s1 + 1,
    total_weight := total_weight s1 + ucast (weight (entity s1 x))\<rparr>"
  have s': "enqueue_entity_locked x s = Some s'"
    using e by (simp add: enqueue_entity_locked_def s'_def s1_def)
  have th: "threads s' = threads (upd_entity x (\<lambda>e. e\<lparr>on_runqueue := True\<rparr>) s)"
    by (simp add: s'_def s1_def)
  have "entity_before s' = entity_before s"
    by (intro ext before_cong) (simp_all add: th)
  moreover have "\<forall>a \<in> set as. entity_before s a x"
    using as out before_total [of _ x s] by (metis UnCI set_append split)
  then have "sorted_wrt (entity_before s) (as @ x # bs)"
    using q bs by (auto simp: queue_inv_def split sorted_wrt_append)
  moreover have "rq_count s' = rq_count s + 1"
    "total_weight s' = total_weight s + ucast (weight (entity s x))"
    by (simp_all add: s'_def s1_def)
  moreover have "unat (rq_count s) = length xs" "length xs \<le> 64"
    using q queue_inv_length by (auto simp: queue_inv_def)
  then have "unat (rq_count s + 1) = Suc (length xs)"
    using unat_add_no_overflow [of "rq_count s" 1] by simp
  moreover have tw: "unat (total_weight s) = (\<Sum>t \<leftarrow> xs. unat (weight (entity s t)))"
    using q by (simp add: queue_inv_def)
  moreover have "unat (total_weight s) \<le> 88761 * 64"
    using weight_sum_le [OF w, of xs] queue_inv_length [OF q] tw by linarith
  moreover have "unat (weight (entity s x)) \<le> 88761"
    using w nice_weight_bounds by (simp add: weights_ok_def)
  moreover have "timeline s' = tree" "\<And>t. weight (entity s' t) = weight (entity s t)"
    "\<And>t. on_runqueue (entity s' t) \<longleftrightarrow> t = x \<or> on_runqueue (entity s t)"
    by (simp_all add: s'_def s1_def)
  ultimately have "queue_inv s' (as @ x # bs)"
    using q e(3) x unat_add_no_overflow [of "total_weight s" "ucast (weight (entity s x))"]
    by (auto simp: queue_inv_def split)
  then show ?thesis
    using s' split th by (auto simp: same_rest_def s'_def s1_def)
qed

lemma dequeue_entity_spec:
  assumes q: "queue_inv s xs" and w: "weights_ok s" and x: "x \<in> set xs"
  shows "\<exists>s'. dequeue_entity_locked x s = Some s' \<and> queue_inv s' (remove1 x xs) \<and>
    threads s' = threads (upd_entity x (\<lambda>e. e\<lparr>on_runqueue := False\<rparr>) s) \<and> same_rest s s'"
proof -
  obtain tree where tree: "rb_erase x (timeline s) = Some tree" "rb_holds tree (remove1 x xs)"
    using rb.erase_holds [of "timeline s" xs x] q x by (auto simp: queue_inv_def)
  have dist: "distinct xs"
    using q rb.holds_distinct by (auto simp: queue_inv_def)
  have tw: "unat (total_weight s) =
      unat (weight (entity s x)) + (\<Sum>t \<leftarrow> remove1 x xs. unat (weight (entity s t)))"
    using q sum_list_map_remove1 [OF x, of "\<lambda>t. unat (weight (entity s t))"]
    by (simp add: queue_inv_def)
  have le: "ucast (weight (entity s x)) \<le> total_weight s"
    using tw by (simp add: word_le_nat_alt)
  define s1 where "s1 = upd_entity x (\<lambda>e. e\<lparr>on_runqueue := False\<rparr>) (s\<lparr>timeline := tree\<rparr>)"
  define s' where "s' = s1\<lparr>rq_count := rq_count s1 - 1,
    total_weight := total_weight s1 - ucast (weight (entity s1 x))\<rparr>"
  have pos: "0 < length xs" "unat (rq_count s) = length xs"
    using q x by (auto simp: queue_inv_def)
  have "dequeue_entity_locked x s = Some s'"
    using tree q x le pos
    by (auto simp: dequeue_entity_locked_def s'_def s1_def queue_inv_def not_less)
  moreover have th: "threads s' = threads (upd_entity x (\<lambda>e. e\<lparr>on_runqueue := False\<rparr>) s)"
    by (simp add: s'_def s1_def)
  moreover have "entity_before s' = entity_before s"
    by (intro ext before_cong) (simp_all add: th)
  moreover have "sorted_wrt (entity_before s) (remove1 x xs)"
    using q sorted_wrt_filter [of "entity_before s" xs "\<lambda>t. x \<noteq> t"]
    by (simp add: queue_inv_def distinct_remove1_removeAll [OF dist] removeAll_filter_not_eq)
  moreover have "timeline s' = tree" "\<And>t. weight (entity s' t) = weight (entity s t)"
    "\<And>t. on_runqueue (entity s' t) \<longleftrightarrow> t \<noteq> x \<and> on_runqueue (entity s t)"
    by (simp_all add: s'_def s1_def)
  moreover have "unat (rq_count s') = length (remove1 x xs)"
    using pos x unat_sub [of 1 "rq_count s"] Suc_leI [OF pos(1)]
    by (simp add: s'_def s1_def length_remove1 word_le_nat_alt)
  moreover have "unat (total_weight s') = (\<Sum>t \<leftarrow> remove1 x xs. unat (weight (entity s t)))"
    using le tw unat_sub [OF le] by (simp add: s'_def s1_def)
  ultimately have "queue_inv s' (remove1 x xs)"
    using q tree(2) dist by (auto simp: queue_inv_def set_remove1_eq)
  moreover have "same_rest s s'"
    by (simp add: same_rest_def s'_def s1_def)
  ultimately show ?thesis
    using \<open>dequeue_entity_locked x s = Some s'\<close> th by blast
qed

subsection \<open>The minimum virtual runtime\<close>

lemma update_min_spec:
  assumes "rb_holds (timeline s) xs"
  shows "\<exists>m. update_min_vruntime_locked sel now s = Some (s\<lparr>min_vruntime := m\<rparr>) \<and> min_vruntime s \<le> m"
proof -
  obtain node where "rb_first (timeline s) = Some node"
    using rb.first_returns [OF assms] by blast
  then obtain m where m: "update_min_vruntime_locked sel now s =
      Some (if m \<noteq> NOT 0 \<and> m > min_vruntime s then s\<lparr>min_vruntime := m\<rparr> else s)"
    by (simp add: update_min_vruntime_locked_def Let_def)
  show ?thesis
  proof (cases "m \<noteq> NOT 0 \<and> m > min_vruntime s")
    case True
    then show ?thesis
      using m by (intro exI [of _ m]) (simp add: less_imp_le)
  next
    case False
    then show ?thesis
      using m by (intro exI [of _ "min_vruntime s"]) auto
  qed
qed

lemma upd_entity_id: "f (entity s t) = entity s t \<Longrightarrow> upd_entity t f s = s"
  by (simp add: upd_entity_def upd_thread_def)

lemma upd_entity_cong: "f (entity s t) = g (entity s t) \<Longrightarrow> upd_entity t f s = upd_entity t g s"
  by (simp add: upd_entity_def upd_thread_def)

text \<open>A thread that becomes runnable is placed no further back than the wakeup granularity
  behind the queue, and a new one at its minimum.\<close>

definition placed :: "kernel \<Rightarrow> sched_entity \<Rightarrow> u64" where
  "placed s e =
     (if \<not> initialized e then min_vruntime s
      else if min_vruntime s > SCHED_WAKEUP_GRANULARITY_NS
      then max (vruntime e) (min_vruntime s - SCHED_WAKEUP_GRANULARITY_NS) else vruntime e)"

lemma place_entity_eq:
  "place_entity_locked t s =
     upd_entity t (\<lambda>e. e\<lparr>vruntime := placed s e, initialized := True\<rparr>) s"
proof -
  consider "\<not> initialized (entity s t)" | "initialized (entity s t)" "placed s (entity s t) \<noteq> vruntime (entity s t)"
    | "initialized (entity s t)" "placed s (entity s t) = vruntime (entity s t)"
    by blast
  then show ?thesis
  proof cases
    case 1
    then show ?thesis
      by (auto simp: place_entity_locked_def placed_def Let_def intro: upd_entity_cong)
  next
    case 2
    then show ?thesis
      by (cases "entity s t")
        (auto simp: place_entity_locked_def placed_def Let_def max_def le_less
          intro!: upd_entity_cong split: if_splits)
  next
    case 3
    then have "upd_entity t (\<lambda>e. e\<lparr>vruntime := placed s e, initialized := True\<rparr>) s = s"
      by (intro upd_entity_id) (cases "entity s t", simp)
    then show ?thesis
      using 3 by (auto simp: place_entity_locked_def placed_def Let_def max_def split: if_splits)
  qed
qed

end
