(* ===== verification/Sched_Steps.thy ===== *)
theory Sched_Steps
  imports Sched_Queue
begin

text \<open>
  The scheduler as a state machine. An abstract view keeps who runs where, who has been picked,
  the state of every thread and the set of queued threads; each operation of
  \<^verbatim>\<open>kernel/scheduler.c\<close> is shown to return and to act on the view as its abstract counterpart.
\<close>

subsection \<open>The abstract view\<close>

record sched_view =
  running :: "nat \<Rightarrow> nat option"
  picked :: "nat \<Rightarrow> nat option"
  status :: "nat \<Rightarrow> thread_state"
  queued :: "nat set"
  owned :: "nat set"

definition on_cpus :: "(cpu \<Rightarrow> nat option) \<Rightarrow> cpu list \<Rightarrow> nat \<Rightarrow> nat option" where
  "on_cpus f cs i = (if i < length cs then f (cs ! i) else None)"

definition view :: "kernel \<Rightarrow> sched_view" where
  "view s = \<lparr>running = on_cpus current (cpus s), picked = on_cpus selected (cpus s),
     status = (\<lambda>t. state (threads s t)), queued = {t. on_runqueue (entity s t)},
     owned = {t. home (threads s t) \<or> kernel_thread (threads s t)}\<rparr>"

definition view_pick :: "nat \<Rightarrow> nat \<Rightarrow> sched_view \<Rightarrow> sched_view" where
  "view_pick i t v = v\<lparr>picked := (picked v)(i := Some t), queued := queued v - {t}\<rparr>"

definition view_dispatch :: "nat \<Rightarrow> nat \<Rightarrow> sched_view \<Rightarrow> sched_view" where
  "view_dispatch i t v =
     v\<lparr>running := (running v)(i := Some t), picked := (picked v)(i := None),
       status := (status v)(t := THREAD_RUNNING)\<rparr>"

definition view_enqueue :: "nat \<Rightarrow> sched_view \<Rightarrow> sched_view" where
  "view_enqueue t v = v\<lparr>status := (status v)(t := THREAD_RUNNABLE), queued := insert t (queued v)\<rparr>"

definition view_leave :: "nat \<Rightarrow> thread_state \<Rightarrow> sched_view \<Rightarrow> sched_view" where
  "view_leave t st v = v\<lparr>status := (status v)(t := st)\<rparr>"

definition view_switched :: "nat \<Rightarrow> sched_view \<Rightarrow> sched_view" where
  "view_switched i v = v\<lparr>running := (running v)(i := None)\<rparr>"

definition queue_ok :: "kernel \<Rightarrow> bool" where
  "queue_ok s \<longleftrightarrow> weights_ok s \<and> (\<exists>xs. queue_inv s xs)"

lemma view_eqI:
  assumes "on_cpus current (cpus s') = running v" "on_cpus selected (cpus s') = picked v"
    "\<And>t. state (threads s' t) = status v t" "\<And>t. on_runqueue (entity s' t) \<longleftrightarrow> t \<in> queued v"
    "\<And>t. home (threads s' t) \<or> kernel_thread (threads s' t) \<longleftrightarrow> t \<in> owned v"
  shows "view s' = v"
  using assms by (cases v) (auto simp: view_def)

lemma view_sel [simp]:
  "running (view s) = on_cpus current (cpus s)" "picked (view s) = on_cpus selected (cpus s)"
  "status (view s) t = state (threads s t)" "t \<in> queued (view s) \<longleftrightarrow> on_runqueue (entity s t)"
  "t \<in> owned (view s) \<longleftrightarrow> home (threads s t) \<or> kernel_thread (threads s t)"
  by (simp_all add: view_def)

text \<open>Changes of a CPU that neither start nor stop a thread.\<close>

lemma on_cpus_upd:
  "i < length cs \<Longrightarrow> on_cpus f (cs[i := c]) = (on_cpus f cs)(i := f c)"
  "f (g (cs ! i)) = f (cs ! i) \<Longrightarrow> on_cpus f (cs[i := g (cs ! i)]) = on_cpus f cs"
proof -
  show "i < length cs \<Longrightarrow> on_cpus f (cs[i := c]) = (on_cpus f cs)(i := f c)"
    by (auto simp: on_cpus_def nth_list_update fun_eq_iff)
  show "on_cpus f (cs[i := g (cs ! i)]) = on_cpus f cs" if "f (g (cs ! i)) = f (cs ! i)"
  proof
    fix x
    show "on_cpus f (cs[i := g (cs ! i)]) x = on_cpus f cs x"
      using that by (cases "x = i") (auto simp: on_cpus_def)
  qed
qed

lemma view_upd_cpu:
  assumes "\<And>c. current (f c) = current c" "\<And>c. selected (f c) = selected c"
  shows "view (upd_cpu i f s) = view s"
  using assms by (intro view_eqI) (simp_all add: on_cpus_upd(2))

lemma queue_inv_upd_cpu [simp]: "queue_inv (upd_cpu i f s) xs = queue_inv s xs"
  by (simp add: queue_inv_def entity_before_def [abs_def])

lemma weights_ok_upd_cpu [simp]: "weights_ok (upd_cpu i f s) = weights_ok s"
  by (simp add: weights_ok_def)

lemma min_vruntime_invisible [simp]:
  "queue_inv (s\<lparr>min_vruntime := m\<rparr>) xs = queue_inv s xs" "weights_ok (s\<lparr>min_vruntime := m\<rparr>) = weights_ok s"
  "view (s\<lparr>min_vruntime := m\<rparr>) = view s"
  "queue_inv (s\<lparr>context_switches := n\<rparr>) xs = queue_inv s xs"
  "weights_ok (s\<lparr>context_switches := n\<rparr>) = weights_ok s"
  by (simp_all add: queue_inv_def entity_before_def [abs_def] weights_ok_def view_def)

subsection \<open>Accounting\<close>

lemma account_mode_keeps [simp]:
  "weight (account_mode now e) = weight e" "on_runqueue (account_mode now e) = on_runqueue e"
  "vruntime (account_mode now e) = vruntime e" "exec_start (account_mode now e) = exec_start e"
  by (simp_all add: account_mode_def Let_def)

lemma account_runtime_keeps [simp]:
  "weight (account_runtime now e) = weight e" "on_runqueue (account_runtime now e) = on_runqueue e"
  by (simp_all add: account_runtime_def Let_def)

text \<open>Changing a thread that is not queued, without queueing it or changing its weight.\<close>

lemma queue_inv_upd_entity:
  assumes "queue_inv s xs" "\<not> on_runqueue (entity s t)" "\<And>e. on_runqueue (f e) = on_runqueue e"
  shows "queue_inv (upd_entity t f s) xs"
proof (rule queue_inv_cong [OF assms(1)])
  fix u
  assume "u \<in> set xs"
  then have "u \<noteq> t"
    using assms(1,2) by (auto simp: queue_inv_def)
  then show "vruntime (entity (upd_entity t f s) u) = vruntime (entity s u) \<and>
      tid (threads (upd_entity t f s) u) = tid (threads s u) \<and>
      weight (entity (upd_entity t f s) u) = weight (entity s u)"
    by simp
qed (simp_all add: assms(3))

lemma queue_inv_upd_thread:
  assumes "queue_inv s xs" "\<And>th. sched (f th) = sched th" "\<And>th. tid (f th) = tid th"
  shows "queue_inv (upd_thread t f s) xs"
  by (rule queue_inv_cong [OF assms(1)]) (simp_all add: assms(2,3))

lemma weights_ok_upd:
  "weights_ok s \<Longrightarrow> (\<And>e. weight (f e) = weight e) \<Longrightarrow> weights_ok (upd_entity t f s)"
  "weights_ok s \<Longrightarrow> (\<And>th. sched (g th) = sched th) \<Longrightarrow> weights_ok (upd_thread t g s)"
  by (simp_all add: weights_ok_def)

lemma view_upd_entity:
  "(\<And>e. on_runqueue (f e) = on_runqueue e) \<Longrightarrow> view (upd_entity t f s) = view s"
  by (intro view_eqI) simp_all

lemma view_upd_status:
  assumes "\<And>th. state (f th) = st" "\<And>th. sched (f th) = sched th" "\<And>th. home (f th) = home th"
    "\<And>th. kernel_thread (f th) = kernel_thread th"
  shows "view (upd_thread t f s) = view_leave t st (view s)"
  using assms by (intro view_eqI) (simp_all add: view_leave_def)

subsection \<open>Enqueueing a thread\<close>

text \<open>What making a thread runnable changes of the thread structures and the wait queues.\<close>

definition only_woken :: "nat \<Rightarrow> kernel \<Rightarrow> kernel \<Rightarrow> bool" where
  "only_woken t s s' \<longleftrightarrow>
     (\<exists>e. threads s' = (threads s)(t := (threads s t)\<lparr>state := THREAD_RUNNABLE, sched := e\<rparr>)) \<and>
     waiters s' = waiters s \<and> timeout_queue s' = timeout_queue s"

text \<open>Two states that differ in \<^verbatim>\<open>idle\<close> and \<^verbatim>\<open>need_resched\<close> only.\<close>

definition hints_only :: "kernel \<Rightarrow> kernel \<Rightarrow> bool" where
  "hints_only s s' \<longleftrightarrow> (\<forall>xs. queue_inv s' xs = queue_inv s xs) \<and> weights_ok s' = weights_ok s \<and>
     view s' = view s \<and> threads s' = threads s \<and> waiters s' = waiters s \<and>
     timeout_queue s' = timeout_queue s \<and> min_vruntime s' = min_vruntime s"

lemma hints_only_refl: "hints_only s s"
  by (simp add: hints_only_def)

lemma hints_only_trans: "hints_only s s1 \<Longrightarrow> hints_only s1 s2 \<Longrightarrow> hints_only s s2"
  by (simp add: hints_only_def)

lemma hints_only_cpu:
  "(\<And>c. current (f c) = current c) \<Longrightarrow> (\<And>c. selected (f c) = selected c) \<Longrightarrow>
     hints_only s (upd_cpu i f s)"
  by (simp add: hints_only_def view_upd_cpu)

lemma claim_idle_hints: "hints_only s (snd (claim_idle_cpu_locked me s))"
  by (auto simp: claim_idle_cpu_locked_def Let_def hints_only_refl intro: hints_only_cpu)

lemma select_preempt_hints: "hints_only s (snd (select_preempt_cpu_locked t now s))"
  by (auto simp: select_preempt_cpu_locked_def Let_def hints_only_refl intro: hints_only_cpu)

lemma request_resched_hints: "hints_only s (request_resched_on target s)"
  by (auto simp: request_resched_on_def hints_only_refl intro: hints_only_cpu)

lemma wake_cpu_returns: "(\<And>h. ipi h = 0) \<Longrightarrow> wake_cpu ipi me target s = Some s"
  by (simp add: wake_cpu_def)

text \<open>The tail of \<^verbatim>\<open>scheduler_enqueue\<close>: choosing the CPU to wake.\<close>

lemma enqueue_tail:
  assumes "\<And>h. ipi h = 0"
  shows "\<exists>s'. (let (target, s6) = (if w then claim_idle_cpu_locked me s else (-1, s));
      (target, s7) = (if w \<and> target < 0 then select_preempt_cpu_locked t now s6 else (target, s6))
    in wake_cpu ipi me target s7) = Some s' \<and> hints_only s s'"
  using claim_idle_hints [of s me] select_preempt_hints [of _ t now] hints_only_refl [of s]
  by (auto simp: Let_def split_def wake_cpu_returns [OF assms] intro: hints_only_trans)

definition wakeable :: "thread_state set" where
  "wakeable = {THREAD_ALLOCATED, THREAD_RUNNING, THREAD_SLEEPING}"

lemma scheduler_enqueue_spec:
  assumes q: "queue_inv s xs" and w: "weights_ok s" and t: "t < NTHREAD" "\<not> on_runqueue (entity s t)"
    "state (threads s t) \<in> wakeable" and ipi: "\<And>h. ipi h = 0"
  shows "\<exists>s' as bs. scheduler_enqueue ipi me now t wake s = Some s' \<and> queue_inv s' (as @ t # bs) \<and>
    xs = as @ bs \<and> weights_ok s' \<and> view s' = view_enqueue t (view s) \<and> only_woken t s s' \<and>
    min_vruntime s \<le> min_vruntime s'"
proof -
  define run where "run = (state (threads s t) = THREAD_RUNNING)"
  define s1 where "s1 = (if run then upd_entity t (account_runtime now) s else s)"
  have s1: "queue_inv s1 xs" "weights_ok s1" "view s1 = view s" "min_vruntime s1 = min_vruntime s"
    using q w t by (simp_all add: s1_def queue_inv_upd_entity weights_ok_upd view_upd_entity)
  obtain m where m: "update_min_vruntime_locked (if run then Some t else None) now s1 =
      Some (s1\<lparr>min_vruntime := m\<rparr>)" "min_vruntime s \<le> m"
    using update_min_spec [of s1 xs] s1(1,4) unfolding queue_inv_def by metis
  define s2 where "s2 = s1\<lparr>min_vruntime := m\<rparr>"
  define s3 where "s3 = (if \<not> run then place_entity_locked t s2 else s2)"
  have off: "\<not> on_runqueue (entity s2 t)"
    using t by (simp add: s2_def s1_def)
  have s3: "queue_inv s3 xs" "weights_ok s3" "view s3 = view s" "min_vruntime s3 = m"
    using s1 off
    by (simp_all add: s3_def place_entity_eq queue_inv_upd_entity weights_ok_upd view_upd_entity s2_def)
  define s4 where "s4 = upd_thread t (\<lambda>th. th\<lparr>state := THREAD_RUNNABLE\<rparr>) s3"
  have s4: "queue_inv s4 xs" "weights_ok s4" "view s4 = view_leave t THREAD_RUNNABLE (view s)"
    using s3 by (simp_all add: s4_def queue_inv_upd_thread weights_ok_upd view_upd_status)
  have "\<not> on_runqueue (entity s4 t)"
    using off by (simp add: s4_def s3_def place_entity_eq)
  then obtain s5 as bs where s5: "enqueue_entity_locked t s4 = Some s5" "queue_inv s5 (as @ t # bs)"
    "xs = as @ bs" and th: "threads s5 = threads (upd_entity t (\<lambda>e. e\<lparr>on_runqueue := True\<rparr>) s4)"
    and rest: "same_rest s4 s5"
    using enqueue_entity_spec [OF s4(1,2) t(1)] by blast
  obtain s' where s': "(let (target, s6) = (if wake then claim_idle_cpu_locked me s5 else (-1, s5));
      (target, s7) = (if wake \<and> target < 0 then select_preempt_cpu_locked t now s6 else (target, s6))
    in wake_cpu ipi me target s7) = Some s'" and hints: "hints_only s5 s'"
    using enqueue_tail [of ipi wake me s5 t now] ipi by blast
  have "scheduler_enqueue ipi me now t wake s = Some s'"
    using t s5(1) s' m(1)
    by (auto simp: scheduler_enqueue_def Let_def wakeable_def run_def [symmetric] s1_def [symmetric]
        s2_def [symmetric] s3_def [symmetric] s4_def [symmetric])
  moreover have "weights_ok s5"
    using s4(2) by (simp add: weights_ok_def th)
  moreover have "view s5 = view_enqueue t (view s)"
  proof (rule view_eqI)
    show "on_cpus current (cpus s5) = running (view_enqueue t (view s))"
      "on_cpus selected (cpus s5) = picked (view_enqueue t (view s))"
      using rest s4(3) by (simp_all add: same_rest_def view_enqueue_def view_leave_def view_def)
    fix u
    have "status (view s4) u = (if u = t then THREAD_RUNNABLE else state (threads s u))"
      "u \<in> queued (view s4) \<longleftrightarrow> on_runqueue (entity s u)"
      "u \<in> owned (view s4) \<longleftrightarrow> home (threads s u) \<or> kernel_thread (threads s u)"
      unfolding s4(3) by (simp_all add: view_leave_def)
    then show "state (threads s5 u) = status (view_enqueue t (view s)) u"
      "on_runqueue (entity s5 u) \<longleftrightarrow> u \<in> queued (view_enqueue t (view s))"
      "home (threads s5 u) \<or> kernel_thread (threads s5 u) \<longleftrightarrow> u \<in> owned (view_enqueue t (view s))"
      by (auto simp: th view_enqueue_def)
  qed
  moreover obtain e where e: "threads s3 = (threads s)(t := (threads s t)\<lparr>sched := e\<rparr>)"
  proof -
    have "threads s = (threads s)(t := (threads s t)\<lparr>sched := entity s t\<rparr>)"
      by simp
    then show ?thesis
      using that by (cases run) (auto simp: s3_def s2_def s1_def place_entity_eq)
  qed
  have "threads s5 = (threads s)(t := (threads s t)\<lparr>state := THREAD_RUNNABLE, sched := e\<lparr>on_runqueue := True\<rparr>\<rparr>)"
    by (simp add: th s4_def e)
  moreover have "waiters s5 = waiters s" "timeout_queue s5 = timeout_queue s"
    using rest by (simp_all add: same_rest_def s4_def s3_def s2_def s1_def place_entity_eq)
  ultimately have "only_woken t s s5"
    unfolding only_woken_def by blast
  moreover have "weights_ok s5" "view s5 = view_enqueue t (view s)"
    by fact+
  moreover have "min_vruntime s5 = m"
    using rest s3(4) by (simp add: same_rest_def s4_def)
  ultimately show ?thesis
    using \<open>scheduler_enqueue ipi me now t wake s = Some s'\<close> s5(2,3) hints m(2)
    by (auto simp: hints_only_def only_woken_def)
qed

subsection \<open>Picking, dispatching and leaving\<close>

lemma scheduler_next_empty:
  assumes "queue_inv s []" "current (cpus s ! i) = None" "selected (cpus s ! i) = None"
  shows "\<exists>s'. scheduler_next i now s = Some (None, s') \<and> hints_only s s'"
proof -
  have "rb_first (timeline s) = Some None" "rq_count s = 0" "total_weight s = 0"
    using assms(1) rb.first_Nil by (auto simp: queue_inv_def unat_eq_0)
  moreover have "hints_only s (upd_cpu i (\<lambda>c. c\<lparr>idle := True\<rparr>) (upd_cpu i (\<lambda>c. c\<lparr>idle := False\<rparr>) s))"
    by (rule hints_only_trans; rule hints_only_cpu; simp)
  ultimately show ?thesis
    using assms(2,3) by (simp add: scheduler_next_def Let_def)
qed

lemma scheduler_next_pick:
  assumes q: "queue_inv s (t # xs)" and w: "weights_ok s" and i: "i < length (cpus s)"
    and free: "current (cpus s ! i) = None" "selected (cpus s ! i) = None"
  shows "\<exists>s'. scheduler_next i now s = Some (Some t, s') \<and> queue_inv s' xs \<and> weights_ok s' \<and>
    view s' = view_pick i t (view s) \<and> min_vruntime s \<le> min_vruntime s'"
proof -
  define s1 where "s1 = upd_cpu i (\<lambda>c. c\<lparr>idle := False\<rparr>) s"
  have q1: "queue_inv s1 (t # xs)" "weights_ok s1"
    using q w by (simp_all add: s1_def)
  have first: "rb_first (timeline s1) = Some (Some t)"
    using q1 rb.pop by (auto simp: queue_inv_def)
  obtain s2 where s2: "dequeue_entity_locked t s1 = Some s2" "queue_inv s2 xs"
    and th: "threads s2 = threads (upd_entity t (\<lambda>e. e\<lparr>on_runqueue := False\<rparr>) s1)"
    and rest: "same_rest s1 s2"
    using dequeue_entity_spec [OF q1 list.set_intros(1)] unfolding remove1.simps if_P [OF refl]
    by blast
  obtain m where m: "update_min_vruntime_locked (Some t) now s2 = Some (s2\<lparr>min_vruntime := m\<rparr>)"
    "min_vruntime s2 \<le> m"
    using update_min_spec [of s2 xs] s2(2) unfolding queue_inv_def by blast
  define s3 where "s3 = s2\<lparr>min_vruntime := m\<rparr>"
  define s4 where "s4 = upd_entity t (\<lambda>e. e\<lparr>slice_ns := calculate_slice_locked t s3\<rparr>) s3"
  define s5 where "s5 = upd_cpu i (\<lambda>c. c\<lparr>selected := Some t\<rparr>) s4"
  have "scheduler_next i now s = Some (Some t, s5)"
    using free first s2(1) m(1)
    by (simp add: scheduler_next_def Let_def s1_def [symmetric] s3_def [symmetric] s4_def [symmetric]
        s5_def [symmetric])
  moreover have "queue_inv s5 xs"
  proof -
    have "\<not> on_runqueue (entity s3 t)"
      by (simp add: s3_def th)
    then show ?thesis
      using s2(2) by (simp add: s5_def s4_def s3_def queue_inv_upd_entity)
  qed
  moreover have "weights_ok s5"
    using q1(2) by (simp add: s5_def s4_def s3_def weights_ok_def th)
  moreover have "view s5 = view_pick i t (view s)"
    using rest i
    by (intro view_eqI) (auto simp: s5_def s4_def s3_def th s1_def same_rest_def view_pick_def on_cpus_upd
        on_cpus_def fun_eq_iff)
  moreover have "min_vruntime s \<le> min_vruntime s5"
    using m(2) rest by (simp add: s5_def s4_def s3_def same_rest_def s1_def)
  ultimately show ?thesis
    by blast
qed

lemma scheduler_dispatch_spec:
  assumes "queue_inv s xs" "weights_ok s" "i < length (cpus s)" "state (threads s t) = THREAD_RUNNABLE"
    "\<not> on_runqueue (entity s t)" "home (threads s t) \<or> kernel_thread (threads s t)"
    "selected (cpus s ! i) = Some t" "current (cpus s ! i) = None"
  shows "\<exists>s'. scheduler_dispatch i now t s = Some s' \<and> queue_inv s' xs \<and> weights_ok s' \<and>
    view s' = view_dispatch i t (view s)"
proof -
  define s3 where "s3 = upd_cpu i (\<lambda>c. c\<lparr>selected := None, need_resched := False, current := Some t\<rparr>)
    (upd_entity t (\<lambda>e. e\<lparr>exec_start := now, mode_start := now, user_mode := False\<rparr>)
      (upd_thread t (\<lambda>th. th\<lparr>state := THREAD_RUNNING\<rparr>) s))"
  define s' where "s' = s3\<lparr>context_switches := context_switches s3 + 1\<rparr>"
  have "scheduler_dispatch i now t s = Some s'"
    using assms by (auto simp: scheduler_dispatch_def Let_def s'_def s3_def)
  moreover have "queue_inv s3 xs" "weights_ok s3"
    using assms by (simp_all add: s3_def queue_inv_upd_entity queue_inv_upd_thread weights_ok_upd)
  then have "queue_inv s' xs" "weights_ok s'"
    by (simp_all add: s'_def)
  moreover have "view s' = view_dispatch i t (view s)"
    using assms by (intro view_eqI) (auto simp: s'_def s3_def view_dispatch_def on_cpus_upd)
  ultimately show ?thesis
    by blast
qed

lemma scheduler_switched_spec:
  assumes "queue_inv s xs" "weights_ok s" "i < length (cpus s)" "current (cpus s ! i) = Some t"
    "selected (cpus s ! i) = None"
  shows "\<exists>r s'. scheduler_switched i t s = Some (r, s') \<and> queue_inv s' xs \<and> weights_ok s' \<and>
    view s' = view_switched i (view s)"
proof -
  define s' where "s' = upd_cpu i (\<lambda>c. c\<lparr>current := None\<rparr>) s"
  have "\<exists>r. scheduler_switched i t s = Some (r, s')"
    using assms by (simp add: scheduler_switched_def Let_def s'_def)
  moreover have "view s' = view_switched i (view s)"
    using assms
    by (intro view_eqI) (auto simp: s'_def view_switched_def on_cpus_upd on_cpus_def fun_eq_iff)
  ultimately show ?thesis
    using assms by (auto simp: s'_def)
qed

lemma leave_running_spec:
  assumes q: "queue_inv s xs" and w: "weights_ok s" and t: "current (cpus s ! i) = Some t"
    "state (threads s t) = THREAD_RUNNING" "\<not> on_runqueue (entity s t)"
  shows "\<exists>s'. leave_running i now st s = Some s' \<and> queue_inv s' xs \<and> weights_ok s' \<and>
    view s' = view_leave t st (view s) \<and> waiters s' = waiters s \<and> timeout_queue s' = timeout_queue s \<and>
    (\<exists>e. threads s' = (threads s)(t := (threads s t)\<lparr>state := st, sched := e\<rparr>)) \<and> cpus s' = cpus s"
proof -
  define s1 where "s1 = upd_entity t (account_runtime now) s"
  have s1: "queue_inv s1 xs" "weights_ok s1" "view s1 = view s"
    using q w t by (simp_all add: s1_def queue_inv_upd_entity weights_ok_upd view_upd_entity)
  obtain m where m: "update_min_vruntime_locked (Some t) (exec_start (entity s1 t)) s1 =
      Some (s1\<lparr>min_vruntime := m\<rparr>)"
    using update_min_spec [of s1 xs] s1(1) unfolding queue_inv_def by blast
  define s' where "s' = upd_thread t (\<lambda>th. th\<lparr>state := st\<rparr>) (s1\<lparr>min_vruntime := m\<rparr>)"
  have "leave_running i now st s = Some s'"
    using t m by (simp add: leave_running_def Let_def cur_thread_def s1_def [symmetric] s'_def)
  moreover have "queue_inv s' xs" "weights_ok s'" "view s' = view_leave t st (view s)"
    using s1 by (simp_all add: s'_def queue_inv_upd_thread weights_ok_upd view_upd_status)
  moreover have "threads s' = (threads s)(t := (threads s t)\<lparr>state := st,
      sched := account_runtime now (entity s t)\<rparr>)"
    by (rule ext) (simp add: s'_def s1_def)
  ultimately show ?thesis
    by (auto simp: s'_def s1_def)
qed

subsection \<open>Nice values and the timer tick\<close>

lemma set_nice_spec:
  assumes ok: "queue_ok s" and t: "t < NTHREAD" "state (threads s t) = THREAD_RUNNING \<longrightarrow> \<not> on_runqueue (entity s t)"
    and ipi: "\<And>h. ipi h = 0"
  shows "\<exists>r s'. scheduler_set_nice ipi me now t value s = Some (r, s') \<and> queue_ok s' \<and> view s' = view s"
proof (cases "value < -20 \<or> value > 19")
  case True
  then show ?thesis
    using ok by (simp add: scheduler_set_nice_def)
next
  case False
  obtain xs where q: "queue_inv s xs" and w: "weights_ok s"
    using ok by (auto simp: queue_ok_def)
  define run where "run = (state (threads s t) = THREAD_RUNNING)"
  define s1 where "s1 = (if run then upd_entity t (account_runtime now) s else s)"
  have s1: "queue_inv s1 xs" "weights_ok s1" "view s1 = view s"
    using q w t by (auto simp: s1_def run_def queue_inv_upd_entity weights_ok_upd view_upd_entity)
  define on where "on = on_runqueue (entity s1 t)"
  define f where "f = (\<lambda>e :: sched_entity. e\<lparr>nice := value, weight := nice_weights ! nat (value + 20)\<rparr>)"
  have "length nice_weights = 40"
    by (simp add: nice_weights_def)
  then have f: "weight (f e) \<in> set nice_weights" "on_runqueue (f e) = on_runqueue e" for e
    using False by (auto simp: f_def intro!: nth_mem)
  obtain s2 ys where s2: "(if on then dequeue_entity_locked t s1 else Some s1) = Some s2"
    "queue_inv s2 ys" "cpus s2 = cpus s1" "\<not> on_runqueue (entity s2 t)"
    and th2: "threads s2 = (if on then threads (upd_entity t (\<lambda>e. e\<lparr>on_runqueue := False\<rparr>) s1) else threads s1)"
  proof (cases on)
    case True
    then have "t \<in> set xs"
      using s1(1) by (simp add: on_def queue_inv_def)
    then obtain s2 where "dequeue_entity_locked t s1 = Some s2" "queue_inv s2 (remove1 t xs)"
      "threads s2 = threads (upd_entity t (\<lambda>e. e\<lparr>on_runqueue := False\<rparr>) s1)" "same_rest s1 s2"
      using dequeue_entity_spec [OF s1(1,2)] by blast
    then show ?thesis
      using True by (intro that [of s2 "remove1 t xs"]) (simp_all add: same_rest_def)
  next
    case False
    then show ?thesis
      using s1 by (intro that [of s1 xs]) (simp_all add: on_def)
  qed
  define s3 where "s3 = upd_entity t f s2"
  have s3: "queue_inv s3 ys" "weights_ok s3" "\<not> on_runqueue (entity s3 t)"
    using s2 s1(2) f by (auto simp: s3_def queue_inv_upd_entity weights_ok_def th2)
  obtain s4 zs where s4: "(if on then enqueue_entity_locked t s3 else Some s3) = Some s4"
    "queue_inv s4 zs" "cpus s4 = cpus s3"
    and th4: "threads s4 = (if on then threads (upd_entity t (\<lambda>e. e\<lparr>on_runqueue := True\<rparr>) s3) else threads s3)"
  proof (cases on)
    case True
    obtain s4 as bs where "enqueue_entity_locked t s3 = Some s4" "queue_inv s4 (as @ t # bs)"
      "threads s4 = threads (upd_entity t (\<lambda>e. e\<lparr>on_runqueue := True\<rparr>) s3)" "same_rest s3 s4"
      using enqueue_entity_spec [OF s3(1,2) t(1) s3(3)] by blast
    then show ?thesis
      using True by (intro that [of s4 "as @ t # bs"]) (simp_all add: same_rest_def)
  next
    case False
    then show ?thesis
      using s3 by (intro that [of s3 ys]) simp_all
  qed
  have "weights_ok s4"
    using s3(2) by (auto simp: weights_ok_def th4)
  have "view s4 = view s1"
    using s2(3,4) s4(3) f(2)
    by (intro view_eqI) (auto simp: th4 th2 s3_def on_def)
  define target where "target = (if run then find_current t (cpus s4) 0 else -1)"
  have "scheduler_set_nice ipi me now t value s = Some (0, request_resched_on target s4)"
    unfolding scheduler_set_nice_def Let_def if_not_P [OF False] run_def [symmetric]
      s1_def [symmetric] on_def [symmetric] f_def [symmetric] s2(1) Option.bind.bind_lunit
      s3_def [symmetric] s4(1) target_def [symmetric] wake_cpu_returns [OF ipi] by (rule refl)
  then show ?thesis
    using request_resched_hints [of s4 target] \<open>weights_ok s4\<close> \<open>view s4 = view s1\<close> s4(2) s1(3)
    by (auto simp: hints_only_def queue_ok_def)
qed

lemma scheduler_tick_spec:
  assumes "queue_ok s"
  shows "\<exists>s'. scheduler_tick i now s = Some s' \<and> hints_only s s'"
proof -
  obtain xs where "rb_holds (timeline s) xs"
    using assms by (auto simp: queue_ok_def queue_inv_def)
  then obtain node where "rb_first (timeline s) = Some node"
    using rb.first_returns by blast
  then show ?thesis
    by (auto simp: scheduler_tick_def Let_def hints_only_refl intro: hints_only_cpu split: option.split)
qed

end
