(* ===== verification/Sched_Machine.thy ===== *)
theory Sched_Machine
  imports Sched_Steps
begin

text \<open>
  The scheduler running on several CPUs: the events at the granularity of the locks of
  \<^verbatim>\<open>kernel/scheduler.c\<close>, what the callers and the thread locks guarantee when an event happens,
  the states reachable from a boot state, and their invariant.
\<close>

subsection \<open>Events\<close>

text \<open>The first number of an event is the executing CPU; the \<^typ>\<open>u64\<close> is the clock it reads.\<close>

datatype sched_event =
    Pick nat u64
  | Dispatch nat u64
  | Switched nat
  | Yield nat u64
  | Block nat u64
  | Exit nat u64
  | Wake nat u64 nat
  | Set_nice nat u64 nat int
  | Tick nat u64

fun exec_event :: "(u64 \<Rightarrow> int) \<Rightarrow> sched_event \<Rightarrow> kernel \<Rightarrow> kernel option" where
  "exec_event ipi (Pick i now) s = map_option snd (scheduler_next i now s)"
| "exec_event ipi (Dispatch i now) s =
     Option.bind (selected (cpus s ! i)) (\<lambda>t. scheduler_dispatch i now t s)"
| "exec_event ipi (Switched i) s =
     Option.bind (current (cpus s ! i)) (\<lambda>t. map_option snd (scheduler_switched i t s))"
| "exec_event ipi (Yield i now) s = yield ipi i now s"
| "exec_event ipi (Block i now) s = Option.bind (scheduler_block_current i now s) (sched_check i)"
| "exec_event ipi (Exit i now) s = scheduler_exit i now s"
| "exec_event ipi (Wake i now t) s = scheduler_make_runnable ipi i now t s"
| "exec_event ipi (Set_nice i now t v) s = map_option snd (scheduler_set_nice ipi i now t v s)"
| "exec_event ipi (Tick i now) s = scheduler_tick i now s"

text \<open>When an event can happen. The scheduler loop of a CPU runs while the CPU has no current thread
  and takes the lock of the picked thread, which a CPU that is still switching away from this
  thread holds; a thread gives up its CPU only while it runs; a thread is made runnable under its
  lock, by the code that allocated it or found it asleep.\<close>

fun enabled :: "sched_event \<Rightarrow> kernel \<Rightarrow> bool" where
  "enabled (Pick i now) s \<longleftrightarrow>
     i < length (cpus s) \<and> current (cpus s ! i) = None \<and> selected (cpus s ! i) = None"
| "enabled (Dispatch i now) s \<longleftrightarrow>
     i < length (cpus s) \<and> current (cpus s ! i) = None \<and>
     (\<exists>t. selected (cpus s ! i) = Some t \<and> Some t \<notin> current ` set (cpus s))"
| "enabled (Switched i) s \<longleftrightarrow>
     i < length (cpus s) \<and> (\<exists>t. current (cpus s ! i) = Some t \<and> state (threads s t) \<noteq> THREAD_RUNNING)"
| "enabled (Yield i now) s \<longleftrightarrow>
     i < length (cpus s) \<and> (\<exists>t. current (cpus s ! i) = Some t \<and> state (threads s t) = THREAD_RUNNING)"
| "enabled (Block i now) s \<longleftrightarrow>
     i < length (cpus s) \<and> (\<exists>t. current (cpus s ! i) = Some t \<and> state (threads s t) = THREAD_RUNNING)"
| "enabled (Exit i now) s \<longleftrightarrow>
     i < length (cpus s) \<and> (\<exists>t. current (cpus s ! i) = Some t \<and> state (threads s t) = THREAD_RUNNING)"
| "enabled (Wake i now t) s \<longleftrightarrow>
     i < length (cpus s) \<and> t < NTHREAD \<and> Some t \<notin> current ` set (cpus s) \<and>
     (state (threads s t) = THREAD_SLEEPING \<or>
      state (threads s t) = THREAD_ALLOCATED \<and> (home (threads s t) \<or> kernel_thread (threads s t)))"
| "enabled (Set_nice i now t v) s \<longleftrightarrow> i < length (cpus s) \<and> t < NTHREAD"
| "enabled (Tick i now) s \<longleftrightarrow> i < length (cpus s)"

text \<open>Boot: an empty run queue, no thread running or picked, every thread unused or allocated.\<close>

definition boot_state :: "kernel \<Rightarrow> bool" where
  "boot_state s \<longleftrightarrow>
     weights_ok s \<and> (\<forall>c \<in> set (cpus s). current c = None \<and> selected c = None) \<and>
     (\<forall>t. \<not> on_runqueue (entity s t) \<and>
       (state (threads s t) = THREAD_UNUSED \<or> state (threads s t) = THREAD_ALLOCATED))"

inductive reachable :: "(u64 \<Rightarrow> int) \<Rightarrow> kernel \<Rightarrow> bool" for ipi where
  boot: "boot_state s \<Longrightarrow> reachable ipi (scheduler_init s)"
| step: "reachable ipi s \<Longrightarrow> enabled e s \<Longrightarrow> exec_event ipi e s = Some s' \<Longrightarrow> reachable ipi s'"

subsection \<open>The invariant of the view\<close>

definition view_ok :: "sched_view \<Rightarrow> bool" where
  "view_ok v \<longleftrightarrow>
     (\<forall>i t. running v i = Some t \<longrightarrow>
        t < NTHREAD \<and> picked v i = None \<and> status v t \<notin> {THREAD_UNUSED, THREAD_ALLOCATED}) \<and>
     (\<forall>i j t. running v i = Some t \<longrightarrow> running v j = Some t \<longrightarrow> i = j) \<and>
     (\<forall>i j t. picked v i = Some t \<longrightarrow> picked v j = Some t \<longrightarrow> i = j) \<and>
     (\<forall>i t. picked v i = Some t \<longrightarrow> t < NTHREAD \<and> status v t = THREAD_RUNNABLE \<and> t \<notin> queued v) \<and>
     (\<forall>t \<in> queued v. t < NTHREAD \<and> status v t = THREAD_RUNNABLE) \<and>
     (\<forall>t. status v t = THREAD_RUNNABLE \<longrightarrow> t \<in> queued v \<or> (\<exists>i. picked v i = Some t)) \<and>
     (\<forall>t. status v t = THREAD_RUNNING \<longrightarrow> (\<exists>i. running v i = Some t)) \<and>
     (\<forall>t. status v t \<in> {THREAD_RUNNABLE, THREAD_RUNNING, THREAD_SLEEPING} \<longrightarrow> t \<in> owned v)"

lemma view_ok_pick:
  assumes ok: "view_ok v" and i: "running v i = None" "picked v i = None" and t: "t \<in> queued v"
  shows "view_ok (view_pick i t v)"
  using assms unfolding view_ok_def view_pick_def by (intro conjI; simp; metis option.distinct(1) option.inject thread_state.distinct)

lemma view_ok_dispatch:
  assumes ok: "view_ok v" and i: "running v i = None" "picked v i = Some t"
    and t: "\<forall>j. running v j \<noteq> Some t"
  shows "view_ok (view_dispatch i t v)"
  using assms unfolding view_ok_def view_dispatch_def by (intro conjI; simp; metis option.distinct(1) option.inject thread_state.distinct)

lemma view_ok_enqueue:
  assumes ok: "view_ok v" and t: "t < NTHREAD" "t \<notin> queued v" "t \<in> owned v"
    "status v t \<noteq> THREAD_RUNNABLE"
    "status v t = THREAD_RUNNING \<longrightarrow> (\<exists>i. running v i = Some t)"
  shows "view_ok (view_enqueue t v)"
  using assms unfolding view_ok_def view_enqueue_def by (intro conjI; simp; metis option.distinct(1) option.inject thread_state.distinct)

lemma view_ok_leave:
  assumes ok: "view_ok v" and t: "status v t = THREAD_RUNNING" "st \<in> {THREAD_SLEEPING, THREAD_EXITED}"
  shows "view_ok (view_leave t st v)"
  using assms unfolding view_ok_def view_leave_def by (intro conjI; simp; metis option.distinct(1) option.inject thread_state.distinct)

lemma view_ok_switched:
  assumes ok: "view_ok v" and t: "running v i = Some t" "status v t \<noteq> THREAD_RUNNING"
  shows "view_ok (view_switched i v)"
  using assms unfolding view_ok_def view_switched_def by (intro conjI; simp; metis option.distinct(1) option.inject thread_state.distinct)

subsection \<open>Every event keeps the invariant\<close>

definition sched_ok :: "kernel \<Rightarrow> bool" where
  "sched_ok s \<longleftrightarrow> queue_ok s \<and> view_ok (view s)"

lemma hints_only_ok: "hints_only s s' \<Longrightarrow> sched_ok s \<Longrightarrow> sched_ok s'"
  unfolding hints_only_def sched_ok_def queue_ok_def by metis

lemma not_running_iff:
  "Some t \<notin> current ` set (cpus s) \<longleftrightarrow> (\<forall>j. running (view s) j \<noteq> Some t)"
  by (auto simp: on_cpus_def in_set_conv_nth) (metis nth_mem image_eqI)

lemma on_cpus_nth: "i < length cs \<Longrightarrow> on_cpus f cs i = f (cs ! i)"
  by (simp add: on_cpus_def)

lemma view_ok_running:
  assumes "view_ok (view s)" "i < length (cpus s)" "current (cpus s ! i) = Some t"
  shows "t < NTHREAD" "selected (cpus s ! i) = None"
    "state (threads s t) = THREAD_RUNNING \<Longrightarrow> \<not> on_runqueue (entity s t)"
    "state (threads s t) = THREAD_RUNNING \<Longrightarrow> home (threads s t) \<or> kernel_thread (threads s t)"
proof -
  have "running (view s) i = Some t" "picked (view s) i = selected (cpus s ! i)"
    using assms by (simp_all add: on_cpus_nth)
  then show "t < NTHREAD" "selected (cpus s ! i) = None"
    using assms(1) unfolding view_ok_def by metis+
  show "\<not> on_runqueue (entity s t)" "home (threads s t) \<or> kernel_thread (threads s t)"
    if "state (threads s t) = THREAD_RUNNING"
    using assms(1) that unfolding view_ok_def
    by (metis thread_state.distinct view_sel(3,4), metis insertCI view_sel(3,5))
qed

lemma pick_ok:
  assumes ok: "sched_ok s" and en: "enabled (Pick i now) s"
  shows "\<exists>r s'. scheduler_next i now s = Some (r, s') \<and> sched_ok s'"
proof -
  obtain xs where q: "queue_inv s xs" and w: "weights_ok s" and v: "view_ok (view s)"
    using ok by (auto simp: sched_ok_def queue_ok_def)
  show ?thesis
  proof (cases xs)
    case Nil
    then obtain s' where "scheduler_next i now s = Some (None, s')" "hints_only s s'"
      using scheduler_next_empty [of s i now] q en by auto
    then show ?thesis
      using q w v by (auto simp: sched_ok_def queue_ok_def hints_only_def)
  next
    case (Cons t ys)
    then obtain s' where s': "scheduler_next i now s = Some (Some t, s')" "queue_inv s' ys" "weights_ok s'"
      "view s' = view_pick i t (view s)"
      using scheduler_next_pick [of s t ys i now] q w en by auto
    have "view_ok (view_pick i t (view s))"
      using v en q Cons by (intro view_ok_pick) (auto simp: on_cpus_nth queue_inv_def)
    then show ?thesis
      using s' by (auto simp: sched_ok_def queue_ok_def)
  qed
qed

lemma dispatch_ok:
  assumes ok: "sched_ok s" and en: "enabled (Dispatch i now) s"
  shows "\<exists>s'. exec_event ipi (Dispatch i now) s = Some s' \<and> sched_ok s'"
proof -
  obtain xs where q: "queue_inv s xs" and w: "weights_ok s" and v: "view_ok (view s)"
    using ok by (auto simp: sched_ok_def queue_ok_def)
  obtain t where i: "i < length (cpus s)" "current (cpus s ! i) = None" "selected (cpus s ! i) = Some t"
    and free: "\<forall>j. running (view s) j \<noteq> Some t"
    using en by (auto simp: not_running_iff)
  have p: "picked (view s) i = Some t" "running (view s) i = None"
    using i by (simp_all add: on_cpus_nth)
  then have "status (view s) t = THREAD_RUNNABLE" "t \<notin> queued (view s)" "t \<in> owned (view s)"
    using v unfolding view_ok_def by (metis, metis, metis insertCI)
  then obtain s' where "scheduler_dispatch i now t s = Some s'" "queue_inv s' xs" "weights_ok s'"
    "view s' = view_dispatch i t (view s)"
    using scheduler_dispatch_spec [OF q w i(1) _ _ _ i(3,2)] by auto
  moreover have "view_ok (view_dispatch i t (view s))"
    using v p free by (intro view_ok_dispatch)
  ultimately show ?thesis
    using i by (auto simp: sched_ok_def queue_ok_def)
qed

lemma switched_ok:
  assumes ok: "sched_ok s" and en: "enabled (Switched i) s"
  shows "\<exists>s'. exec_event ipi (Switched i) s = Some s' \<and> sched_ok s'"
proof -
  obtain xs where q: "queue_inv s xs" and w: "weights_ok s" and v: "view_ok (view s)"
    using ok by (auto simp: sched_ok_def queue_ok_def)
  obtain t where i: "i < length (cpus s)" "current (cpus s ! i) = Some t"
    and st: "state (threads s t) \<noteq> THREAD_RUNNING"
    using en by auto
  obtain r s' where "scheduler_switched i t s = Some (r, s')" "queue_inv s' xs" "weights_ok s'"
    "view s' = view_switched i (view s)"
    using scheduler_switched_spec [OF q w i view_ok_running(2) [OF v i]] by blast
  moreover have "view_ok (view_switched i (view s))"
    using v i st by (intro view_ok_switched [of _ _ t]) (simp_all add: on_cpus_nth)
  ultimately show ?thesis
    using i by (auto simp: sched_ok_def queue_ok_def)
qed

lemma leave_ok:
  assumes ok: "sched_ok s" and i: "i < length (cpus s)" "current (cpus s ! i) = Some t"
    "state (threads s t) = THREAD_RUNNING" and st: "st \<in> {THREAD_SLEEPING, THREAD_EXITED}"
  shows "\<exists>s'. Option.bind (leave_running i now st s) (sched_check i) = Some s' \<and> sched_ok s'"
proof -
  obtain xs where q: "queue_inv s xs" and w: "weights_ok s" and v: "view_ok (view s)"
    using ok by (auto simp: sched_ok_def queue_ok_def)
  obtain s' where s': "leave_running i now st s = Some s'" "queue_inv s' xs" "weights_ok s'"
    "view s' = view_leave t st (view s)" "cpus s' = cpus s"
    using leave_running_spec [OF q w i(2,3) view_ok_running(3) [OF v i]] by blast
  have "status (view s') t = st"
    by (simp add: s'(4) view_leave_def del: view_sel)
  then have "sched_check i s' = Some s'"
    using i s'(5) st by (auto simp: sched_check_def)
  moreover have "view_ok (view_leave t st (view s))"
    using v i st by (intro view_ok_leave) simp_all
  ultimately show ?thesis
    using s' by (auto simp: sched_ok_def queue_ok_def)
qed

lemma enqueue_ok:
  assumes ok: "sched_ok s" and t: "t < NTHREAD" "\<not> on_runqueue (entity s t)"
    "state (threads s t) \<in> wakeable" "home (threads s t) \<or> kernel_thread (threads s t)"
    and ipi: "\<And>h. ipi h = 0"
  shows "\<exists>s'. scheduler_enqueue ipi i now t wake s = Some s' \<and> sched_ok s' \<and>
    view s' = view_enqueue t (view s) \<and> only_woken t s s'"
proof -
  obtain xs where q: "queue_inv s xs" and w: "weights_ok s" and v: "view_ok (view s)"
    using ok by (auto simp: sched_ok_def queue_ok_def)
  obtain s' as bs where "scheduler_enqueue ipi i now t wake s = Some s'" "queue_inv s' (as @ t # bs)"
    "weights_ok s'" "view s' = view_enqueue t (view s)" "only_woken t s s'"
    using scheduler_enqueue_spec [of s xs t ipi] q w t ipi by blast
  moreover have "status (view s) t = THREAD_RUNNING \<longrightarrow> (\<exists>i. running (view s) i = Some t)"
    using v unfolding view_ok_def by metis
  then have "view_ok (view_enqueue t (view s))"
    using v t by (intro view_ok_enqueue) (auto simp: wakeable_def)
  ultimately show ?thesis
    by (auto simp: sched_ok_def queue_ok_def)
qed

lemma yield_ok:
  assumes ok: "sched_ok s" and i: "i < length (cpus s)" "current (cpus s ! i) = Some t"
    "state (threads s t) = THREAD_RUNNING" and ipi: "\<And>h. ipi h = 0"
  shows "\<exists>s'. yield ipi i now s = Some s' \<and> sched_ok s'"
proof -
  have v: "view_ok (view s)"
    using ok by (simp add: sched_ok_def)
  obtain s' where s': "scheduler_enqueue ipi i now t False s = Some s'" "sched_ok s'"
    "view s' = view_enqueue t (view s)"
    using enqueue_ok [of s t ipi i now False] ok i(3) view_ok_running [OF v i(1,2)] ipi
    by (auto simp: wakeable_def)
  have "running (view s') i = Some t" "status (view s') t = THREAD_RUNNABLE" "view_ok (view s')"
    using i s'(2)
    by (simp_all add: s'(3) view_enqueue_def on_cpus_nth sched_ok_def del: view_sel(3))
  then have "sched_check i s' = Some s'"
    by (auto simp: sched_check_def on_cpus_def split: if_splits)
  then show ?thesis
    using s' i by (simp add: yield_def cur_thread_def)
qed

lemma event_ok:
  assumes ok: "sched_ok s" and en: "enabled e s" and ipi: "\<And>h. ipi h = 0"
  shows "\<exists>s'. exec_event ipi e s = Some s' \<and> sched_ok s'"
proof (cases e)
  case (Pick i now)
  then show ?thesis
    using pick_ok [OF ok] en by fastforce
next
  case (Dispatch i now)
  then show ?thesis
    using dispatch_ok [OF ok] en by blast
next
  case (Switched i)
  then show ?thesis
    using switched_ok [OF ok] en by blast
next
  case (Yield i now)
  then show ?thesis
    using yield_ok [OF ok] en ipi by auto
next
  case (Block i now)
  then show ?thesis
    using leave_ok [OF ok] en by (auto simp: scheduler_block_current_def)
next
  case (Exit i now)
  then show ?thesis
    using leave_ok [OF ok] en by (auto simp: scheduler_exit_def scheduler_exit_locked_def cur_thread_def)
next
  case (Wake i now t)
  have "status (view s) t \<noteq> THREAD_RUNNABLE \<Longrightarrow> t \<notin> queued (view s)"
    "status (view s) t = THREAD_SLEEPING \<Longrightarrow> t \<in> owned (view s)"
    using ok unfolding sched_ok_def view_ok_def by (metis, metis insertCI)
  then have "\<not> on_runqueue (entity s t)" "state (threads s t) \<in> wakeable"
    "home (threads s t) \<or> kernel_thread (threads s t)"
    using en Wake by (auto simp: wakeable_def)
  then show ?thesis
    using enqueue_ok [of s t ipi i now True] ok en ipi Wake
    by (auto simp: scheduler_make_runnable_def)
next
  case (Set_nice i now t v)
  have "status (view s) t = THREAD_RUNNING \<longrightarrow> t \<notin> queued (view s)"
    using ok unfolding sched_ok_def view_ok_def by (metis thread_state.distinct)
  then show ?thesis
    using set_nice_spec [of s t ipi i now v] ok en ipi Set_nice by (auto simp: sched_ok_def)
next
  case (Tick i now)
  then show ?thesis
    using scheduler_tick_spec [of s i now] ok hints_only_ok by (fastforce simp: sched_ok_def)
qed

lemma boot_ok:
  assumes "boot_state s"
  shows "sched_ok (scheduler_init s)"
proof -
  have "queue_inv (scheduler_init s) []" "weights_ok (scheduler_init s)"
    using assms by (simp_all add: queue_inv_def scheduler_init_def rb_holds_empty boot_state_def weights_ok_def)
  moreover have none: "on_cpus current (cpus s) i = None" "on_cpus selected (cpus s) i = None" for i
    using assms by (auto simp: on_cpus_def boot_state_def)
  have "view_ok (view (scheduler_init s))"
    using assms unfolding view_ok_def
    by (auto simp: scheduler_init_def none boot_state_def) (metis thread_state.distinct)+
  ultimately show ?thesis
    by (auto simp: sched_ok_def queue_ok_def)
qed

lemma reachable_ok: "reachable ipi s \<Longrightarrow> (\<And>h. ipi h = 0) \<Longrightarrow> sched_ok s"
proof (induction rule: reachable.induct)
  case (boot s)
  then show ?case
    using boot_ok by blast
next
  case (step s e s')
  then show ?case
    using event_ok [of s e ipi] by fastforce
qed

subsection \<open>Properties\<close>

text \<open>Two CPUs and one allocated kernel thread, for the examples.\<close>

definition demo_cpu :: cpu where
  "demo_cpu = \<lparr>current = None, selected = None, hart_id = 0, online = True, idle = False,
     need_resched = False, idle_since_ns = 0, idle_time_ns = 0\<rparr>"

definition demo_entity :: sched_entity where
  "demo_entity = \<lparr>vruntime = 0, exec_start = 0, sum_exec_runtime = 0, user_runtime = 0,
     system_runtime = 0, mode_start = 0, slice_ns = 0, weight = 1024, nice = 0, initialized = False,
     on_runqueue = False, user_mode = False\<rparr>"

definition demo_thread :: thread where
  "demo_thread = \<lparr>state = THREAD_ALLOCATED, tid = 1, home = False, kernel_thread = True,
     process_reaper = 0, sched = demo_entity, waiting_on = None, on_waitqueue = False,
     wait_deadline = 0, wait_result = 0, on_timeout_queue = False, wait_interruptible = 0,
     wait_private = 0, wait_bitset = NOT 0, signal_sequence = 0, fatal_signal_sequence = 0\<rparr>"

definition demo_kernel :: kernel where
  "demo_kernel = \<lparr>threads = \<lambda>t. demo_thread, cpus = [demo_cpu, demo_cpu], timeline = rb_demo,
     total_weight = 0, min_vruntime = 0, rq_count = 0, context_switches = 0,
     waiters = \<lambda>q. [], timeout_queue = []\<rparr>"

lemma demo_reachable: "reachable (\<lambda>h. 0) (scheduler_init demo_kernel)"
  by (rule reachable.boot)
    (simp add: boot_state_def weights_ok_def demo_kernel_def demo_thread_def demo_entity_def
      demo_cpu_def nice_weights_def)

text \<open>The example after a thread was woken, and after a CPU has picked it.\<close>

declare enqueue_descend.simps [code] insert_color_loop.simps [code] rb_subtree_first.simps [code]
  erase_fixup_loop.simps [code] next_up.simps [code]

definition demo_woken :: kernel where
  "demo_woken = the (exec_event (\<lambda>h. 0) (Wake 0 5 3) (scheduler_init demo_kernel))"

definition demo_picked :: kernel where
  "demo_picked = the (exec_event (\<lambda>h. 0) (Pick 0 9) demo_woken)"

lemma demo_woken_reachable: "reachable (\<lambda>h. 0) demo_woken" "enabled (Pick 0 9) demo_woken"
proof -
  have "exec_event (\<lambda>h. 0) (Wake 0 5 3) (scheduler_init demo_kernel) \<noteq> None" by code_simp
  then have "exec_event (\<lambda>h. 0) (Wake 0 5 3) (scheduler_init demo_kernel) = Some demo_woken" by (simp add: demo_woken_def)
  moreover have "enabled (Wake 0 5 3) (scheduler_init demo_kernel)"
    by (simp add: scheduler_init_def demo_kernel_def demo_thread_def demo_cpu_def NTHREAD_def)
  ultimately show "reachable (\<lambda>h. 0) demo_woken" using reachable.step [OF demo_reachable] by blast
  have "length (cpus demo_woken) = 2" "current (cpus demo_woken ! 0) = None" "selected (cpus demo_woken ! 0) = None"
    by code_simp+
  then show "enabled (Pick 0 9) demo_woken" by simp
qed

lemma demo_picked_reachable: "reachable (\<lambda>h. 0) demo_picked"
proof -
  have "exec_event (\<lambda>h. 0) (Pick 0 9) demo_woken \<noteq> None" by code_simp
  then have "exec_event (\<lambda>h. 0) (Pick 0 9) demo_woken = Some demo_picked" by (simp add: demo_picked_def)
  then show ?thesis using reachable.step [OF demo_woken_reachable] by blast
qed

text \<open>C1. The scheduler never panics over its threads and queues. In every state reachable from boot by any
  interleaving of the events of any number of CPUs, every event that the locks allow completes: no \<^verbatim>\<open>PANIC\<close>
  of \<^verbatim>\<open>kernel/scheduler.c\<close> about the state of a thread, a CPU or the run queue fires, and no red-black tree
  operation follows a null pointer or loops, provided the firmware accepts inter-processor interrupts. The
  panics that check the lock discipline itself (a lock held, interrupts off) are outside the model.\<close>

theorem sched_no_panic:
  assumes "reachable ipi s" "\<And>h. ipi h = 0" "enabled e s"
  shows "\<exists>s'. exec_event ipi e s = Some s' \<and> reachable ipi s'"
  using event_ok [OF reachable_ok [OF assms(1,2)] assms(3), of ipi] assms(2)
    reachable.step [OF assms(1,3)] by blast

theorem sched_no_panic_witness:
  "\<exists>s'. exec_event (\<lambda>h. 0) (Wake 0 5 3) (scheduler_init demo_kernel) = Some s' \<and> reachable (\<lambda>h. 0) s'"
  by (rule sched_no_panic [OF demo_reachable])
    (simp_all add: scheduler_init_def demo_kernel_def demo_thread_def demo_cpu_def NTHREAD_def)

text \<open>C2. Exclusive ownership. In every reachable state a thread is current on at most one CPU and
  picked by at most one CPU; a running thread is current somewhere and neither queued nor picked;
  a runnable thread is either in the run queue or picked by a CPU, never both and never lost.\<close>

theorem sched_exclusive:
  assumes "reachable ipi s" "\<And>h. ipi h = 0"
  shows "(\<forall>i < length (cpus s). \<forall>j < length (cpus s). \<forall>t.
      current (cpus s ! i) = Some t \<and> current (cpus s ! j) = Some t \<longrightarrow> i = j) \<and>
    (\<forall>i < length (cpus s). \<forall>j < length (cpus s). \<forall>t.
      selected (cpus s ! i) = Some t \<and> selected (cpus s ! j) = Some t \<longrightarrow> i = j) \<and>
    (\<forall>t. state (threads s t) = THREAD_RUNNING \<longrightarrow>
      (\<exists>i < length (cpus s). current (cpus s ! i) = Some t) \<and> \<not> on_runqueue (entity s t) \<and>
      (\<forall>i < length (cpus s). selected (cpus s ! i) \<noteq> Some t)) \<and>
    (\<forall>t. state (threads s t) = THREAD_RUNNABLE \<longrightarrow>
      on_runqueue (entity s t) \<longleftrightarrow> (\<forall>i < length (cpus s). selected (cpus s ! i) \<noteq> Some t))"
proof -
  have v: "view_ok (view s)"
    using reachable_ok [OF assms] by (simp add: sched_ok_def)
  have nth: "current (cpus s ! i) = running (view s) i" "selected (cpus s ! i) = picked (view s) i"
    if "i < length (cpus s)" for i
    using that by (simp_all add: on_cpus_nth)
  have out: "\<not> i < length (cpus s) \<Longrightarrow> running (view s) i = None \<and> picked (view s) i = None" for i
    by (simp add: on_cpus_def)
  show ?thesis
  proof (intro conjI allI impI)
    fix i j t
    assume "i < length (cpus s)" "j < length (cpus s)"
    then show "i = j" if "current (cpus s ! i) = Some t \<and> current (cpus s ! j) = Some t"
      using that v nth unfolding view_ok_def by metis
    from \<open>i < _\<close> \<open>j < _\<close> show "i = j" if "selected (cpus s ! i) = Some t \<and> selected (cpus s ! j) = Some t"
      using that v nth unfolding view_ok_def by metis
  next
    fix t
    assume st: "state (threads s t) = THREAD_RUNNING"
    then obtain i where "running (view s) i = Some t"
      using v unfolding view_ok_def by (metis view_sel(3))
    then show "\<exists>i < length (cpus s). current (cpus s ! i) = Some t"
      using nth out by (metis option.distinct(1))
    show "\<not> on_runqueue (entity s t)"
      using v st unfolding view_ok_def by (metis thread_state.distinct view_sel(3,4))
    show "selected (cpus s ! i) \<noteq> Some t" if "i < length (cpus s)" for i
      using v st nth that unfolding view_ok_def by (metis thread_state.distinct view_sel(3))
  next
    fix t
    assume st: "state (threads s t) = THREAD_RUNNABLE"
    have "t \<in> queued (view s) \<longleftrightarrow> (\<forall>i. picked (view s) i \<noteq> Some t)"
      using v st unfolding view_ok_def by (metis view_sel(3))
    also have "\<dots> \<longleftrightarrow> (\<forall>i < length (cpus s). selected (cpus s ! i) \<noteq> Some t)"
      using nth out by (metis option.distinct(1))
    finally show "on_runqueue (entity s t) \<longleftrightarrow> (\<forall>i < length (cpus s). selected (cpus s ! i) \<noteq> Some t)"
      by simp
  qed
qed

theorem sched_exclusive_witness:
  "selected (cpus demo_picked ! 0) = Some 3 \<and> selected (cpus demo_picked ! 1) \<noteq> Some 3 \<and>
   state (threads demo_picked 3) = THREAD_RUNNABLE \<and> \<not> on_runqueue (entity demo_picked 3)"
proof -
  have f: "length (cpus demo_picked) = 2" "selected (cpus demo_picked ! 0) = Some 3" "state (threads demo_picked 3) = THREAD_RUNNABLE"
    by code_simp+
  note ex = sched_exclusive [OF demo_picked_reachable]
  have "selected (cpus demo_picked ! 1) \<noteq> Some 3"
    using ex [THEN conjunct2, THEN conjunct1, rule_format, of 0 1 3] f by auto
  moreover have "\<not> on_runqueue (entity demo_picked 3)"
    using ex [THEN conjunct2, THEN conjunct2, THEN conjunct2, rule_format, of 3] f by force
  ultimately show ?thesis
    using f by blast
qed

text \<open>C3. The fair choice. When a CPU asks for the next thread, \<^verbatim>\<open>scheduler_next\<close> returns the queued
  thread that comes before every other one by virtual runtime, thread identifier and address, so
  none has a smaller virtual runtime; the thread leaves the queue and becomes the CPU's pick. It
  returns nothing only when no thread is queued.\<close>

theorem scheduler_next_fair:
  assumes "reachable ipi s" "\<And>h. ipi h = 0" "enabled (Pick i now) s"
  shows "\<exists>r s'. scheduler_next i now s = Some (r, s') \<and>
    (case r of
       None \<Rightarrow> \<forall>u. \<not> on_runqueue (entity s u)
     | Some t \<Rightarrow> on_runqueue (entity s t) \<and> \<not> on_runqueue (entity s' t) \<and>
         selected (cpus s' ! i) = Some t \<and>
         (\<forall>u. on_runqueue (entity s u) \<and> u \<noteq> t \<longrightarrow>
            entity_before s t u \<and> vruntime (entity s t) \<le> vruntime (entity s u)))"
proof -
  obtain xs where q: "queue_inv s xs" and w: "weights_ok s"
    using reachable_ok [OF assms(1,2)] by (auto simp: sched_ok_def queue_ok_def)
  show ?thesis
  proof (cases xs)
    case Nil
    then obtain s' where "scheduler_next i now s = Some (None, s')"
      using scheduler_next_empty [of s i now] q assms(3) by auto
    then show ?thesis
      using q Nil by (auto simp: queue_inv_def)
  next
    case (Cons t ys)
    then obtain s' where s': "scheduler_next i now s = Some (Some t, s')"
      "view s' = view_pick i t (view s)"
      using scheduler_next_pick [of s t ys i now] q w assms(3) by auto
    have "t \<notin> queued (view s')" "picked (view s') i = Some t"
      by (simp_all add: s'(2) view_pick_def del: view_sel)
    moreover have "entity_before s t u" if "on_runqueue (entity s u)" "u \<noteq> t" for u
      using that q Cons by (auto simp: queue_inv_def)
    ultimately show ?thesis
      using s'(1) q Cons before_vruntime [of s t]
      by (fastforce simp: queue_inv_def on_cpus_def split: if_splits)
  qed
qed

theorem scheduler_next_fair_witness:
  "\<exists>s'. scheduler_next 0 9 demo_woken = Some (Some 3, s') \<and> on_runqueue (entity demo_woken 3) \<and>
     \<not> on_runqueue (entity s' 3) \<and> selected (cpus s' ! 0) = Some 3"
proof -
  have "map_option fst (scheduler_next 0 9 demo_woken) = Some (Some 3)" by code_simp
  then obtain s' where "scheduler_next 0 9 demo_woken = Some (Some 3, s')" by auto
  then show ?thesis
    using scheduler_next_fair [OF demo_woken_reachable(1) _ demo_woken_reachable(2)] by auto
qed

end
