(* ===== verification/Sched_Account.thy ===== *)
theory Sched_Account
  imports Sched_Machine
begin

text \<open>
  The arithmetic of \<^verbatim>\<open>kernel/scheduler.c\<close>: virtual time is real time scaled by the weight, computed
  without a wider intermediate product, and additions saturate.
\<close>

lemma unat_mask64: "unat (NOT 0 :: u64) = 2 ^ 64 - 1"
  by (simp add: unsigned_minus_1_eq_mask mask_eq_exp_minus_1)

lemma add_saturate_unat: "unat (add_saturate a b) = min (unat a + unat b) (2 ^ 64 - 1)"
proof -
  have sub: "unat (NOT 0 - b) = 2 ^ 64 - 1 - unat b"
    using unsigned_less [where 'a = nat, of b]
    by (subst unat_sub) (simp_all add: unsigned_minus_1_eq_mask mask_eq_exp_minus_1 word_le_nat_alt)
  show ?thesis
  proof (cases "a > NOT 0 - b")
    case True
    then show ?thesis
      using sub unat_mask64 by (auto simp: add_saturate_def word_less_nat_alt min_def)
  next
    case False
    then have "unat a + unat b < 2 ^ 64"
      using sub unsigned_less [where 'a = nat, of b] by (simp add: word_less_nat_alt)
    then show ?thesis
      using False unat_add_no_overflow [of a b] by (simp add: add_saturate_def)
  qed
qed

lemma div_mod_scale: "(r div w * k + r mod w * k div w) = (r * k div w :: nat)" if "0 < w"
proof -
  have "r * k = (r div w * k) * w + r mod w * k"
    by (metis add_mult_distrib div_mult_mod_eq mult.commute mult.left_commute)
  then show ?thesis
    using that by simp
qed

text \<open>Scaling is exact as long as the scaled time fits.\<close>

lemma scale_runtime_unat:
  assumes "0 < unat w" "unat r * 1024 < 2 ^ 64"
  shows "unat (scale_runtime r w) = unat r * 1024 div unat w"
proof -
  have w: "unat (ucast w :: u64) = unat w"
    by simp
  have 1: "unat (r div ucast w * NICE_0_LOAD) = unat r div unat w * 1024"
  proof -
    have "unat r div unat w \<le> unat r"
      by simp
    then have "unat r div unat w * 1024 < 2 ^ 64"
      using assms(2) by linarith
    then show ?thesis
      using assms(2) unat_mult_no_overflow [of "r div ucast w" NICE_0_LOAD]
      by (simp add: NICE_0_LOAD_def unat_div_distrib)
  qed
  have 2: "unat (r mod ucast w * NICE_0_LOAD) = unat r mod unat w * 1024"
  proof -
    have "unat r mod unat w \<le> unat r"
      by simp
    then have "unat r mod unat w * 1024 < 2 ^ 64"
      using assms(2) by linarith
    then show ?thesis
      using assms(2) unat_mult_no_overflow [of "r mod ucast w" NICE_0_LOAD]
      by (simp add: NICE_0_LOAD_def unat_mod_distrib)
  qed
  have "unat r div unat w * 1024 + unat r mod unat w * 1024 div unat w = unat r * 1024 div unat w"
    using assms(1) by (rule div_mod_scale)
  moreover have "unat r * 1024 div unat w < 2 ^ 64"
    using assms(2) by (rule le_less_trans [OF div_le_dividend])
  ultimately show ?thesis
    using assms(2) 1 2
      unat_add_no_overflow [of "r div ucast w * NICE_0_LOAD" "r mod ucast w * NICE_0_LOAD div ucast w"]
    by (simp add: scale_runtime_def unat_div_distrib)
qed

text \<open>C4. Virtual runtime. Accounting a thread that has run since \<^verbatim>\<open>exec_start\<close> advances its virtual
  runtime by the elapsed time times 1024 over its weight, rounded down and saturated at the
  largest value, advances the total by the elapsed time, and restarts the measurement; the
  split multiplication of \<^verbatim>\<open>scale_runtime\<close> loses nothing while the product fits 64 bits.\<close>

theorem account_runtime_exact:
  assumes "weight e \<in> set nice_weights" "exec_start e \<noteq> 0" "exec_start e < now"
    and "unat (now - exec_start e) * 1024 < 2 ^ 64"
  shows "unat (vruntime (account_runtime now e)) =
      min (unat (vruntime e) + (unat now - unat (exec_start e)) * 1024 div unat (weight e)) (2 ^ 64 - 1) \<and>
    unat (sum_exec_runtime (account_runtime now e)) =
      min (unat (sum_exec_runtime e) + (unat now - unat (exec_start e))) (2 ^ 64 - 1) \<and>
    exec_start (account_runtime now e) = now"
proof -
  have "unat (now - exec_start e) = unat now - unat (exec_start e)"
    using assms(3) by (intro unat_sub) simp
  moreover have "0 < unat (weight e)"
    using nice_weight_bounds [OF assms(1)] by simp
  moreover have "sum_exec_runtime (account_mode now e) = sum_exec_runtime e"
    "weight (account_mode now e) = weight e" "vruntime (account_mode now e) = vruntime e"
    "exec_start (account_mode now e) = exec_start e"
    by (simp_all add: account_mode_def Let_def)
  ultimately show ?thesis
    using assms scale_runtime_unat [of "weight e" "now - exec_start e"]
    by (simp add: account_runtime_def Let_def add_saturate_unat not_le)
qed

theorem account_runtime_exact_witness:
  "unat (vruntime (account_runtime 4000 (demo_entity\<lparr>weight := 15, exec_start := 1000, vruntime := 7\<rparr>))) =
    7 + 3000 * 1024 div 15"
  using account_runtime_exact [of "demo_entity\<lparr>weight := 15, exec_start := 1000, vruntime := 7\<rparr>" 4000]
  by (simp add: nice_weights_def)

end
