(* ===== verification/Wait.thy ===== *)
theory Wait
  imports Sched_Machine Ktime
begin

text \<open>
  The wait queues of \<^verbatim>\<open>kernel/wait.c\<close>, on the state of \<^verbatim>\<open>Sched\<close>: threads sleep on a queue, with a
  deadline or until a signal, and are woken one by one, all at once, by mask, by identity, or when
  their deadline passes. Every operation runs under the timeout lock and the queue lock, so it is
  one step; making a thread runnable is the scheduler's operation. Threads and queues are named by
  their addresses. What other subsystems answer (whether the process is exiting, whether a signal is
  pending, the signal sequence read a second time) are arguments. A \<^verbatim>\<open>PANIC\<close> is \<^const>\<open>None\<close>.
\<close>

subsection \<open>Sleeping\<close>

definition WAIT_QUEUE_TIMEOUT :: int where
  "WAIT_QUEUE_TIMEOUT = -1"

definition WAIT_QUEUE_INTERRUPTED :: int where
  "WAIT_QUEUE_INTERRUPTED = -2"

definition WAIT_QUEUE_TERMINATED :: int where
  "WAIT_QUEUE_TERMINATED = -3"

definition WAIT_SIGNAL_NONE :: nat where
  "WAIT_SIGNAL_NONE = 0"

definition WAIT_SIGNAL_INTERRUPTIBLE :: nat where
  "WAIT_SIGNAL_INTERRUPTIBLE = 1"

definition WAIT_SIGNAL_KILLABLE :: nat where
  "WAIT_SIGNAL_KILLABLE = 2"

definition wait_queue_timeout_init :: "kernel \<Rightarrow> kernel" where
  "wait_queue_timeout_init s = s\<lparr>timeout_queue := []\<rparr>"

definition wait_queue_init :: "nat \<Rightarrow> kernel \<Rightarrow> kernel" where
  "wait_queue_init q s = s\<lparr>waiters := (waiters s)(q := [])\<rparr>"

fun insert_deadline :: "kernel \<Rightarrow> nat \<Rightarrow> nat list \<Rightarrow> nat list" where
  "insert_deadline s t [] = [t]"
| "insert_deadline s t (u # us) =
     (if wait_deadline (threads s t) < wait_deadline (threads s u) then t # u # us
      else u # insert_deadline s t us)"

definition timeout_insert_locked :: "nat \<Rightarrow> kernel \<Rightarrow> kernel" where
  "timeout_insert_locked t s =
     upd_thread t (\<lambda>th. th\<lparr>on_timeout_queue := True\<rparr>)
       (s\<lparr>timeout_queue := insert_deadline s t (timeout_queue s)\<rparr>)"

text \<open>Taking a thread off its queue and off the timeout queue.\<close>

definition wait_unlink :: "nat \<Rightarrow> nat \<Rightarrow> kernel \<Rightarrow> kernel" where
  "wait_unlink q t s0 =
     (let s1 = s0\<lparr>waiters := (waiters s0)(q := remove1 t (waiters s0 q))\<rparr>;
          s2 = upd_thread t (\<lambda>th. th\<lparr>on_waitqueue := False, waiting_on := None\<rparr>) s1
      in if on_timeout_queue (threads s2 t)
         then upd_thread t (\<lambda>th. th\<lparr>on_timeout_queue := False\<rparr>)
                (s2\<lparr>timeout_queue := remove1 t (timeout_queue s2)\<rparr>)
         else s2)"

text \<open>How the first half of a sleep ends: the thread is on the queue and switches away, the call
  returns at once, or the thread terminates.\<close>

datatype sleep_outcome = Asleep | Returned int | Terminates

definition wait_queue_sleep_deadline ::
  "nat \<Rightarrow> u64 \<Rightarrow> nat \<Rightarrow> u64 \<Rightarrow> nat \<Rightarrow> bool \<Rightarrow> bool \<Rightarrow> bool \<Rightarrow> u64 \<Rightarrow> kernel \<Rightarrow> (sleep_outcome \<times> kernel) option" where
  "wait_queue_sleep_deadline i now q deadline mode exit_before pending exit_after sequence_after s =
     (case cur_thread i s of
        None \<Rightarrow> None
      | Some t \<Rightarrow>
          (let sequence = (if mode = WAIT_SIGNAL_NONE then 0
                           else if mode = WAIT_SIGNAL_KILLABLE then fatal_signal_sequence (threads s t)
                           else signal_sequence (threads s t)) in
           if exit_before then Some (Terminates, s)
           else if mode \<noteq> WAIT_SIGNAL_NONE \<and>
                   (mode = WAIT_SIGNAL_KILLABLE \<or> mode = WAIT_SIGNAL_INTERRUPTIBLE) \<and> pending
           then Some (Returned WAIT_QUEUE_INTERRUPTED, s)
           else if state (threads s t) \<noteq> THREAD_RUNNING \<or> on_waitqueue (threads s t) \<or>
                   waiting_on (threads s t) \<noteq> None \<or> on_timeout_queue (threads s t)
           then None
           else
             (let s1 = upd_thread t (\<lambda>th. th\<lparr>waiting_on := Some q, on_waitqueue := True,
                    wait_deadline := deadline, wait_result := 0, wait_interruptible := mode\<rparr>) s;
                  s2 = s1\<lparr>waiters := (waiters s1)(q := waiters s1 q @ [t])\<rparr>;
                  s3 = (if deadline \<noteq> 0 then timeout_insert_locked t s2 else s2)
              in if exit_after
                 then Some (Terminates, upd_thread t (\<lambda>th. th\<lparr>wait_result := WAIT_QUEUE_TERMINATED,
                        wait_interruptible := 0\<rparr>) (wait_unlink q t s3))
                 else if mode \<noteq> WAIT_SIGNAL_NONE \<and> sequence \<noteq> sequence_after
                 then Some (Returned WAIT_QUEUE_INTERRUPTED,
                        upd_thread t (\<lambda>th. th\<lparr>wait_result := WAIT_QUEUE_INTERRUPTED,
                          wait_interruptible := 0\<rparr>) (wait_unlink q t s3))
                 else map_option (\<lambda>s4. (Asleep, s4)) (scheduler_block_current i now s3))))"

text \<open>The second half, once the thread \<open>t\<close> has been scheduled again.\<close>

definition wait_queue_sleep_resume :: "nat \<Rightarrow> bool \<Rightarrow> kernel \<Rightarrow> (sleep_outcome \<times> kernel) option" where
  "wait_queue_sleep_resume t exit_requested s =
     (if on_waitqueue (threads s t) \<or> waiting_on (threads s t) \<noteq> None \<or> on_timeout_queue (threads s t)
      then None
      else
        (let result = wait_result (threads s t);
             s1 = upd_thread t (\<lambda>th. th\<lparr>wait_interruptible := 0\<rparr>) s
         in if result = WAIT_QUEUE_TERMINATED
            then (if \<not> exit_requested then None else Some (Terminates, s1))
            else Some (Returned result, s1)))"

definition timeout_deadline :: "u64 \<Rightarrow> u64 \<Rightarrow> u64" where
  "timeout_deadline now delta = (if now + delta < now then NOT 0 else now + delta)"

text \<open>The public variants: what they pass on, or the value they return at once. \<open>ticks\<close> is the tick
  counter and \<open>frequency\<close> its rate.\<close>

datatype sleep_call = Sleep_deadline u64 nat | Sleep_returns int

definition wait_queue_sleep :: sleep_call where
  "wait_queue_sleep = Sleep_deadline 0 WAIT_SIGNAL_NONE"

definition wait_queue_sleep_timeout :: "u64 \<Rightarrow> u64 \<Rightarrow> u64 \<Rightarrow> sleep_call" where
  "wait_queue_sleep_timeout ticks frequency timeout_ms =
     (if timeout_ms = 0 then Sleep_returns (-1)
      else Sleep_deadline (timeout_deadline ticks (ktime_ms_to_ticks frequency timeout_ms)) WAIT_SIGNAL_NONE)"

definition wait_queue_sleep_interruptible :: sleep_call where
  "wait_queue_sleep_interruptible = Sleep_deadline 0 WAIT_SIGNAL_INTERRUPTIBLE"

definition wait_queue_sleep_killable :: sleep_call where
  "wait_queue_sleep_killable = Sleep_deadline 0 WAIT_SIGNAL_KILLABLE"

definition wait_queue_sleep_interruptible_timeout :: "u64 \<Rightarrow> u64 \<Rightarrow> u64 \<Rightarrow> sleep_call" where
  "wait_queue_sleep_interruptible_timeout ticks frequency timeout_ms =
     (if timeout_ms = 0 then Sleep_returns WAIT_QUEUE_TIMEOUT
      else Sleep_deadline (timeout_deadline ticks (ktime_ms_to_ticks frequency timeout_ms))
             WAIT_SIGNAL_INTERRUPTIBLE)"

definition wait_queue_sleep_interruptible_until :: "u64 \<Rightarrow> u64 \<Rightarrow> sleep_call" where
  "wait_queue_sleep_interruptible_until ticks deadline =
     (if deadline \<le> ticks then Sleep_returns WAIT_QUEUE_TIMEOUT
      else Sleep_deadline deadline WAIT_SIGNAL_INTERRUPTIBLE)"

subsection \<open>Waking\<close>

text \<open>\<open>ipi\<close> and \<open>me\<close> are the scheduler's; \<open>clock t\<close> is the time read while thread \<open>t\<close> is enqueued.\<close>

definition wait_queue_wake_locked ::
  "(u64 \<Rightarrow> int) \<Rightarrow> nat \<Rightarrow> (nat \<Rightarrow> u64) \<Rightarrow> nat \<Rightarrow> nat \<Rightarrow> int \<Rightarrow> kernel \<Rightarrow> kernel option" where
  "wait_queue_wake_locked ipi me clock q t result s =
     (if \<not> on_waitqueue (threads s t) \<or> waiting_on (threads s t) \<noteq> Some q \<or>
         state (threads s t) \<noteq> THREAD_SLEEPING
      then None
      else scheduler_make_runnable ipi me (clock t) t
             (upd_thread t (\<lambda>th. th\<lparr>wait_result := result, wait_interruptible := 0\<rparr>)
               (wait_unlink q t s)))"

definition wait_queue_wake_one ::
  "(u64 \<Rightarrow> int) \<Rightarrow> nat \<Rightarrow> (nat \<Rightarrow> u64) \<Rightarrow> nat \<Rightarrow> kernel \<Rightarrow> (int \<times> kernel) option" where
  "wait_queue_wake_one ipi me clock q s =
     (case waiters s q of
        [] \<Rightarrow> Some (0, s)
      | t # _ \<Rightarrow> map_option (\<lambda>s'. (1, s')) (wait_queue_wake_locked ipi me clock q t 0 s))"

partial_function (option) wake_all_loop ::
  "(u64 \<Rightarrow> int) \<Rightarrow> nat \<Rightarrow> (nat \<Rightarrow> u64) \<Rightarrow> nat \<Rightarrow> int \<Rightarrow> kernel \<Rightarrow> (int \<times> kernel) option" where
  "wake_all_loop ipi me clock q woken s =
     (case waiters s q of
        [] \<Rightarrow> Some (woken, s)
      | t # _ \<Rightarrow> Option.bind (wait_queue_wake_locked ipi me clock q t 0 s)
                 (\<lambda>s'. wake_all_loop ipi me clock q (woken + 1) s'))"

definition wait_queue_wake_all ::
  "(u64 \<Rightarrow> int) \<Rightarrow> nat \<Rightarrow> (nat \<Rightarrow> u64) \<Rightarrow> nat \<Rightarrow> kernel \<Rightarrow> (int \<times> kernel) option" where
  "wait_queue_wake_all ipi me clock q s = wake_all_loop ipi me clock q 0 s"

text \<open>The loop of \<^verbatim>\<open>wait_queue_wake_mask\<close> reads the next node before it takes the current one off the
  queue, so it visits the threads that were queued when it started.\<close>

fun wake_mask_loop ::
  "(u64 \<Rightarrow> int) \<Rightarrow> nat \<Rightarrow> (nat \<Rightarrow> u64) \<Rightarrow> nat \<Rightarrow> int \<Rightarrow> u32 \<Rightarrow> nat list \<Rightarrow> int \<Rightarrow> kernel \<Rightarrow>
    (int \<times> kernel) option" where
  "wake_mask_loop ipi me clock q limit bits [] woken s = Some (woken, s)"
| "wake_mask_loop ipi me clock q limit bits (t # ts) woken s =
     (if \<not> woken < limit then Some (woken, s)
      else if wait_bitset (threads s t) AND bits = 0
      then wake_mask_loop ipi me clock q limit bits ts woken s
      else Option.bind (wait_queue_wake_locked ipi me clock q t 0 s)
             (\<lambda>s'. wake_mask_loop ipi me clock q limit bits ts (woken + 1) s'))"

definition wait_queue_wake_mask ::
  "(u64 \<Rightarrow> int) \<Rightarrow> nat \<Rightarrow> (nat \<Rightarrow> u64) \<Rightarrow> nat \<Rightarrow> int \<Rightarrow> u32 \<Rightarrow> kernel \<Rightarrow> (int \<times> kernel) option" where
  "wait_queue_wake_mask ipi me clock q limit bits s =
     (if limit \<le> 0 \<or> bits = 0 then Some (0, s)
      else wake_mask_loop ipi me clock q limit bits (waiters s q) 0 s)"

definition requeue_one :: "nat \<Rightarrow> nat \<Rightarrow> u64 \<Rightarrow> nat \<Rightarrow> kernel \<Rightarrow> kernel option" where
  "requeue_one source destination cookie t s =
     (if state (threads s t) \<noteq> THREAD_SLEEPING \<or> \<not> on_waitqueue (threads s t) \<or>
         waiting_on (threads s t) \<noteq> Some source
      then None
      else
        (let s1 = s\<lparr>waiters := (waiters s)(source := remove1 t (waiters s source))\<rparr>;
             s2 = s1\<lparr>waiters := (waiters s1)(destination := waiters s1 destination @ [t])\<rparr>
         in Some (upd_thread t (\<lambda>th. th\<lparr>waiting_on := Some destination, wait_private := cookie\<rparr>) s2)))"

fun requeue_loop :: "nat \<Rightarrow> nat \<Rightarrow> nat \<Rightarrow> u64 \<Rightarrow> int \<Rightarrow> kernel \<Rightarrow> (int \<times> kernel) option" where
  "requeue_loop 0 source destination cookie moved s = Some (moved, s)"
| "requeue_loop (Suc n) source destination cookie moved s =
     (case waiters s source of
        [] \<Rightarrow> Some (moved, s)
      | t # _ \<Rightarrow> Option.bind (requeue_one source destination cookie t s)
                 (\<lambda>s'. requeue_loop n source destination cookie (moved + 1) s'))"

definition wait_queue_requeue :: "nat \<Rightarrow> nat \<Rightarrow> int \<Rightarrow> u64 \<Rightarrow> kernel \<Rightarrow> (int \<times> kernel) option" where
  "wait_queue_requeue source destination limit cookie s =
     (if source = destination \<or> limit \<le> 0 then Some (0, s)
      else requeue_loop (nat limit) source destination cookie 0 s)"

text \<open>Waking a thread wherever it waits. \<open>wait_queue_wake_thread\<close> and \<open>wait_queue_signal_thread\<close> repeat
  the body of \<open>wait_queue_wake_locked\<close> after their own tests.\<close>

definition wake_found ::
  "(u64 \<Rightarrow> int) \<Rightarrow> nat \<Rightarrow> (nat \<Rightarrow> u64) \<Rightarrow> nat \<Rightarrow> nat \<Rightarrow> int \<Rightarrow> kernel \<Rightarrow> (int \<times> kernel) option" where
  "wake_found ipi me clock q t result s =
     map_option (\<lambda>s'. (1, s'))
       (scheduler_make_runnable ipi me (clock t) t
         (upd_thread t (\<lambda>th. th\<lparr>wait_result := result, wait_interruptible := 0\<rparr>) (wait_unlink q t s)))"

definition wait_queue_wake_thread ::
  "(u64 \<Rightarrow> int) \<Rightarrow> nat \<Rightarrow> (nat \<Rightarrow> u64) \<Rightarrow> nat \<Rightarrow> kernel \<Rightarrow> (int \<times> kernel) option" where
  "wait_queue_wake_thread ipi me clock t s =
     (case waiting_on (threads s t) of
        None \<Rightarrow> Some (0, s)
      | Some q \<Rightarrow>
          if state (threads s t) \<noteq> THREAD_SLEEPING \<or> \<not> on_waitqueue (threads s t) then Some (0, s)
          else wake_found ipi me clock q t 0 s)"

definition wait_queue_signal_thread ::
  "(u64 \<Rightarrow> int) \<Rightarrow> nat \<Rightarrow> (nat \<Rightarrow> u64) \<Rightarrow> nat \<Rightarrow> bool \<Rightarrow> kernel \<Rightarrow> (int \<times> kernel) option" where
  "wait_queue_signal_thread ipi me clock t fatal s =
     (let mode = wait_interruptible (threads s t) in
      case waiting_on (threads s t) of
        None \<Rightarrow> Some (0, s)
      | Some q \<Rightarrow>
          if mode = 0 \<or> (mode = WAIT_SIGNAL_KILLABLE \<and> \<not> fatal) then Some (0, s)
          else if state (threads s t) \<noteq> THREAD_SLEEPING \<or> \<not> on_waitqueue (threads s t) then Some (0, s)
          else wake_found ipi me clock q t WAIT_QUEUE_INTERRUPTED s)"

definition wait_queue_terminate_thread ::
  "(u64 \<Rightarrow> int) \<Rightarrow> nat \<Rightarrow> (nat \<Rightarrow> u64) \<Rightarrow> nat \<Rightarrow> kernel \<Rightarrow> (int \<times> kernel) option" where
  "wait_queue_terminate_thread ipi me clock t s =
     (case waiting_on (threads s t) of
        None \<Rightarrow> Some (0, s)
      | Some q \<Rightarrow>
          if state (threads s t) \<noteq> THREAD_SLEEPING \<or> \<not> on_waitqueue (threads s t) then Some (0, s)
          else map_option (\<lambda>s'. (1, s'))
                 (wait_queue_wake_locked ipi me clock q t WAIT_QUEUE_TERMINATED s))"

partial_function (option) wait_queue_expire ::
  "(u64 \<Rightarrow> int) \<Rightarrow> nat \<Rightarrow> (nat \<Rightarrow> u64) \<Rightarrow> u64 \<Rightarrow> kernel \<Rightarrow> kernel option" where
  "wait_queue_expire ipi me clock now s =
     (case timeout_queue s of
        [] \<Rightarrow> Some s
      | t # _ \<Rightarrow>
          if wait_deadline (threads s t) > now then Some s
          else (case waiting_on (threads s t) of
              None \<Rightarrow> None
            | Some q \<Rightarrow> Option.bind (wait_queue_wake_locked ipi me clock q t (-1) s)
                         (\<lambda>s'. wait_queue_expire ipi me clock now s')))"

definition wait_queue_empty :: "nat \<Rightarrow> kernel \<Rightarrow> bool" where
  "wait_queue_empty q s \<longleftrightarrow> waiters s q = []"

end
