(* ===== verification/Wait_Spec.thy ===== *)
theory Wait_Spec
  imports Wait
begin

text \<open>
  Correctness of the wait queues: the invariant that ties the queues, the timeout list and the wait
  fields of the threads together, what each operation does to it, and which threads each operation
  wakes.
\<close>

subsection \<open>The invariant\<close>

definition wait_ok :: "kernel \<Rightarrow> bool" where
  "wait_ok s \<longleftrightarrow>
     (\<forall>q. distinct (waiters s q)) \<and>
     (\<forall>q t. t \<in> set (waiters s q) \<longleftrightarrow> waiting_on (threads s t) = Some q) \<and>
     (\<forall>t. on_waitqueue (threads s t) \<longleftrightarrow> waiting_on (threads s t) \<noteq> None) \<and>
     (\<forall>t. on_waitqueue (threads s t) \<longrightarrow> t < NTHREAD \<and> state (threads s t) = THREAD_SLEEPING) \<and>
     distinct (timeout_queue s) \<and>
     (\<forall>t. t \<in> set (timeout_queue s) \<longleftrightarrow> on_timeout_queue (threads s t)) \<and>
     (\<forall>t. on_timeout_queue (threads s t) \<longrightarrow> on_waitqueue (threads s t) \<and> wait_deadline (threads s t) \<noteq> 0) \<and>
     sorted (map (\<lambda>t. wait_deadline (threads s t)) (timeout_queue s))"

definition kernel_ok :: "kernel \<Rightarrow> bool" where
  "kernel_ok s \<longleftrightarrow> sched_ok s \<and> wait_ok s"

text \<open>The threads of \<open>W\<close>, and no others, have been taken off every queue and made runnable with
  result \<open>r\<close>; the queues keep the order of the others.\<close>

definition woke :: "nat set \<Rightarrow> int \<Rightarrow> kernel \<Rightarrow> kernel \<Rightarrow> bool" where
  "woke W r s s' \<longleftrightarrow>
     (\<forall>u. u \<notin> W \<longrightarrow> threads s' u = threads s u) \<and>
     (\<forall>u. u \<in> W \<longrightarrow> state (threads s' u) = THREAD_RUNNABLE \<and> wait_result (threads s' u) = r \<and>
        wait_interruptible (threads s' u) = 0 \<and> waiting_on (threads s' u) = None \<and>
        \<not> on_waitqueue (threads s' u) \<and> \<not> on_timeout_queue (threads s' u)) \<and>
     (\<forall>q. waiters s' q = filter (\<lambda>u. u \<notin> W) (waiters s q)) \<and>
     timeout_queue s' = filter (\<lambda>u. u \<notin> W) (timeout_queue s)"

lemma woke_refl: "woke {} r s s"
  by (simp add: woke_def)

lemma woke_trans:
  assumes "woke V r s s1" "woke W r s1 s2"
  shows "woke (V \<union> W) r s s2"
  using assms unfolding woke_def by (auto intro!: filter_cong) metis+

lemma wait_ok_woke:
  assumes ok: "wait_ok s" and w: "woke W r s s'"
  shows "wait_ok s'"
proof -
  have t: "threads s' u = threads s u" if "u \<notin> W" for u
    using w that by (simp add: woke_def)
  have f: "waiting_on (threads s' u) = None" "\<not> on_waitqueue (threads s' u)" "\<not> on_timeout_queue (threads s' u)"
    if "u \<in> W" for u
    using w that by (simp_all add: woke_def)
  have "waiters s' q = filter (\<lambda>u. u \<notin> W) (waiters s q)" for q
    using w by (simp add: woke_def)
  moreover have l: "timeout_queue s' = filter (\<lambda>u. u \<notin> W) (timeout_queue s)"
    using w by (simp add: woke_def)
  moreover have "map (\<lambda>t. wait_deadline (threads s' t)) (timeout_queue s') =
      map (\<lambda>t. wait_deadline (threads s t)) (filter (\<lambda>u. u \<notin> W) (timeout_queue s))"
    by (simp add: l t)
  moreover have "sorted (map (\<lambda>t. wait_deadline (threads s t)) (filter (\<lambda>u. u \<notin> W) (timeout_queue s)))"
    using ok unfolding wait_ok_def by (metis sorted_filter)
  ultimately show ?thesis
    using ok f t unfolding wait_ok_def
    by (intro conjI allI; simp; metis option.distinct(1))
qed

lemma wait_unlink_simps [simp]:
  "waiters (wait_unlink q t s) = (waiters s)(q := remove1 t (waiters s q))"
  "timeout_queue (wait_unlink q t s) =
     (if on_timeout_queue (threads s t) then remove1 t (timeout_queue s) else timeout_queue s)"
  "cpus (wait_unlink q t s) = cpus s"
  "threads (wait_unlink q t s) =
     (threads s)(t := (threads s t)\<lparr>on_waitqueue := False, waiting_on := None, on_timeout_queue := False\<rparr>)"
  by (auto simp: wait_unlink_def Let_def upd_thread_def fun_eq_iff)

text \<open>The scheduler does not look at the wait fields.\<close>

lemma sched_ok_cong:
  assumes "sched_ok s" "cpus s' = cpus s" "timeline s' = timeline s" "rq_count s' = rq_count s"
    "total_weight s' = total_weight s"
    and same: "\<And>u. sched (threads s' u) = sched (threads s u) \<and> tid (threads s' u) = tid (threads s u) \<and>
      state (threads s' u) = state (threads s u) \<and> home (threads s' u) = home (threads s u) \<and>
      kernel_thread (threads s' u) = kernel_thread (threads s u)"
  shows "sched_ok s'"
proof -
  obtain xs where xs: "queue_inv s xs" "weights_ok s"
    using assms(1) by (auto simp: sched_ok_def queue_ok_def)
  have "queue_inv s' xs"
    by (rule queue_inv_cong [OF xs(1)]) (simp_all add: assms(3-5) same)
  moreover have "weights_ok s'"
    using xs(2) by (simp add: weights_ok_def same)
  moreover have "view s' = view s"
    by (intro view_eqI) (simp_all add: same assms(2))
  ultimately show ?thesis
    using assms(1) by (auto simp: sched_ok_def queue_ok_def)
qed

lemma wait_unlink_rest [simp]:
  "timeline (wait_unlink q t s) = timeline s" "rq_count (wait_unlink q t s) = rq_count s"
  "total_weight (wait_unlink q t s) = total_weight s"
  by (simp_all add: wait_unlink_def Let_def upd_thread_def)

lemma remove1_filter: "distinct xs \<Longrightarrow> remove1 t xs = filter (\<lambda>u. u \<noteq> t) xs"
  by (induction xs) (auto intro!: filter_True [symmetric])

subsection \<open>Waking one thread\<close>

lemma sleeper_facts:
  assumes "kernel_ok s" "waiting_on (threads s t) = Some q"
  shows "t < NTHREAD" "state (threads s t) = THREAD_SLEEPING" "on_waitqueue (threads s t)"
    "\<not> on_runqueue (entity s t)" "home (threads s t) \<or> kernel_thread (threads s t)"
proof -
  have on: "on_waitqueue (threads s t)"
    using assms by (simp add: kernel_ok_def wait_ok_def)
  then have st: "t < NTHREAD" "state (threads s t) = THREAD_SLEEPING"
    using assms by (simp_all add: kernel_ok_def wait_ok_def)
  then show "t < NTHREAD" "state (threads s t) = THREAD_SLEEPING" "on_waitqueue (threads s t)"
    using on by simp_all
  have v: "view_ok (view s)"
    using assms by (simp add: kernel_ok_def sched_ok_def)
  then have "\<forall>u \<in> queued (view s). status (view s) u = THREAD_RUNNABLE"
    by (simp add: view_ok_def)
  then show "\<not> on_runqueue (entity s t)"
    using st(2) by fastforce
  have "status (view s) t = THREAD_SLEEPING \<longrightarrow> t \<in> owned (view s)"
    using v unfolding view_ok_def by blast
  then show "home (threads s t) \<or> kernel_thread (threads s t)"
    using st(2) by simp
qed

lemma wake_up:
  assumes ok: "kernel_ok s" and t: "waiting_on (threads s t) = Some q" and ipi: "\<forall>h. ipi h = 0"
  shows "\<exists>s'. scheduler_make_runnable ipi me now t
      (upd_thread t (\<lambda>th. th\<lparr>wait_result := r, wait_interruptible := 0\<rparr>) (wait_unlink q t s)) = Some s' \<and>
    kernel_ok s' \<and> woke {t} r s s'"
proof -
  note st = sleeper_facts [OF ok t]
  let ?s = "upd_thread t (\<lambda>th. th\<lparr>wait_result := r, wait_interruptible := 0\<rparr>) (wait_unlink q t s)"
  have "sched_ok ?s"
    by (rule sched_ok_cong [of s]) (use ok in \<open>simp_all add: kernel_ok_def upd_thread_def\<close>)
  moreover have "\<not> on_runqueue (entity ?s t)" "state (threads ?s t) \<in> wakeable"
    "home (threads ?s t) \<or> kernel_thread (threads ?s t)"
    using st by (simp_all add: upd_thread_def wakeable_def)
  ultimately obtain s' where s': "scheduler_enqueue ipi me now t True ?s = Some s'" "sched_ok s'"
    "only_woken t ?s s'"
    using enqueue_ok [of ?s t ipi me now True] st(1) ipi by blast
  have dist: "distinct (waiters s q)" "distinct (timeout_queue s)"
    and mem: "u \<in> set (waiters s p) \<longleftrightarrow> waiting_on (threads s u) = Some p"
      "u \<in> set (timeout_queue s) \<longleftrightarrow> on_timeout_queue (threads s u)" for u p
    using ok by (simp_all add: kernel_ok_def wait_ok_def)
  have "t \<notin> set (waiters s p)" if "p \<noteq> q" for p
    using that t mem(1) by simp
  then have "woke {t} r s s'"
    using s'(3) dist mem(2) [of t]
    by (auto simp: woke_def only_woken_def upd_thread_def remove1_filter intro!: filter_True [symmetric])
  then show ?thesis
    using s'(1,2) ok wait_ok_woke by (auto simp: kernel_ok_def scheduler_make_runnable_def)
qed

lemma wake_locked_spec:
  assumes ok: "kernel_ok s" and t: "waiting_on (threads s t) = Some q" and ipi: "\<forall>h. ipi h = 0"
  shows "\<exists>s'. wait_queue_wake_locked ipi me clock q t r s = Some s' \<and> kernel_ok s' \<and> woke {t} r s s'"
  using wake_up [OF ok t ipi] sleeper_facts [OF ok t] t
  by (simp add: wait_queue_wake_locked_def)

lemma waiters_waiting: "kernel_ok s \<Longrightarrow> t \<in> set (waiters s q) \<Longrightarrow> waiting_on (threads s t) = Some q"
  by (simp add: kernel_ok_def wait_ok_def)

lemma waiters_distinct: "kernel_ok s \<Longrightarrow> distinct (waiters s q)"
  by (simp add: kernel_ok_def wait_ok_def)

lemma woke_insert: "woke {t} r s s1 \<Longrightarrow> woke W r s1 s2 \<Longrightarrow> woke (insert t W) r s s2"
  using woke_trans [of "{t}" r s s1 W s2] by simp

lemma woke_waiters: "woke W r s s' \<Longrightarrow> waiters s' q = filter (\<lambda>u. u \<notin> W) (waiters s q)"
  by (simp add: woke_def)

lemma woke_others: "woke W r s s' \<Longrightarrow> u \<notin> W \<Longrightarrow> threads s' u = threads s u"
  by (simp add: woke_def)

subsection \<open>Waking from a queue\<close>

lemma wake_one_spec:
  assumes ok: "kernel_ok s" and ipi: "\<forall>h. ipi h = 0"
  shows "\<exists>s'. wait_queue_wake_one ipi me clock q s =
      Some (if waiters s q = [] then 0 else 1, s') \<and> kernel_ok s' \<and>
    woke (set (take 1 (waiters s q))) 0 s s'"
proof (cases "waiters s q")
  case Nil
  then show ?thesis
    using ok by (simp add: wait_queue_wake_one_def woke_refl)
next
  case (Cons t ts)
  then have "waiting_on (threads s t) = Some q"
    using waiters_waiting [OF ok] by simp
  then show ?thesis
    using wake_locked_spec [OF ok _ ipi, of t q me clock 0] Cons
    by (auto simp: wait_queue_wake_one_def)
qed

lemma wake_all_loop_spec:
  assumes "kernel_ok s" and ipi: "\<forall>h. ipi h = 0" and "waiters s q = ts"
  shows "\<exists>s'. wake_all_loop ipi me clock q woken s = Some (woken + int (length ts), s') \<and>
    kernel_ok s' \<and> woke (set ts) 0 s s'"
  using assms(1,3)
proof (induction ts arbitrary: s woken)
  case Nil
  then show ?case
    by (simp add: wake_all_loop.simps woke_refl)
next
  case (Cons t ts)
  have "waiting_on (threads s t) = Some q"
    using waiters_waiting [OF Cons.prems(1)] Cons.prems(2) by simp
  then obtain s1 where s1: "wait_queue_wake_locked ipi me clock q t 0 s = Some s1" "kernel_ok s1"
    "woke {t} 0 s s1"
    using wake_locked_spec [OF Cons.prems(1) _ ipi] by blast
  have "waiters s1 q = filter (\<lambda>u. u \<noteq> t) (t # ts)" "distinct (t # ts)"
    using woke_waiters [OF s1(3), of q] Cons.prems(2) waiters_distinct [OF Cons.prems(1), of q] by simp_all
  then have "waiters s1 q = ts"
    by (auto intro!: filter_True)
  then obtain s' where "wake_all_loop ipi me clock q (woken + 1) s1 = Some (woken + 1 + int (length ts), s')"
    "kernel_ok s'" "woke (set ts) 0 s1 s'"
    using Cons.IH s1(2) by blast
  then show ?case
    using s1 Cons.prems(2) woke_insert [OF s1(3)]
    by (subst wake_all_loop.simps) (simp add: algebra_simps)
qed

lemma wake_mask_loop_spec:
  assumes "kernel_ok s" and ipi: "\<forall>h. ipi h = 0" and "distinct ts"
    "\<forall>t \<in> set ts. waiting_on (threads s t) = Some q"
  shows "\<exists>s'. wake_mask_loop ipi me clock q limit bits ts woken s =
      Some (woken + int (length (take (nat (limit - woken)) (filter (\<lambda>t. wait_bitset (threads s t) AND bits \<noteq> 0) ts))), s') \<and>
    kernel_ok s' \<and>
    woke (set (take (nat (limit - woken)) (filter (\<lambda>t. wait_bitset (threads s t) AND bits \<noteq> 0) ts))) 0 s s'"
  using assms(1,3,4)
proof (induction ts arbitrary: s woken)
  case Nil
  then show ?case
    by (simp add: woke_refl)
next
  case (Cons t ts)
  show ?case
  proof (cases "woken < limit \<and> wait_bitset (threads s t) AND bits \<noteq> 0")
    case False
    then show ?thesis
      using Cons by (cases "woken < limit") (simp_all add: woke_refl)
  next
    case True
    then obtain s1 where s1: "wait_queue_wake_locked ipi me clock q t 0 s = Some s1" "kernel_ok s1"
      "woke {t} 0 s s1"
      using wake_locked_spec [OF Cons.prems(1) _ ipi, of t q me clock 0] Cons.prems(3) by auto
    have same: "threads s1 u = threads s u" if "u \<in> set ts" for u
      using woke_others [OF s1(3), of u] Cons.prems(2) that by auto
    then have f: "filter (\<lambda>t. wait_bitset (threads s1 t) AND bits \<noteq> 0) ts =
        filter (\<lambda>t. wait_bitset (threads s t) AND bits \<noteq> 0) ts"
      by (intro filter_cong) simp_all
    have n: "nat (limit - woken) = Suc (nat (limit - (woken + 1)))"
      using True by linarith
    have "\<forall>u \<in> set ts. waiting_on (threads s1 u) = Some q"
      using same Cons.prems(3) by simp
    with Cons.IH [OF s1(2), of "woken + 1"] Cons.prems(2) f
    show ?thesis
      using True s1(1) woke_insert [OF s1(3)] by (auto simp: n)
  qed
qed

subsection \<open>Waking a given thread and expiry\<close>

definition sleeping_on :: "kernel \<Rightarrow> nat \<Rightarrow> bool" where
  "sleeping_on s t \<longleftrightarrow> waiting_on (threads s t) \<noteq> None"

lemma wake_thread_spec:
  assumes ok: "kernel_ok s" and ipi: "\<forall>h. ipi h = 0"
  shows "\<exists>s'. wait_queue_wake_thread ipi me clock t s = Some (if sleeping_on s t then 1 else 0, s') \<and>
    kernel_ok s' \<and> woke (if sleeping_on s t then {t} else {}) 0 s s'"
proof (cases "waiting_on (threads s t)")
  case None
  then show ?thesis
    using ok by (simp add: wait_queue_wake_thread_def sleeping_on_def woke_refl)
next
  case (Some q)
  then show ?thesis
    using sleeper_facts [OF ok Some] wake_up [OF ok Some ipi, of me "clock t" 0]
    by (auto simp: wait_queue_wake_thread_def sleeping_on_def wake_found_def)
qed

lemma terminate_thread_spec:
  assumes ok: "kernel_ok s" and ipi: "\<forall>h. ipi h = 0"
  shows "\<exists>s'. wait_queue_terminate_thread ipi me clock t s = Some (if sleeping_on s t then 1 else 0, s') \<and>
    kernel_ok s' \<and> woke (if sleeping_on s t then {t} else {}) WAIT_QUEUE_TERMINATED s s'"
proof (cases "waiting_on (threads s t)")
  case None
  then show ?thesis
    using ok by (simp add: wait_queue_terminate_thread_def sleeping_on_def woke_refl)
next
  case (Some q)
  then show ?thesis
    using sleeper_facts [OF ok Some] wake_locked_spec [OF ok Some ipi, of me clock WAIT_QUEUE_TERMINATED]
    by (auto simp: wait_queue_terminate_thread_def sleeping_on_def)
qed

definition signal_wakes :: "kernel \<Rightarrow> nat \<Rightarrow> bool \<Rightarrow> bool" where
  "signal_wakes s t fatal \<longleftrightarrow> sleeping_on s t \<and> wait_interruptible (threads s t) \<noteq> WAIT_SIGNAL_NONE \<and>
     (wait_interruptible (threads s t) = WAIT_SIGNAL_KILLABLE \<longrightarrow> fatal)"

lemma signal_thread_spec:
  assumes ok: "kernel_ok s" and ipi: "\<forall>h. ipi h = 0"
  shows "\<exists>s'. wait_queue_signal_thread ipi me clock t fatal s = Some (if signal_wakes s t fatal then 1 else 0, s') \<and>
    kernel_ok s' \<and> woke (if signal_wakes s t fatal then {t} else {}) WAIT_QUEUE_INTERRUPTED s s'"
proof (cases "waiting_on (threads s t)")
  case None
  then show ?thesis
    using ok by (simp add: wait_queue_signal_thread_def signal_wakes_def sleeping_on_def woke_refl)
next
  case (Some q)
  then show ?thesis
    using sleeper_facts [OF ok Some] ok wake_up [OF ok Some ipi, of me "clock t" WAIT_QUEUE_INTERRUPTED]
    by (auto simp: wait_queue_signal_thread_def signal_wakes_def sleeping_on_def wake_found_def
      WAIT_SIGNAL_NONE_def woke_refl)
qed

lemma sorted_filter_head:
  assumes "sorted (map f (t # ts))" "\<not> f t \<le> (x :: 'a :: linorder)"
  shows "{u \<in> set (t # ts). f u \<le> x} = {}"
  using assms by fastforce

lemma expire_spec:
  assumes "kernel_ok s" and ipi: "\<forall>h. ipi h = 0" and "timeout_queue s = ts"
  shows "\<exists>s'. wait_queue_expire ipi me clock now s = Some s' \<and> kernel_ok s' \<and>
    woke {t \<in> set ts. wait_deadline (threads s t) \<le> now} WAIT_QUEUE_TIMEOUT s s'"
  using assms(1,3)
proof (induction ts arbitrary: s)
  case Nil
  then show ?case
    by (simp add: wait_queue_expire.simps woke_refl)
next
  case (Cons t ts)
  have w: "wait_ok s"
    using Cons.prems(1) by (simp add: kernel_ok_def)
  then have sorted: "sorted (map (\<lambda>t. wait_deadline (threads s t)) (t # ts))" and dist: "distinct (t # ts)"
    using Cons.prems(2) unfolding wait_ok_def by metis+
  show ?case
  proof (cases "wait_deadline (threads s t) \<le> now")
    case False
    then have "wait_queue_expire ipi me clock now s = Some s"
      using Cons.prems(2) by (subst wait_queue_expire.simps) (simp add: not_le)
    then show ?thesis
      using Cons.prems(1) woke_refl unfolding sorted_filter_head [OF sorted False] by blast
  next
    case True
    have "on_timeout_queue (threads s t)"
      using w Cons.prems(2) unfolding wait_ok_def by (metis list.set_intros(1))
    then obtain q where q: "waiting_on (threads s t) = Some q"
      using w unfolding wait_ok_def by blast
    obtain s1 where s1: "wait_queue_wake_locked ipi me clock q t (-1) s = Some s1" "kernel_ok s1"
      "woke {t} (-1) s s1"
      using wake_locked_spec [OF Cons.prems(1) q ipi] by blast
    have "timeout_queue s1 = filter (\<lambda>u. u \<noteq> t) (t # ts)"
      using s1(3) Cons.prems(2) by (simp add: woke_def)
    then have "timeout_queue s1 = ts"
      using dist by (auto intro!: filter_True)
    then obtain s' where s': "wait_queue_expire ipi me clock now s1 = Some s'" "kernel_ok s'"
      "woke {u \<in> set ts. wait_deadline (threads s1 u) \<le> now} WAIT_QUEUE_TIMEOUT s1 s'"
      using Cons.IH [OF s1(2)] by blast
    have "threads s1 u = threads s u" if "u \<in> set ts" for u
      using woke_others [OF s1(3), of u] dist that by auto
    then have eq: "insert t {u \<in> set ts. wait_deadline (threads s1 u) \<le> now} =
        {u \<in> set (t # ts). wait_deadline (threads s u) \<le> now}"
      using True by auto
    then have "woke {u \<in> set (t # ts). wait_deadline (threads s u) \<le> now} WAIT_QUEUE_TIMEOUT s s'"
      using woke_insert [OF s1(3) s'(3) [unfolded WAIT_QUEUE_TIMEOUT_def]]
      by (simp only: eq WAIT_QUEUE_TIMEOUT_def)
    then show ?thesis
      using s1 s' Cons.prems(2) leD [OF True] q by (subst wait_queue_expire.simps) simp
  qed
qed

subsection \<open>Sleeping\<close>

lemma insert_deadline_split:
  "\<exists>as bs. us = as @ bs \<and> insert_deadline s t us = as @ t # bs"
proof (induction us)
  case (Cons u us)
  then obtain as bs where "us = as @ bs" "insert_deadline s t us = as @ t # bs"
    by blast
  then have "u # us = (u # as) @ bs" "u # insert_deadline s t us = (u # as) @ t # bs"
    by simp_all
  then show ?case
    by (metis append_Nil insert_deadline.simps(2))
qed simp

lemma set_insert_deadline [simp]: "set (insert_deadline s t us) = insert t (set us)"
  by (induction us) auto

lemma insert_deadline_facts:
  assumes "t \<notin> set us"
  shows "remove1 t (insert_deadline s t us) = us"
    "distinct us \<Longrightarrow> distinct (insert_deadline s t us)"
proof -
  obtain as bs where "us = as @ bs" "insert_deadline s t us = as @ t # bs"
    using insert_deadline_split by blast
  then show "remove1 t (insert_deadline s t us) = us"
    "distinct us \<Longrightarrow> distinct (insert_deadline s t us)"
    using assms by (simp_all add: remove1_append)
qed

lemma insert_deadline_sorted:
  "sorted (map (\<lambda>t. wait_deadline (threads s t)) us) \<Longrightarrow>
     sorted (map (\<lambda>t. wait_deadline (threads s t)) (insert_deadline s t us))"
  by (induction us) (auto simp: not_less intro: order.trans less_imp_le)

lemma awake_facts:
  assumes "wait_ok s" "state (threads s t) \<noteq> THREAD_SLEEPING"
  shows "\<not> on_waitqueue (threads s t)" "waiting_on (threads s t) = None"
    "\<not> on_timeout_queue (threads s t)" "t \<notin> set (waiters s q)" "t \<notin> set (timeout_queue s)"
proof -
  show *: "\<not> on_waitqueue (threads s t)"
    using assms by (auto simp: wait_ok_def)
  then show "waiting_on (threads s t) = None" "\<not> on_timeout_queue (threads s t)"
    using assms(1) by (auto simp: wait_ok_def)
  then show "t \<notin> set (waiters s q)" "t \<notin> set (timeout_queue s)"
    using assms(1) by (auto simp: wait_ok_def)
qed

text \<open>The state once the thread \<open>t\<close> has been queued, and once it is queued and asleep.\<close>

definition wait_enqueue :: "nat \<Rightarrow> nat \<Rightarrow> u64 \<Rightarrow> nat \<Rightarrow> kernel \<Rightarrow> kernel" where
  "wait_enqueue q t deadline mode s =
     (let s1 = upd_thread t (\<lambda>th. th\<lparr>waiting_on := Some q, on_waitqueue := True,
            wait_deadline := deadline, wait_result := 0, wait_interruptible := mode\<rparr>) s;
          s2 = s1\<lparr>waiters := (waiters s1)(q := waiters s1 q @ [t])\<rparr>
      in if deadline \<noteq> 0 then timeout_insert_locked t s2 else s2)"

lemma wait_enqueue_simps [simp]:
  "cpus (wait_enqueue q t d m s) = cpus s" "timeline (wait_enqueue q t d m s) = timeline s"
  "rq_count (wait_enqueue q t d m s) = rq_count s"
  "total_weight (wait_enqueue q t d m s) = total_weight s"
  "waiters (wait_enqueue q t d m s) = (waiters s)(q := waiters s q @ [t])"
  by (simp_all add: wait_enqueue_def Let_def upd_thread_def timeout_insert_locked_def)

lemma wait_enqueue_thread:
  "\<not> on_timeout_queue (threads s t) \<Longrightarrow> threads (wait_enqueue q t d m s) =
     (threads s)(t := (threads s t)\<lparr>waiting_on := Some q, on_waitqueue := True, wait_deadline := d,
       wait_result := 0, wait_interruptible := m, on_timeout_queue := (d \<noteq> 0)\<rparr>)"
  by (rule ext) (simp add: wait_enqueue_def Let_def upd_thread_def timeout_insert_locked_def)

lemma insert_deadline_cong:
  "(\<And>u. u \<in> insert t (set us) \<Longrightarrow> wait_deadline (threads s u) = wait_deadline (threads s' u)) \<Longrightarrow>
     insert_deadline s t us = insert_deadline s' t us"
  by (induction us) auto

lemma wait_enqueue_timeouts:
  "timeout_queue (wait_enqueue q t d m s) =
     (if d = 0 then timeout_queue s else insert_deadline (wait_enqueue q t d m s) t (timeout_queue s))"
  by (auto simp: wait_enqueue_def Let_def upd_thread_def timeout_insert_locked_def intro!: insert_deadline_cong)

lemma wait_ok_enqueue:
  assumes ok: "wait_ok s" and t: "t < NTHREAD" "state (threads s t) \<noteq> THREAD_SLEEPING"
    and s': "waiters s' = waiters (wait_enqueue q t d m s)"
      "timeout_queue s' = timeout_queue (wait_enqueue q t d m s)"
      "threads s' = (threads (wait_enqueue q t d m s))
        (t := (threads (wait_enqueue q t d m s) t)\<lparr>state := THREAD_SLEEPING, sched := e\<rparr>)"
  shows "wait_ok s'"
proof -
  note a = awake_facts [OF ok t(2)]
  let ?s = "wait_enqueue q t d m s"
  have th: "threads s' u = threads s u" if "u \<noteq> t" for u
    using that a(3) by (simp add: s'(3) wait_enqueue_thread)
  have self: "state (threads s' t) = THREAD_SLEEPING" "on_waitqueue (threads s' t)"
    "waiting_on (threads s' t) = Some q" "on_timeout_queue (threads s' t) = (d \<noteq> 0)"
    "wait_deadline (threads s' t) = d"
    using a(3) by (simp_all add: s'(3) wait_enqueue_thread)
  have ws: "waiters s' p = (if p = q then waiters s q @ [t] else waiters s p)" for p
    by (simp add: s'(1))
  have ts: "timeout_queue s' = (if d = 0 then timeout_queue s else insert_deadline ?s t (timeout_queue s))"
    using s'(2) by (simp add: wait_enqueue_timeouts)
  have dl: "wait_deadline (threads s' u) = wait_deadline (threads ?s u)" for u
    by (simp add: s'(3))
  have "sorted (map (\<lambda>t. wait_deadline (threads s t)) (timeout_queue s))"
    using ok by (simp add: wait_ok_def)
  moreover have "map (\<lambda>t. wait_deadline (threads ?s t)) (timeout_queue s) =
      map (\<lambda>t. wait_deadline (threads s t)) (timeout_queue s)"
    using a(3,5) by (auto simp: wait_enqueue_thread)
  ultimately have "sorted (map (\<lambda>t. wait_deadline (threads ?s t)) (timeout_queue s))"
    by (simp only:)
  then have "sorted (map (\<lambda>t. wait_deadline (threads s' t)) (timeout_queue s'))"
    by (cases "d = 0") (simp_all add: ts dl insert_deadline_sorted)
  moreover have "distinct (timeout_queue s')" and tset: "set (timeout_queue s') = (if d = 0 then {} else {t}) \<union> set (timeout_queue s)"
    using ok a(5) by (simp_all add: ts insert_deadline_facts wait_ok_def)
  moreover have "u \<in> set (waiters s' p) \<longleftrightarrow> waiting_on (threads s' u) = Some p" "distinct (waiters s' p)"
    "on_waitqueue (threads s' u) \<longleftrightarrow> waiting_on (threads s' u) \<noteq> None"
    "on_waitqueue (threads s' u) \<longrightarrow> u < NTHREAD \<and> state (threads s' u) = THREAD_SLEEPING"
    "u \<in> set (timeout_queue s') \<longleftrightarrow> on_timeout_queue (threads s' u)"
    "on_timeout_queue (threads s' u) \<longrightarrow> on_waitqueue (threads s' u) \<and> wait_deadline (threads s' u) \<noteq> 0" for u p
    using ok a th [of u] self t(1) by (cases "u = t"; auto simp: wait_ok_def ws tset)+
  ultimately show ?thesis
    unfolding wait_ok_def by blast
qed

lemma block_ok:
  assumes ok: "sched_ok s" and i: "i < length (cpus s)" "current (cpus s ! i) = Some t"
    "state (threads s t) = THREAD_RUNNING"
  shows "\<exists>s' e. scheduler_block_current i now s = Some s' \<and> sched_ok s' \<and> cpus s' = cpus s \<and>
    waiters s' = waiters s \<and> timeout_queue s' = timeout_queue s \<and>
    threads s' = (threads s)(t := (threads s t)\<lparr>state := THREAD_SLEEPING, sched := e\<rparr>)"
proof -
  obtain xs where q: "queue_inv s xs" and w: "weights_ok s" and v: "view_ok (view s)"
    using ok by (auto simp: sched_ok_def queue_ok_def)
  obtain s' e where s': "leave_running i now THREAD_SLEEPING s = Some s'" "queue_inv s' xs" "weights_ok s'"
    "view s' = view_leave t THREAD_SLEEPING (view s)" "cpus s' = cpus s" "waiters s' = waiters s"
    "timeout_queue s' = timeout_queue s"
    "threads s' = (threads s)(t := (threads s t)\<lparr>state := THREAD_SLEEPING, sched := e\<rparr>)"
    using leave_running_spec [OF q w i(2,3) view_ok_running(3) [OF v i]] by blast
  moreover have "view_ok (view_leave t THREAD_SLEEPING (view s))"
    using v i by (intro view_ok_leave) simp_all
  ultimately show ?thesis
    by (auto simp: scheduler_block_current_def sched_ok_def queue_ok_def)
qed

text \<open>Taking the thread off again restores the queues.\<close>

definition left_queue :: "nat \<Rightarrow> int \<Rightarrow> kernel \<Rightarrow> kernel \<Rightarrow> bool" where
  "left_queue t r s s' \<longleftrightarrow>
     waiters s' = waiters s \<and> timeout_queue s' = timeout_queue s \<and>
     (\<forall>u. u \<noteq> t \<longrightarrow> threads s' u = threads s u) \<and>
     state (threads s' t) = state (threads s t) \<and> wait_result (threads s' t) = r \<and>
     wait_interruptible (threads s' t) = 0"

lemma enqueue_undo:
  fixes q :: nat and r :: int and d :: u64 and m :: nat
  assumes ok: "kernel_ok s" and t: "state (threads s t) \<noteq> THREAD_SLEEPING"
  defines "s' \<equiv> upd_thread t (\<lambda>th. th\<lparr>wait_result := r, wait_interruptible := 0\<rparr>)
      (wait_unlink q t (wait_enqueue q t d m s))"
  shows "kernel_ok s' \<and> left_queue t r s s'"
proof -
  have w: "wait_ok s"
    using ok by (simp add: kernel_ok_def)
  note a = awake_facts [OF w t]
  have ws: "waiters s' = waiters s"
    using a(4) by (auto simp: s'_def upd_thread_def remove1_append)
  have ts: "timeout_queue s' = timeout_queue s"
    using a(3,5)
    by (auto simp: s'_def upd_thread_def wait_enqueue_thread wait_enqueue_timeouts insert_deadline_facts)
  have th: "threads s' = (threads s)(t := (threads s t)\<lparr>waiting_on := None, on_waitqueue := False,
      wait_deadline := d, wait_result := r, wait_interruptible := 0, on_timeout_queue := False\<rparr>)"
    using a(3) by (auto simp: s'_def upd_thread_def wait_enqueue_thread fun_eq_iff)
  have dl: "map (\<lambda>t. wait_deadline (threads s' t)) (timeout_queue s) = map (\<lambda>t. wait_deadline (threads s t)) (timeout_queue s)"
    using a(5) by (auto simp: th)
  have "wait_ok s'"
    using w a unfolding wait_ok_def ws ts dl by (auto simp: th)
  moreover have "sched_ok s'"
    by (rule sched_ok_cong [of s]) (use ok a(3) in \<open>simp_all add: kernel_ok_def th, simp_all add: s'_def upd_thread_def\<close>)
  ultimately show ?thesis
    using ws ts by (simp add: kernel_ok_def left_queue_def th)
qed

text \<open>What a thread that went to sleep has done: it is the last of its queue, asleep with its
  deadline registered.\<close>

definition fell_asleep :: "nat \<Rightarrow> nat \<Rightarrow> u64 \<Rightarrow> nat \<Rightarrow> kernel \<Rightarrow> kernel \<Rightarrow> bool" where
  "fell_asleep q t d m s s' \<longleftrightarrow>
     waiters s' = (waiters s)(q := waiters s q @ [t]) \<and>
     (\<forall>u. u \<noteq> t \<longrightarrow> threads s' u = threads s u) \<and>
     state (threads s' t) = THREAD_SLEEPING \<and> waiting_on (threads s' t) = Some q \<and>
     wait_deadline (threads s' t) = d \<and> wait_interruptible (threads s' t) = m \<and>
     set (timeout_queue s') = (if d = 0 then {} else {t}) \<union> set (timeout_queue s)"

lemma enqueue_block:
  assumes ok: "kernel_ok s" and i: "i < length (cpus s)" "current (cpus s ! i) = Some t"
    "state (threads s t) = THREAD_RUNNING"
  shows "\<exists>s'. scheduler_block_current i now (wait_enqueue q t d m s) = Some s' \<and> kernel_ok s' \<and>
    fell_asleep q t d m s s'"
proof -
  have w: "wait_ok s" and v: "view_ok (view s)" and awake: "state (threads s t) \<noteq> THREAD_SLEEPING"
    using ok i by (simp_all add: kernel_ok_def sched_ok_def)
  note a = awake_facts [OF w awake]
  have "sched_ok (wait_enqueue q t d m s)"
    by (rule sched_ok_cong [of s]) (use ok a(3) in \<open>simp_all add: kernel_ok_def wait_enqueue_thread\<close>)
  then obtain s' e where s': "scheduler_block_current i now (wait_enqueue q t d m s) = Some s'"
    "sched_ok s'" "waiters s' = waiters (wait_enqueue q t d m s)"
    "timeout_queue s' = timeout_queue (wait_enqueue q t d m s)"
    "threads s' = (threads (wait_enqueue q t d m s))
        (t := (threads (wait_enqueue q t d m s) t)\<lparr>state := THREAD_SLEEPING, sched := e\<rparr>)"
    using block_ok [of "wait_enqueue q t d m s" i t now] i a(3) by (auto simp: wait_enqueue_thread)
  have "wait_ok s'"
    using wait_ok_enqueue [OF w view_ok_running(1) [OF v i(1,2)] awake s'(3-5)] .
  moreover have "fell_asleep q t d m s s'"
    using s'(3-5) a(3) by (simp add: fell_asleep_def wait_enqueue_thread wait_enqueue_timeouts)
  ultimately show ?thesis
    using s'(1,2) by (simp add: kernel_ok_def)
qed

lemma sleep_deadline_unfold:
  assumes ok: "wait_ok s" and t: "current (cpus s ! i) = Some t" "state (threads s t) = THREAD_RUNNING"
  shows "wait_queue_sleep_deadline i now q d m ex pending ex' sq s =
     (if ex then Some (Terminates, s)
      else if m \<noteq> WAIT_SIGNAL_NONE \<and> (m = WAIT_SIGNAL_KILLABLE \<or> m = WAIT_SIGNAL_INTERRUPTIBLE) \<and> pending
      then Some (Returned WAIT_QUEUE_INTERRUPTED, s)
      else if ex'
      then Some (Terminates, upd_thread t (\<lambda>th. th\<lparr>wait_result := WAIT_QUEUE_TERMINATED,
             wait_interruptible := 0\<rparr>) (wait_unlink q t (wait_enqueue q t d m s)))
      else if m \<noteq> WAIT_SIGNAL_NONE \<and>
              sq \<noteq> (if m = WAIT_SIGNAL_KILLABLE then fatal_signal_sequence (threads s t)
                    else signal_sequence (threads s t))
      then Some (Returned WAIT_QUEUE_INTERRUPTED, upd_thread t (\<lambda>th. th\<lparr>wait_result := WAIT_QUEUE_INTERRUPTED,
             wait_interruptible := 0\<rparr>) (wait_unlink q t (wait_enqueue q t d m s)))
      else map_option (\<lambda>s4. (Asleep, s4)) (scheduler_block_current i now (wait_enqueue q t d m s)))"
  using awake_facts [OF ok, of t] t
  by (auto simp: wait_queue_sleep_deadline_def cur_thread_def wait_enqueue_def Let_def)

text \<open>How a call may end, and the state it leaves.\<close>

definition sleep_result :: "nat \<Rightarrow> nat \<Rightarrow> u64 \<Rightarrow> nat \<Rightarrow> kernel \<Rightarrow> sleep_outcome \<Rightarrow> kernel \<Rightarrow> bool" where
  "sleep_result q t d m s r s' \<longleftrightarrow>
     (case r of
        Asleep \<Rightarrow> fell_asleep q t d m s s'
      | Returned v \<Rightarrow> v = WAIT_QUEUE_INTERRUPTED \<and> m \<noteq> WAIT_SIGNAL_NONE \<and>
          (s' = s \<or> left_queue t WAIT_QUEUE_INTERRUPTED s s')
      | Terminates \<Rightarrow> s' = s \<or> left_queue t WAIT_QUEUE_TERMINATED s s')"

lemma sleep_deadline_spec:
  assumes ok: "kernel_ok s" and i: "i < length (cpus s)" "current (cpus s ! i) = Some t"
    "state (threads s t) = THREAD_RUNNING"
  shows "\<exists>r s'. wait_queue_sleep_deadline i now q d m ex pending ex' sq s = Some (r, s') \<and> kernel_ok s' \<and>
    sleep_result q t d m s r s'"
proof -
  have w: "wait_ok s" and awake: "state (threads s t) \<noteq> THREAD_SLEEPING"
    using ok i by (simp_all add: kernel_ok_def)
  show ?thesis
    unfolding sleep_deadline_unfold [OF w i(2,3)]
    using enqueue_block [OF ok i, of now q d m] ok
      enqueue_undo [OF ok awake, of WAIT_QUEUE_TERMINATED q d m]
      enqueue_undo [OF ok awake, of WAIT_QUEUE_INTERRUPTED q d m]
    by (auto simp: sleep_result_def)
qed

subsection \<open>Moving waiters to another queue\<close>

definition requeued :: "nat \<Rightarrow> nat \<Rightarrow> u64 \<Rightarrow> nat \<Rightarrow> kernel \<Rightarrow> kernel \<Rightarrow> bool" where
  "requeued p q cookie n s s' \<longleftrightarrow>
     waiters s' = (waiters s)(p := drop n (waiters s p), q := waiters s q @ take n (waiters s p)) \<and>
     timeout_queue s' = timeout_queue s \<and>
     threads s' = (\<lambda>u. if u \<in> set (take n (waiters s p))
       then (threads s u)\<lparr>waiting_on := Some q, wait_private := cookie\<rparr> else threads s u)"

lemma requeue_one_spec:
  assumes ok: "kernel_ok s" and t: "waiters s p = t # ts" and neq: "p \<noteq> q"
  shows "\<exists>s'. requeue_one p q cookie t s = Some s' \<and> kernel_ok s' \<and> requeued p q cookie 1 s s'"
proof -
  have on: "waiting_on (threads s t) = Some p"
    using waiters_waiting [OF ok] t by simp
  note st = sleeper_facts [OF ok on]
  define s' where "s' = upd_thread t (\<lambda>th. th\<lparr>waiting_on := Some q, wait_private := cookie\<rparr>)
    (s\<lparr>waiters := (waiters s)(p := ts, q := waiters s q @ [t])\<rparr>)"
  have op: "requeue_one p q cookie t s = Some s'"
    using st on t neq by (simp add: requeue_one_def s'_def Let_def)
  have w: "wait_ok s"
    using ok by (simp add: kernel_ok_def)
  have "t \<notin> set ts" "distinct ts" "t \<notin> set (waiters s q)"
    using waiters_distinct [OF ok, of p] waiters_waiting [OF ok, of t q] t on neq by auto
  moreover have "u \<in> set ts \<longleftrightarrow> u \<noteq> t \<and> waiting_on (threads s u) = Some p" for u
    using w t \<open>t \<notin> set ts\<close> unfolding wait_ok_def by (metis set_ConsD list.set_intros)
  moreover have dl: "wait_deadline (threads s' u) = wait_deadline (threads s u)" for u
    by (simp add: s'_def upd_thread_def)
  ultimately have "wait_ok s'"
    using w st on neq unfolding wait_ok_def dl by (auto simp: s'_def upd_thread_def)
  moreover have "sched_ok s'"
    by (rule sched_ok_cong [of s]) (use ok in \<open>simp_all add: kernel_ok_def s'_def upd_thread_def\<close>)
  moreover have "requeued p q cookie 1 s s'"
    using t neq by (auto simp: requeued_def s'_def upd_thread_def fun_eq_iff)
  ultimately show ?thesis
    using op by (simp add: kernel_ok_def)
qed

lemma requeued_Suc:
  assumes "requeued p q cookie 1 s s1" "requeued p q cookie n s1 s2" "p \<noteq> q" "waiters s p = t # ts"
  shows "requeued p q cookie (Suc n) s s2"
  using assms by (auto simp: requeued_def fun_eq_iff)

lemma requeue_loop_spec:
  assumes "kernel_ok s" "p \<noteq> q"
  shows "\<exists>s'. requeue_loop n p q cookie moved s = Some (moved + int (min n (length (waiters s p))), s') \<and>
    kernel_ok s' \<and> requeued p q cookie n s s'"
  using assms(1)
proof (induction n arbitrary: s moved)
  case 0
  then show ?case
    by (simp add: requeued_def)
next
  case (Suc n)
  show ?case
  proof (cases "waiters s p")
    case Nil
    then show ?thesis
      using Suc.prems by (simp add: requeued_def fun_eq_iff)
  next
    case (Cons t ts)
    then obtain s1 where s1: "requeue_one p q cookie t s = Some s1" "kernel_ok s1" "requeued p q cookie 1 s s1"
      using requeue_one_spec [OF Suc.prems _ assms(2)] by blast
    then have "waiters s1 p = ts"
      using Cons assms(2) by (simp add: requeued_def)
    then obtain s' where "requeue_loop n p q cookie (moved + 1) s1 = Some (moved + 1 + int (min n (length ts)), s')"
      "kernel_ok s'" "requeued p q cookie n s1 s'"
      using Suc.IH [OF s1(2)] by blast
    then show ?thesis
      using s1 Cons requeued_Suc [OF s1(3) _ assms(2) Cons] by (auto simp: min_def)
  qed
qed

subsection \<open>Properties\<close>

text \<open>The operations that act on a given state, and their results.\<close>

datatype wait_op =
    Wake_one nat
  | Wake_all nat
  | Wake_mask nat int u32
  | Requeue nat nat int u64
  | Wake_thread nat
  | Signal_thread nat bool
  | Terminate_thread nat
  | Expire u64

fun exec_wait :: "(u64 \<Rightarrow> int) \<Rightarrow> nat \<Rightarrow> (nat \<Rightarrow> u64) \<Rightarrow> wait_op \<Rightarrow> kernel \<Rightarrow> (int \<times> kernel) option" where
  "exec_wait ipi me clock (Wake_one q) s = wait_queue_wake_one ipi me clock q s"
| "exec_wait ipi me clock (Wake_all q) s = wait_queue_wake_all ipi me clock q s"
| "exec_wait ipi me clock (Wake_mask q limit bits) s = wait_queue_wake_mask ipi me clock q limit bits s"
| "exec_wait ipi me clock (Requeue p q limit cookie) s = wait_queue_requeue p q limit cookie s"
| "exec_wait ipi me clock (Wake_thread t) s = wait_queue_wake_thread ipi me clock t s"
| "exec_wait ipi me clock (Signal_thread t fatal) s = wait_queue_signal_thread ipi me clock t fatal s"
| "exec_wait ipi me clock (Terminate_thread t) s = wait_queue_terminate_thread ipi me clock t s"
| "exec_wait ipi me clock (Expire now) s = map_option (\<lambda>s'. (0, s')) (wait_queue_expire ipi me clock now s)"

text \<open>The threads an operation is to wake, and the result they are woken with.\<close>

fun wakes :: "kernel \<Rightarrow> wait_op \<Rightarrow> nat set \<times> int" where
  "wakes s (Wake_one q) = (set (take 1 (waiters s q)), 0)"
| "wakes s (Wake_all q) = (set (waiters s q), 0)"
| "wakes s (Wake_mask q limit bits) =
     (set (take (nat limit) (filter (\<lambda>t. wait_bitset (threads s t) AND bits \<noteq> 0) (waiters s q))), 0)"
| "wakes s (Requeue p q limit cookie) = ({}, 0)"
| "wakes s (Wake_thread t) = (if sleeping_on s t then {t} else {}, 0)"
| "wakes s (Signal_thread t fatal) = (if signal_wakes s t fatal then {t} else {}, WAIT_QUEUE_INTERRUPTED)"
| "wakes s (Terminate_thread t) = (if sleeping_on s t then {t} else {}, WAIT_QUEUE_TERMINATED)"
| "wakes s (Expire now) =
     ({t \<in> set (timeout_queue s). wait_deadline (threads s t) \<le> now}, WAIT_QUEUE_TIMEOUT)"

lemma wake_all_spec:
  assumes ok: "kernel_ok s" and ipi: "\<forall>h. ipi h = 0"
  shows "\<exists>s'. wait_queue_wake_all ipi me clock q s = Some (int (length (waiters s q)), s') \<and> kernel_ok s' \<and>
    woke (set (waiters s q)) 0 s s'"
  using wake_all_loop_spec [OF ok ipi refl, of me clock q 0] by (simp add: wait_queue_wake_all_def)

lemma wake_mask_spec:
  assumes ok: "kernel_ok s" and ipi: "\<forall>h. ipi h = 0"
  shows "\<exists>n s'. wait_queue_wake_mask ipi me clock q limit bits s = Some (n, s') \<and> kernel_ok s' \<and>
    woke (set (take (nat limit) (filter (\<lambda>t. wait_bitset (threads s t) AND bits \<noteq> 0) (waiters s q)))) 0 s s'"
proof (cases "limit \<le> 0 \<or> bits = 0")
  case True
  then show ?thesis
    using ok by (auto simp: wait_queue_wake_mask_def woke_refl)
next
  case False
  then show ?thesis
    using wake_mask_loop_spec [OF ok ipi waiters_distinct [OF ok], of q q me clock limit bits 0]
      waiters_waiting [OF ok] by (auto simp: wait_queue_wake_mask_def)
qed

lemma requeue_spec:
  assumes ok: "kernel_ok s"
  shows "\<exists>n s'. wait_queue_requeue p q limit cookie s = Some (n, s') \<and> kernel_ok s' \<and>
    requeued p q cookie (if p = q then 0 else nat limit) s s'"
proof (cases "p = q \<or> limit \<le> 0")
  case True
  then show ?thesis
    using ok by (auto simp: wait_queue_requeue_def requeued_def)
next
  case False
  then show ?thesis
    using requeue_loop_spec [OF ok, of p q "nat limit" cookie 0] by (auto simp: wait_queue_requeue_def)
qed

text \<open>Two sleepers of a queue, for the examples: thread 3 waits with deadline 10, thread 5 without;
  thread 4 runs.\<close>

definition demo_sleeper :: "u64 \<Rightarrow> thread" where
  "demo_sleeper d = demo_thread\<lparr>state := THREAD_SLEEPING, waiting_on := Some 7, on_waitqueue := True,
     wait_deadline := d, on_timeout_queue := (d \<noteq> 0)\<rparr>"

definition demo_waiting :: kernel where
  "demo_waiting = (scheduler_init demo_kernel)\<lparr>
     threads := (threads demo_kernel)(3 := demo_sleeper 10, 5 := demo_sleeper 0,
       4 := demo_thread\<lparr>state := THREAD_RUNNING\<rparr>),
     cpus := [demo_cpu\<lparr>current := Some 4\<rparr>, demo_cpu],
     waiters := (\<lambda>q. if q = 7 then [3, 5] else []), timeout_queue := [3]\<rparr>"

lemma demo_waiting_ok: "kernel_ok demo_waiting"
proof -
  have "wait_ok demo_waiting"
    by (auto simp: wait_ok_def demo_waiting_def scheduler_init_def demo_kernel_def demo_sleeper_def
      demo_thread_def NTHREAD_def)
  moreover have "queue_inv demo_waiting []" "weights_ok demo_waiting"
    by (simp_all add: queue_inv_def weights_ok_def demo_waiting_def scheduler_init_def rb_holds_empty
      demo_kernel_def demo_sleeper_def demo_thread_def demo_entity_def nice_weights_def)
  moreover have "on_cpus current (cpus demo_waiting) i = (if i = 0 then Some 4 else None)"
    "on_cpus selected (cpus demo_waiting) i = None" for i
    by (auto simp: on_cpus_def demo_waiting_def demo_cpu_def nth_Cons split: nat.splits)
  then have "view_ok (view demo_waiting)"
    by (auto simp: view_ok_def) (simp_all add: demo_waiting_def scheduler_init_def demo_kernel_def
      demo_sleeper_def demo_thread_def demo_entity_def NTHREAD_def split: if_splits)
  ultimately show ?thesis
    by (auto simp: kernel_ok_def sched_ok_def queue_ok_def)
qed

text \<open>C5. Wait queue operations wake exactly whom they promise. From every state in which the
  scheduler and the wait queues are consistent, each operation (waking one, all, or the first \<open>limit\<close>
  sleepers whose bit set meets the mask, in queue order; waking, signalling or terminating a given
  thread; expiring timeouts) returns without a panic. It makes runnable, with its own result,
  exactly the threads it names, takes them off the wait queue and the timeout queue, and leaves
  every other thread and the order of every queue untouched; the state stays consistent.\<close>

theorem wait_wakes_exactly:
  assumes "kernel_ok s" "\<forall>h. ipi h = 0" "\<forall>p q limit cookie. op \<noteq> Requeue p q limit cookie"
  shows "\<exists>n s'. exec_wait ipi me clock op s = Some (n, s') \<and> kernel_ok s' \<and>
    woke (fst (wakes s op)) (snd (wakes s op)) s s'"
proof (cases op)
  case (Wake_one q)
  then show ?thesis
    using wake_one_spec [OF assms(1,2), of me clock q] by auto
next
  case (Wake_all q)
  then show ?thesis
    using wake_all_spec [OF assms(1,2), of me clock q] by auto
next
  case (Wake_mask q limit bits)
  then show ?thesis
    using wake_mask_spec [OF assms(1,2), of me clock q limit bits] by auto
next
  case (Wake_thread t)
  then show ?thesis
    using wake_thread_spec [OF assms(1,2), of me clock t] by auto
next
  case (Signal_thread t fatal)
  then show ?thesis
    using signal_thread_spec [OF assms(1,2), of me clock t fatal] by auto
next
  case (Terminate_thread t)
  then show ?thesis
    using terminate_thread_spec [OF assms(1,2), of me clock t] by auto
next
  case (Expire now)
  then show ?thesis
    using expire_spec [OF assms(1,2) refl, of me clock now] by auto
qed (use assms(3) in blast)

theorem wait_wakes_exactly_witness:
  "\<exists>n s'. exec_wait (\<lambda>h. 0) 0 (\<lambda>t. 4) (Expire 12) demo_waiting = Some (n, s') \<and> kernel_ok s' \<and>
     woke {3} (-1) demo_waiting s'"
proof -
  have "{t \<in> set (timeout_queue demo_waiting). wait_deadline (threads demo_waiting t) \<le> 12} = {3}"
    by (auto simp: demo_waiting_def demo_sleeper_def)
  then show ?thesis
    using wait_wakes_exactly [OF demo_waiting_ok, of "\<lambda>h. 0" "Expire 12" 0 "\<lambda>t. 4"]
    by (simp add: WAIT_QUEUE_TIMEOUT_def)
qed

text \<open>C6. No lost sleeper. A running thread that calls a sleep operation never panics. Either it
  ends up asleep as the last entry of the queue with its deadline in the timeout queue; or it
  returns "interrupted", which only happens in a signal-aware mode, or terminates, and then every
  queue is exactly as before. In all cases the scheduler and the wait queues stay consistent.\<close>

theorem wait_sleep_sound:
  assumes "kernel_ok s" "i < length (cpus s)" "current (cpus s ! i) = Some t"
    "state (threads s t) = THREAD_RUNNING"
  shows "\<exists>r s'. wait_queue_sleep_deadline i now q d m ex pending ex' sq s = Some (r, s') \<and> kernel_ok s' \<and>
    sleep_result q t d m s r s'"
  by (rule sleep_deadline_spec [OF assms])

theorem wait_sleep_sound_witness:
  "\<exists>r s'. wait_queue_sleep_deadline 0 6 7 20 0 False False False 0 demo_waiting = Some (r, s') \<and>
     kernel_ok s' \<and> sleep_result 7 4 20 0 demo_waiting r s'"
  by (rule wait_sleep_sound [OF demo_waiting_ok])
    (simp_all add: demo_waiting_def)

text \<open>C7. Requeueing keeps the order and loses nobody: the first \<open>limit\<close> sleepers of the source are
  appended to the destination in their order, still asleep and with their deadlines; the rest of
  the source and every other queue is untouched.\<close>

theorem wait_requeue_order:
  assumes "kernel_ok s" "p \<noteq> q"
  shows "\<exists>n s'. wait_queue_requeue p q limit cookie s = Some (n, s') \<and> kernel_ok s' \<and>
    requeued p q cookie (nat limit) s s'"
  using requeue_spec [OF assms(1), of p q limit cookie] assms(2) by simp

theorem wait_requeue_order_witness:
  "\<exists>n s'. wait_queue_requeue 7 8 1 99 demo_waiting = Some (n, s') \<and> kernel_ok s' \<and>
     waiters s' 7 = [5] \<and> waiters s' 8 = [3]"
  using wait_requeue_order [OF demo_waiting_ok, of 7 8 1 99]
  by (auto simp: requeued_def demo_waiting_def)

end
