(* ===== verification/Pipe.thy ===== *)
theory Pipe
  imports Prelude
begin

text \<open>
  Pipes, \<^verbatim>\<open>kernel/fs/pipe.c\<close>: a ring buffer of one page between readers and writers. The 32-bit
  counters of the structure are naturals: the positions stay below the capacity, \<^verbatim>\<open>used\<close> never
  exceeds it, and request sizes are bounded by \<^verbatim>\<open>0x7fffffff\<close>, so no operation wraps.

  Every critical section under the pipe lock is one step. What other threads do to the pipe while
  the lock is released is an argument: a sleep consumes one element of the list of wake-ups, whose
  components say whether the sleep was interrupted and which state the woken thread finds; when the
  list is exhausted the thread is still asleep. User memory and its faults are the record
  \<open>user_memory\<close>. The effects an operation has on the rest of the system (bytes copied out, queues
  woken, the poll notification, the signal) are a list, in order.
\<close>

subsection \<open>Constants and state\<close>

definition PIPE_CAPACITY :: nat where
  "PIPE_CAPACITY = 4096"

definition PIPE_BUF :: nat where
  "PIPE_BUF = 4096"

definition VFS_OK :: int where "VFS_OK = 0"
definition VFS_ERR_BADF :: int where "VFS_ERR_BADF = -4"
definition VFS_ERR_INVAL :: int where "VFS_ERR_INVAL = -8"
definition VFS_ERR_MFILE :: int where "VFS_ERR_MFILE = -9"
definition VFS_ERR_NOMEM :: int where "VFS_ERR_NOMEM = -13"
definition VFS_ERR_FAULT :: int where "VFS_ERR_FAULT = -22"
definition VFS_ERR_AGAIN :: int where "VFS_ERR_AGAIN = -23"
definition VFS_ERR_PIPE :: int where "VFS_ERR_PIPE = -48"
definition VFS_ERR_INTR :: int where "VFS_ERR_INTR = -49"

definition VFS_OPEN_READ :: u32 where "VFS_OPEN_READ = 1"
definition VFS_OPEN_WRITE :: u32 where "VFS_OPEN_WRITE = 2"
definition VFS_OPEN_NONBLOCK :: u32 where "VFS_OPEN_NONBLOCK = 128"

definition VFS_POLL_IN :: u32 where "VFS_POLL_IN = 1"
definition VFS_POLL_OUT :: u32 where "VFS_POLL_OUT = 4"
definition VFS_POLL_ERR :: u32 where "VFS_POLL_ERR = 8"
definition VFS_POLL_HUP :: u32 where "VFS_POLL_HUP = 16"

record vfs_pipe =
  buffer :: "u8 list"
  read_position :: nat
  write_position :: nat
  used :: nat
  readers :: nat
  writers :: nat
  inode :: u64
  uid :: u32
  gid :: u32
  read_busy :: bool

record vfs_iovec =
  base :: u64
  iov_length :: nat

record user_memory =
  has_process :: bool
  bytes_at :: "u64 \<Rightarrow> u8"
  readable :: "u64 \<Rightarrow> nat \<Rightarrow> bool"
  writable :: "u64 \<Rightarrow> nat \<Rightarrow> bool"
  prefaults :: "u64 \<Rightarrow> nat \<Rightarrow> bool"

datatype pipe_effect =
    Copied u64 "u8 list"
  | Wake_readers
  | Wake_writers
  | Poll_notify
  | Raise_sigpipe

text \<open>A call has returned a value, its thread sleeps, or the kernel has panicked.\<close>

datatype pipe_outcome = Returns int | Sleeping | Panics

subsection \<open>Reading\<close>

primrec prefault_loop :: "user_memory \<Rightarrow> vfs_iovec list \<Rightarrow> nat \<Rightarrow> nat \<Rightarrow> int" where
  "prefault_loop u [] limit sofar = VFS_OK"
| "prefault_loop u (v # vs) limit sofar =
     (if \<not> sofar < limit then VFS_OK
      else
        (let chunk = min (iov_length v) (limit - sofar)
         in if \<not> prefaults u (base v) chunk then VFS_ERR_FAULT
            else prefault_loop u vs limit (sofar + chunk)))"

definition pipe_prefault_output :: "user_memory \<Rightarrow> bool \<Rightarrow> vfs_iovec list \<Rightarrow> nat \<Rightarrow> int" where
  "pipe_prefault_output u user_destination iovecs limit =
     (if \<not> user_destination then VFS_OK
      else if \<not> has_process u then VFS_ERR_FAULT
      else prefault_loop u iovecs limit 0)"

definition copy_out_chunk :: "bool \<Rightarrow> u64 \<Rightarrow> nat \<Rightarrow> nat \<Rightarrow> vfs_pipe \<Rightarrow> nat" where
  "copy_out_chunk user_destination destination limit copied p =
     (let contiguous = PIPE_CAPACITY - read_position p;
          chunk = min (min (limit - copied) (used p)) contiguous
      in if user_destination
         then min chunk (4096 - unat ((destination + of_nat copied) mod PGSIZE)) else chunk)"

partial_function (option) copy_out_loop ::
  "user_memory \<Rightarrow> bool \<Rightarrow> u64 \<Rightarrow> nat \<Rightarrow> nat \<Rightarrow> pipe_effect list \<Rightarrow> vfs_pipe \<Rightarrow>
     (nat \<times> int \<times> pipe_effect list \<times> vfs_pipe) option" where
  "copy_out_loop u user_destination destination limit copied effects p =
     (if \<not> (copied < limit \<and> used p > 0) then Some (copied, VFS_OK, effects, p)
      else
        (let chunk = copy_out_chunk user_destination destination limit copied p;
             address = destination + of_nat copied
         in if user_destination \<and> (\<not> has_process u \<or> \<not> writable u address chunk)
            then Some (copied, VFS_ERR_FAULT, effects, p)
            else copy_out_loop u user_destination destination limit (copied + chunk)
                   (effects @ [Copied address (take chunk (drop (read_position p) (buffer p)))])
                   (p\<lparr>read_position := (read_position p + chunk) mod PIPE_CAPACITY,
                      used := used p - chunk\<rparr>)))"

definition pipe_copy_out ::
  "user_memory \<Rightarrow> bool \<Rightarrow> u64 \<Rightarrow> nat \<Rightarrow> vfs_pipe \<Rightarrow> (nat \<times> int \<times> pipe_effect list \<times> vfs_pipe) option" where
  "pipe_copy_out u user_destination destination limit p =
     copy_out_loop u user_destination destination limit 0 [] p"

text \<open>The sum of the lengths, refused when it exceeds \<^verbatim>\<open>0x7fffffff\<close>.\<close>

primrec request_size :: "vfs_iovec list \<Rightarrow> nat \<Rightarrow> nat option" where
  "request_size [] requested = Some requested"
| "request_size (v # vs) requested =
     (if iov_length v > 0x7fffffff - requested then None
      else request_size vs (requested + iov_length v))"

text \<open>The loop that waits for data: ready, finished with a value, or asleep.\<close>

datatype read_wait = Read_ready vfs_pipe | Read_returns int vfs_pipe | Read_sleeps vfs_pipe

fun pipe_read_wait :: "u32 \<Rightarrow> (bool \<times> vfs_pipe) list \<Rightarrow> vfs_pipe \<Rightarrow> read_wait" where
  "pipe_read_wait flags wakes p =
     (if \<not> (used p = 0 \<or> read_busy p) then Read_ready p
      else if used p = 0 \<and> writers p = 0 \<and> \<not> read_busy p then Read_returns 0 p
      else if flags AND VFS_OPEN_NONBLOCK \<noteq> 0 then Read_returns VFS_ERR_AGAIN p
      else (case wakes of
          [] \<Rightarrow> Read_sleeps p
        | (interrupted, p') # wakes' \<Rightarrow>
            if interrupted then Read_returns VFS_ERR_INTR p' else pipe_read_wait flags wakes' p'))"

primrec readv_loop ::
  "user_memory \<Rightarrow> bool \<Rightarrow> vfs_iovec list \<Rightarrow> nat \<Rightarrow> nat \<Rightarrow> pipe_effect list \<Rightarrow> vfs_pipe \<Rightarrow>
     (nat \<times> int \<times> pipe_effect list \<times> vfs_pipe) option" where
  "readv_loop u user_destination [] available sofar effects p = Some (sofar, VFS_OK, effects, p)"
| "readv_loop u user_destination (v # vs) available sofar effects p =
     (if \<not> sofar < available then Some (sofar, VFS_OK, effects, p)
      else
        (let len = min (iov_length v) (available - sofar) in
         case pipe_copy_out u user_destination (base v) len p of
           None \<Rightarrow> None
         | Some (copied, error, es, p') \<Rightarrow>
             if error < 0 \<or> copied \<noteq> len then Some (sofar + copied, error, effects @ es, p')
             else readv_loop u user_destination vs available (sofar + copied) (effects @ es) p'))"

text \<open>The end of a read: the reader is no longer busy, the queues are woken.\<close>

definition readv_finish :: "nat \<Rightarrow> int \<Rightarrow> pipe_effect list \<Rightarrow> vfs_pipe \<Rightarrow> pipe_outcome \<times> pipe_effect list \<times> vfs_pipe" where
  "readv_finish sofar error effects p =
     (Returns (if sofar \<noteq> 0 then int sofar else error),
      effects @ [Wake_readers] @ (if sofar \<noteq> 0 then [Wake_writers, Poll_notify] else []),
      p\<lparr>read_busy := False\<rparr>)"

text \<open>\<open>meanwhile\<close> is what other threads do to the pipe while the output pages are faulted in with
  the lock released.\<close>

definition pipe_readv ::
  "user_memory \<Rightarrow> (vfs_pipe \<Rightarrow> vfs_pipe) \<Rightarrow> (bool \<times> vfs_pipe) list \<Rightarrow> u32 \<Rightarrow> bool \<Rightarrow> vfs_iovec list \<Rightarrow>
     vfs_pipe \<Rightarrow> (pipe_outcome \<times> pipe_effect list \<times> vfs_pipe) option" where
  "pipe_readv u meanwhile wakes flags user_destination iovecs p =
     (case request_size iovecs 0 of
        None \<Rightarrow> Some (Returns VFS_ERR_INVAL, [], p)
      | Some requested \<Rightarrow>
          if requested = 0 then Some (Returns 0, [], p)
          else (case pipe_read_wait flags wakes p of
              Read_sleeps p1 \<Rightarrow> Some (Sleeping, [], p1)
            | Read_returns r p1 \<Rightarrow> Some (Returns r, [], p1)
            | Read_ready p1 \<Rightarrow>
                (let available = min (used p1) requested;
                     p2 = meanwhile (p1\<lparr>read_busy := True\<rparr>);
                     error = pipe_prefault_output u user_destination iovecs available
                 in if error < 0 then Some (readv_finish 0 error [] p2)
                    else map_option (\<lambda>(sofar, error, effects, p3). readv_finish sofar error effects p3)
                           (readv_loop u user_destination iovecs available 0 [] p2))))"

definition pipe_read ::
  "user_memory \<Rightarrow> (vfs_pipe \<Rightarrow> vfs_pipe) \<Rightarrow> (bool \<times> vfs_pipe) list \<Rightarrow> u32 \<Rightarrow> bool \<Rightarrow> u64 \<Rightarrow> nat \<Rightarrow>
     vfs_pipe \<Rightarrow> (pipe_outcome \<times> pipe_effect list \<times> vfs_pipe) option" where
  "pipe_read u meanwhile wakes flags user_destination destination n p =
     pipe_readv u meanwhile wakes flags user_destination [\<lparr>base = destination, iov_length = n\<rparr>] p"

subsection \<open>Writing\<close>

text \<open>\<open>memmove\<close> into the buffer.\<close>

definition store_at :: "nat \<Rightarrow> u8 list \<Rightarrow> u8 list \<Rightarrow> u8 list" where
  "store_at i bs xs = take i xs @ bs @ drop (i + length bs) xs"

definition pipe_copy_in :: "u8 list \<Rightarrow> nat \<Rightarrow> vfs_pipe \<Rightarrow> vfs_pipe" where
  "pipe_copy_in source n p =
     (let first = min n (PIPE_CAPACITY - write_position p);
          buf = store_at (write_position p) (take first source) (buffer p);
          buf = (if first < n then store_at 0 (take (n - first) (drop first source)) buf else buf)
      in p\<lparr>buffer := buf, write_position := (write_position p + n) mod PIPE_CAPACITY,
           used := used p + n\<rparr>)"

function write_staged_loop ::
  "u32 \<Rightarrow> u8 list \<Rightarrow> nat \<Rightarrow> bool \<Rightarrow> (bool \<times> vfs_pipe) list \<Rightarrow> nat \<Rightarrow> pipe_effect list \<Rightarrow> vfs_pipe \<Rightarrow>
     pipe_outcome \<times> pipe_effect list \<times> vfs_pipe" where
  "write_staged_loop flags source n atomic wakes sofar effects p =
     (if \<not> sofar < n then (Returns (int sofar), effects, p)
      else if readers p = 0
      then (Returns (if sofar \<noteq> 0 then int sofar else VFS_ERR_PIPE), effects @ [Raise_sigpipe], p)
      else
        (let available = PIPE_CAPACITY - used p in
         if (atomic \<and> available < n) \<or> available = 0
         then
           (if flags AND VFS_OPEN_NONBLOCK \<noteq> 0
            then (Returns (if sofar \<noteq> 0 then int sofar else VFS_ERR_AGAIN), effects, p)
            else (case wakes of
                [] \<Rightarrow> (Sleeping, effects, p)
              | (interrupted, p') # wakes' \<Rightarrow>
                  if interrupted
                  then (Returns (if sofar \<noteq> 0 then int sofar else VFS_ERR_INTR), effects, p')
                  else write_staged_loop flags source n atomic wakes' sofar effects p'))
         else
           (let chunk = min (n - sofar) available
            in write_staged_loop flags source n atomic wakes (sofar + chunk)
                 (effects @ [Wake_readers, Poll_notify]) (pipe_copy_in (drop sofar source) chunk p))))"
  by pat_completeness auto
termination
  by (relation "measures [\<lambda>(flags, source, n, atomic, wakes, sofar, effects, p). length wakes,
      \<lambda>(flags, source, n, atomic, wakes, sofar, effects, p). n - sofar]") auto

definition pipe_write_staged ::
  "u32 \<Rightarrow> u8 list \<Rightarrow> nat \<Rightarrow> bool \<Rightarrow> (bool \<times> vfs_pipe) list \<Rightarrow> vfs_pipe \<Rightarrow>
     pipe_outcome \<times> pipe_effect list \<times> vfs_pipe" where
  "pipe_write_staged flags source n atomic wakes p = write_staged_loop flags source n atomic wakes 0 [] p"

definition user_bytes :: "user_memory \<Rightarrow> u64 \<Rightarrow> nat \<Rightarrow> u8 list" where
  "user_bytes u a n = map (\<lambda>i. bytes_at u (a + of_nat i)) [0..<n]"

text \<open>\<^verbatim>\<open>either_copyin\<close>: a user source can fault, a kernel source cannot.\<close>

definition either_copyin :: "user_memory \<Rightarrow> bool \<Rightarrow> u64 \<Rightarrow> nat \<Rightarrow> u8 list option" where
  "either_copyin u user_source a n =
     (if user_source \<and> \<not> readable u a n then None else Some (user_bytes u a n))"

text \<open>The turns of the staged writes: what happened to the pipe before a staged write takes the
  lock, and the wake-ups it sees.\<close>

type_synonym turn = "(vfs_pipe \<Rightarrow> vfs_pipe) \<times> (bool \<times> vfs_pipe) list"

function write_user_loop ::
  "user_memory \<Rightarrow> (nat \<Rightarrow> turn) \<Rightarrow> u32 \<Rightarrow> bool \<Rightarrow> u64 \<Rightarrow> nat \<Rightarrow> bool \<Rightarrow> nat \<Rightarrow> pipe_effect list \<Rightarrow>
     vfs_pipe \<Rightarrow> pipe_outcome \<times> pipe_effect list \<times> vfs_pipe" where
  "write_user_loop u turns flags user_source source n atomic sofar effects p =
     (if \<not> sofar < n then (Returns (int sofar), effects, p)
      else
        (let chunk = (if n - sofar > 4096 then 4096 else n - sofar) in
         case either_copyin u user_source (source + of_nat sofar) chunk of
           None \<Rightarrow> (Returns (if sofar \<noteq> 0 then int sofar else VFS_ERR_FAULT), effects, p)
         | Some staging \<Rightarrow>
             (case pipe_write_staged flags staging chunk atomic (snd (turns sofar)) (fst (turns sofar) p) of
                (Sleeping, es, p') \<Rightarrow> (Sleeping, effects @ es, p')
              | (Panics, es, p') \<Rightarrow> (Panics, effects @ es, p')
              | (Returns result, es, p') \<Rightarrow>
                  if result < 0
                  then (Returns (if sofar \<noteq> 0 then int sofar else result), effects @ es, p')
                  else if nat result \<noteq> chunk
                  then (Returns (int sofar + result), effects @ es, p')
                  else write_user_loop u turns flags user_source source n atomic (sofar + nat result)
                         (effects @ es) p')))"
  by pat_completeness auto
termination
  by (relation "measure (\<lambda>(u, turns, flags, user_source, source, n, atomic, sofar, effects, p). n - sofar)")
    (auto split: if_splits)

text \<open>\<open>page\<close>: there is a free page for staging. \<^verbatim>\<open>palloc\<close> panics when there is none, so the
  \<^verbatim>\<open>VFS_ERR_NOMEM\<close> that follows its calls in the source is never returned.\<close>

definition pipe_write_user ::
  "user_memory \<Rightarrow> bool \<Rightarrow> (nat \<Rightarrow> turn) \<Rightarrow> u32 \<Rightarrow> bool \<Rightarrow> u64 \<Rightarrow> nat \<Rightarrow> bool \<Rightarrow> vfs_pipe \<Rightarrow>
     pipe_outcome \<times> pipe_effect list \<times> vfs_pipe" where
  "pipe_write_user u page turns flags user_source source n atomic p =
     (if n = 0 then (Returns 0, [], p)
      else if n > 0x7fffffff then (Returns VFS_ERR_INVAL, [], p)
      else if \<not> page then (Panics, [], p)
      else write_user_loop u turns flags user_source source n atomic 0 [] p)"

definition pipe_write ::
  "user_memory \<Rightarrow> bool \<Rightarrow> (nat \<Rightarrow> turn) \<Rightarrow> u32 \<Rightarrow> bool \<Rightarrow> u64 \<Rightarrow> nat \<Rightarrow> vfs_pipe \<Rightarrow>
     pipe_outcome \<times> pipe_effect list \<times> vfs_pipe" where
  "pipe_write u page turns flags user_source source n p =
     pipe_write_user u page turns flags user_source source n (n \<le> PIPE_BUF) p"

text \<open>Gathering the segments of a small vectored write in the staging page.\<close>

primrec gather :: "user_memory \<Rightarrow> bool \<Rightarrow> vfs_iovec list \<Rightarrow> u8 list option" where
  "gather u user_source [] = Some []"
| "gather u user_source (v # vs) =
     (case either_copyin u user_source (base v) (iov_length v) of
        None \<Rightarrow> None
      | Some bs \<Rightarrow> map_option (\<lambda>rest. bs @ rest) (gather u user_source vs))"

primrec writev_loop ::
  "user_memory \<Rightarrow> (nat \<Rightarrow> bool) \<Rightarrow> (nat \<Rightarrow> nat \<Rightarrow> turn) \<Rightarrow> u32 \<Rightarrow> bool \<Rightarrow> nat \<Rightarrow> vfs_iovec list \<Rightarrow> nat \<Rightarrow>
     pipe_effect list \<Rightarrow> vfs_pipe \<Rightarrow> pipe_outcome \<times> pipe_effect list \<times> vfs_pipe" where
  "writev_loop u pages turns flags user_source index [] sofar effects p = (Returns (int sofar), effects, p)"
| "writev_loop u pages turns flags user_source index (v # vs) sofar effects p =
     (case pipe_write_user u (pages index) (turns index) flags user_source (base v) (iov_length v) False p of
        (Sleeping, es, p') \<Rightarrow> (Sleeping, effects @ es, p')
      | (Panics, es, p') \<Rightarrow> (Panics, effects @ es, p')
      | (Returns result, es, p') \<Rightarrow>
          if result < 0 then (Returns (if sofar \<noteq> 0 then int sofar else result), effects @ es, p')
          else if nat result \<noteq> iov_length v then (Returns (int sofar + result), effects @ es, p')
          else writev_loop u pages turns flags user_source (Suc index) vs (sofar + nat result)
                 (effects @ es) p')"

definition pipe_writev ::
  "user_memory \<Rightarrow> (nat \<Rightarrow> bool) \<Rightarrow> (nat \<Rightarrow> nat \<Rightarrow> turn) \<Rightarrow> u32 \<Rightarrow> bool \<Rightarrow> vfs_iovec list \<Rightarrow> vfs_pipe \<Rightarrow>
     pipe_outcome \<times> pipe_effect list \<times> vfs_pipe" where
  "pipe_writev u pages turns flags user_source iovecs p =
     (case request_size iovecs 0 of
        None \<Rightarrow> (Returns VFS_ERR_INVAL, [], p)
      | Some sofar \<Rightarrow>
          if sofar = 0 then (Returns 0, [], p)
          else if sofar \<le> PIPE_BUF
          then
            (if \<not> pages 0 then (Panics, [], p)
             else (case gather u user_source iovecs of
                 None \<Rightarrow> (Returns VFS_ERR_FAULT, [], p)
               | Some staging \<Rightarrow>
                   pipe_write_staged flags staging sofar True (snd (turns 0 0)) (fst (turns 0 0) p)))
          else writev_loop u pages turns flags user_source 0 iovecs 0 [] p)"

subsection \<open>Polling, attributes, creation and release\<close>

definition pipe_poll :: "u32 \<Rightarrow> u32 \<Rightarrow> vfs_pipe \<Rightarrow> u32" where
  "pipe_poll flags events p =
     (if flags AND VFS_OPEN_READ \<noteq> 0
      then (if events AND VFS_POLL_IN \<noteq> 0 \<and> used p \<noteq> 0 then VFS_POLL_IN else 0) OR
           (if writers p = 0 then VFS_POLL_HUP else 0)
      else if readers p = 0 then VFS_POLL_ERR
      else if events AND VFS_POLL_OUT \<noteq> 0 \<and> used p < PIPE_CAPACITY then VFS_POLL_OUT
      else 0)"

datatype vfs_inode_type = VFS_INODE_FIFO

record vfs_stat =
  ino :: u64
  inode_type :: vfs_inode_type
  mode :: u32
  stat_uid :: u32
  stat_gid :: u32
  nlink :: u32
  block_size :: u32

definition pipe_getattr :: "vfs_pipe \<Rightarrow> vfs_stat" where
  "pipe_getattr p =
     \<lparr>ino = inode p, inode_type = VFS_INODE_FIFO, mode = 0x180, stat_uid = uid p, stat_gid = gid p,
      nlink = 1, block_size = 4096\<rparr>"

text \<open>Closing one end. The pipe is destroyed (\<open>None\<close> as the new state) with its last end;
  \<open>asleep_read\<close> and \<open>asleep_write\<close> say whether its wait queues are occupied then. The outer
  \<^const>\<open>None\<close> is a panic.\<close>

definition pipe_release ::
  "bool \<Rightarrow> bool \<Rightarrow> u32 \<Rightarrow> vfs_pipe \<Rightarrow> (pipe_effect list \<times> vfs_pipe option) option" where
  "pipe_release asleep_read asleep_write flags p =
     (let reading = flags AND VFS_OPEN_READ \<noteq> 0; writing = flags AND VFS_OPEN_WRITE \<noteq> 0 in
      if reading \<and> readers p = 0 then None
      else
        (let p1 = (if reading then p\<lparr>readers := readers p - 1\<rparr> else p) in
         if writing \<and> writers p1 = 0 then None
         else
           (let p2 = (if writing then p1\<lparr>writers := writers p1 - 1\<rparr> else p1);
                effects = (if reading then [Wake_writers] else []) @
                  (if writing then [Wake_readers] else []) @ [Poll_notify]
            in if \<not> (readers p2 = 0 \<and> writers p2 = 0) then Some (effects, Some p2)
               else if asleep_read \<or> asleep_write then None
               else Some (effects, None))))"

text \<open>What the allocators and the descriptor table answer.\<close>

record pipe_alloc =
  malloc_ok :: bool
  palloc_page :: "u8 list option"
  read_file_ok :: bool
  write_file_ok :: bool
  install_read :: int
  install_write :: int

definition new_pipe :: "u64 \<Rightarrow> u32 \<Rightarrow> u32 \<Rightarrow> u8 list \<Rightarrow> vfs_pipe" where
  "new_pipe next_inode fsuid fsgid page =
     \<lparr>buffer = page, read_position = 0, write_position = 0, used = 0, readers = 1, writers = 1,
      inode = next_inode, uid = fsuid, gid = fsgid, read_busy = False\<rparr>"

text \<open>The result, the pipe if it survives, and the flags of the two files. When installing a
  descriptor fails both files are closed, which releases both ends. The outer \<^const>\<open>None\<close> is a panic:
  \<open>palloc_page = None\<close> says that no page is free, and then \<^verbatim>\<open>palloc\<close> panics.\<close>

definition close_both :: "u32 \<Rightarrow> vfs_pipe \<Rightarrow> vfs_pipe option option" where
  "close_both file_flags p =
     (case pipe_release False False (VFS_OPEN_READ OR file_flags) p of
        None \<Rightarrow> None
      | Some (es, None) \<Rightarrow> Some None
      | Some (es, Some p') \<Rightarrow> map_option snd (pipe_release False False (VFS_OPEN_WRITE OR file_flags) p'))"

definition vfs_pipe_create ::
  "pipe_alloc \<Rightarrow> u64 \<Rightarrow> u32 \<Rightarrow> u32 \<Rightarrow> u32 \<Rightarrow> (int \<times> (vfs_pipe \<times> u32 \<times> u32) option) option" where
  "vfs_pipe_create a next_inode fsuid fsgid file_flags =
     (if file_flags AND NOT VFS_OPEN_NONBLOCK \<noteq> 0 then Some (VFS_ERR_INVAL, None)
      else if \<not> malloc_ok a then Some (VFS_ERR_NOMEM, None)
      else (case palloc_page a of
          None \<Rightarrow> None
        | Some page \<Rightarrow>
            if \<not> read_file_ok a \<or> \<not> write_file_ok a then Some (VFS_ERR_MFILE, None)
            else
              (let p = new_pipe next_inode fsuid fsgid page;
                   both = \<lambda>q. (q, VFS_OPEN_READ OR file_flags, VFS_OPEN_WRITE OR file_flags)
               in if install_read a < 0
                  then map_option (\<lambda>q. (install_read a, map_option both q)) (close_both file_flags p)
                  else if install_write a < 0
                  then map_option (\<lambda>q. (install_write a, map_option both q)) (close_both file_flags p)
                  else Some (VFS_OK, Some (both p)))))"

text \<open>The unconditional equations of the loops are used one step at a time.\<close>

declare pipe_read_wait.simps [simp del] write_staged_loop.simps [simp del] write_user_loop.simps [simp del]

end
