(* ===== verification/Pipe_Ring.thy ===== *)
theory Pipe_Ring
  imports Pipe
begin

text \<open>
  The ring buffer of a pipe refines a bounded first-in first-out sequence of bytes: the contract of
  such a sequence as a locale, its consequence for any series of operations, and the proof that
  \<^const>\<open>pipe_copy_in\<close> and \<^const>\<open>pipe_copy_out\<close> keep it.
\<close>

subsection \<open>The contract of a byte stream\<close>

datatype stream_op = Push "u8 list" | Pop nat

fun run_stream ::
  "(u8 list \<Rightarrow> 'q \<Rightarrow> 'q) \<Rightarrow> (nat \<Rightarrow> 'q \<Rightarrow> (u8 list \<times> 'q) option) \<Rightarrow> stream_op list \<Rightarrow> 'q \<Rightarrow> (u8 list \<times> 'q) option" where
  "run_stream push pop [] q = Some ([], q)"
| "run_stream push pop (Push bs # ops) q = run_stream push pop ops (push bs q)"
| "run_stream push pop (Pop n # ops) q =
     (case pop n q of
        None \<Rightarrow> None
      | Some (bs, q') \<Rightarrow> map_option (\<lambda>(rest, q''). (bs @ rest, q'')) (run_stream push pop ops q'))"

fun pushed :: "stream_op list \<Rightarrow> u8 list" where
  "pushed [] = []"
| "pushed (Push bs # ops) = bs @ pushed ops"
| "pushed (Pop n # ops) = pushed ops"

text \<open>The pushes of a series fit, given how many bytes are held at the start.\<close>

fun fits :: "nat \<Rightarrow> nat \<Rightarrow> stream_op list \<Rightarrow> bool" where
  "fits capacity held [] \<longleftrightarrow> True"
| "fits capacity held (Push bs # ops) \<longleftrightarrow>
     held + length bs \<le> capacity \<and> fits capacity (held + length bs) ops"
| "fits capacity held (Pop n # ops) \<longleftrightarrow> fits capacity (held - n) ops"

locale byte_stream =
  fixes invar :: "'q \<Rightarrow> bool"
    and content :: "'q \<Rightarrow> u8 list"
    and push :: "u8 list \<Rightarrow> 'q \<Rightarrow> 'q"
    and pop :: "nat \<Rightarrow> 'q \<Rightarrow> (u8 list \<times> 'q) option"
    and capacity :: nat
  assumes push_invar: "invar q \<Longrightarrow> length (content q) + length bs \<le> capacity \<Longrightarrow> invar (push bs q)"
    and push_content: "invar q \<Longrightarrow> length (content q) + length bs \<le> capacity \<Longrightarrow>
      content (push bs q) = content q @ bs"
    and pop_content: "invar q \<Longrightarrow>
      \<exists>q'. pop n q = Some (take n (content q), q') \<and> invar q' \<and> content q' = drop n (content q)"
begin

lemma stream_order:
  assumes "invar q" "fits capacity (length (content q)) ops"
  shows "\<exists>out q'. run_stream push pop ops q = Some (out, q') \<and> invar q' \<and>
    out @ content q' = content q @ pushed ops"
  using assms
proof (induction ops arbitrary: q rule: pushed.induct [case_names Nil Push Pop])
  case Nil
  then show ?case
    by simp
next
  case (Push bs ops)
  then have "invar (push bs q)" "content (push bs q) = content q @ bs"
    using push_invar push_content by simp_all
  then show ?case
    using Push.IH [of "push bs q"] Push.prems(2) by simp
next
  case (Pop n ops)
  obtain q' where q': "pop n q = Some (take n (content q), q')" "invar q'" "content q' = drop n (content q)"
    using pop_content [OF Pop.prems(1)] by blast
  then obtain out q'' where "run_stream push pop ops q' = Some (out, q'')" "invar q''"
    "out @ content q'' = drop n (content q) @ pushed ops"
    using Pop.IH [of q'] Pop.prems(2) by auto
  moreover from this(3) have "(take n (content q) @ out) @ content q'' = content q @ pushed ops"
    by (metis append.assoc append_take_drop_id)
  ultimately show ?case
    using q'(1,2) by simp
qed

end

subsection \<open>The ring\<close>

definition pipe_ok :: "vfs_pipe \<Rightarrow> bool" where
  "pipe_ok p \<longleftrightarrow> length (buffer p) = PIPE_CAPACITY \<and> read_position p < PIPE_CAPACITY \<and>
     used p \<le> PIPE_CAPACITY \<and> write_position p = (read_position p + used p) mod PIPE_CAPACITY"

definition contents :: "vfs_pipe \<Rightarrow> u8 list" where
  "contents p = map (\<lambda>i. buffer p ! ((read_position p + i) mod PIPE_CAPACITY)) [0..<used p]"

lemma length_contents [simp]: "length (contents p) = used p"
  by (simp add: contents_def)

lemma nth_contents: "i < used p \<Longrightarrow> contents p ! i = buffer p ! ((read_position p + i) mod PIPE_CAPACITY)"
  by (simp add: contents_def)

lemma contents_cong:
  "buffer q = buffer p \<Longrightarrow> read_position q = read_position p \<Longrightarrow> used q = used p \<Longrightarrow> contents q = contents p"
  by (simp add: contents_def)

lemma pipe_ok_cong:
  "buffer q = buffer p \<Longrightarrow> read_position q = read_position p \<Longrightarrow> write_position q = write_position p \<Longrightarrow>
     used q = used p \<Longrightarrow> pipe_ok q = pipe_ok p"
  by (simp add: pipe_ok_def)

lemma length_store_at [simp]: "i + length bs \<le> length xs \<Longrightarrow> length (store_at i bs xs) = length xs"
  by (simp add: store_at_def)

lemma nth_store_at:
  "i + length bs \<le> length xs \<Longrightarrow> j < length xs \<Longrightarrow>
     store_at i bs xs ! j = (if i \<le> j \<and> j < i + length bs then bs ! (j - i) else xs ! j)"
  by (auto simp: store_at_def nth_append)

text \<open>Distances around the ring.\<close>

definition ring_offset :: "nat \<Rightarrow> nat \<Rightarrow> nat" where
  "ring_offset w j = (if w \<le> j then j - w else PIPE_CAPACITY - w + j)"

lemma ring_mod: "a < PIPE_CAPACITY \<Longrightarrow> b \<le> PIPE_CAPACITY \<Longrightarrow>
    (a + b) mod PIPE_CAPACITY = (if a + b < PIPE_CAPACITY then a + b else a + b - PIPE_CAPACITY)"
  by (simp add: le_mod_geq)

lemma ring_offset_held:
  assumes "r < PIPE_CAPACITY" "u \<le> PIPE_CAPACITY" "i < u"
  shows "ring_offset ((r + u) mod PIPE_CAPACITY) ((r + i) mod PIPE_CAPACITY) = PIPE_CAPACITY - u + i"
proof -
  have i: "i \<le> PIPE_CAPACITY"
    using assms by simp
  show ?thesis
    unfolding ring_offset_def ring_mod [OF assms(1,2)] ring_mod [OF assms(1) i]
    using assms by (auto split: if_splits)
qed

lemma ring_offset_new:
  assumes "r < PIPE_CAPACITY" "u + k < PIPE_CAPACITY"
  shows "ring_offset ((r + u) mod PIPE_CAPACITY) ((r + (u + k)) mod PIPE_CAPACITY) = k"
proof -
  have u: "u \<le> PIPE_CAPACITY" "u + k \<le> PIPE_CAPACITY"
    using assms by simp_all
  show ?thesis
    unfolding ring_offset_def ring_mod [OF assms(1) u(1)] ring_mod [OF assms(1) u(2)]
    using assms by (cases "r + u < PIPE_CAPACITY"; cases "r + (u + k) < PIPE_CAPACITY") simp_all
qed

lemma copy_in_buffer_eq:
  assumes "n \<le> length source"
  shows "buffer (pipe_copy_in source n p) =
    (let w = write_position p; room = PIPE_CAPACITY - w in
     if n \<le> room then store_at w (take n source) (buffer p)
     else store_at 0 (take (n - room) (drop room source)) (store_at w (take room source) (buffer p)))"
  by (simp add: pipe_copy_in_def Let_def min_def)

lemma copy_in_buffer:
  assumes p: "length (buffer p) = PIPE_CAPACITY" "write_position p < PIPE_CAPACITY"
    and n: "n \<le> length source" "n \<le> PIPE_CAPACITY"
  shows "length (buffer (pipe_copy_in source n p)) = PIPE_CAPACITY"
    and "j < PIPE_CAPACITY \<Longrightarrow> buffer (pipe_copy_in source n p) ! j =
      (if ring_offset (write_position p) j < n then source ! ring_offset (write_position p) j
       else buffer p ! j)"
proof -
  define w where "w = write_position p"
  define room where "room = PIPE_CAPACITY - w"
  have room: "w + room = PIPE_CAPACITY" "0 < room"
    using p by (simp_all add: w_def room_def)
  note eq = copy_in_buffer_eq [OF n(1), of p, folded w_def room_def, unfolded Let_def, folded room_def]
  show "length (buffer (pipe_copy_in source n p)) = PIPE_CAPACITY"
  proof (cases "n \<le> room")
    case True
    then show ?thesis
      using n p(1) room by (simp add: eq)
  next
    case False
    have "length (store_at w (take room source) (buffer p)) = PIPE_CAPACITY"
      using False n p(1) room by simp
    then show ?thesis
      using False n room by (simp add: eq)
  qed
  assume j: "j < PIPE_CAPACITY"
  have off: "ring_offset w j = (if w \<le> j then j - w else room + j)"
    by (simp add: ring_offset_def room_def)
  show "buffer (pipe_copy_in source n p) ! j =
      (if ring_offset (write_position p) j < n then source ! ring_offset (write_position p) j else buffer p ! j)"
    unfolding w_def [symmetric]
  proof (cases "n \<le> room")
    case True
    then have "w + length (take n source) \<le> length (buffer p)" "j < length (buffer p)"
      using n p(1) room j by simp_all
    then show "buffer (pipe_copy_in source n p) ! j =
      (if ring_offset w j < n then source ! ring_offset w j else buffer p ! j)"
      using True n by (cases "w \<le> j") (simp_all add: eq nth_store_at off less_diff_conv2 add.commute)
  next
    case False
    have "w + length (take room source) \<le> length (buffer p)" "j < length (buffer p)"
      using False n p(1) room j by simp_all
    then have tail: "length (store_at w (take room source) (buffer p)) = PIPE_CAPACITY"
      "store_at w (take room source) (buffer p) ! j = (if w \<le> j then source ! (j - w) else buffer p ! j)"
      using False n p(1) room j by (simp_all add: nth_store_at)
    have rest: "0 + length (take (n - room) (drop room source)) \<le> PIPE_CAPACITY"
      "length (take (n - room) (drop room source)) = n - room"
      using False n room by simp_all
    show "buffer (pipe_copy_in source n p) ! j =
      (if ring_offset w j < n then source ! ring_offset w j else buffer p ! j)"
    proof (cases "w \<le> j")
      case True
      then have "\<not> j < n - room" "j - w < n"
        using False n(2) room j by linarith+
      then show ?thesis
        using False True j tail rest by (simp add: eq nth_store_at off)
    next
      case head: False
      have "j < n - room \<longleftrightarrow> room + j < n"
        by linarith
      then show ?thesis
        using False head n j tail rest by (simp add: eq nth_store_at off)
    qed
  qed
qed

lemma copy_in_simps [simp]:
  "used (pipe_copy_in source n p) = used p + n"
  "write_position (pipe_copy_in source n p) = (write_position p + n) mod PIPE_CAPACITY"
  "read_position (pipe_copy_in source n p) = read_position p"
  "readers (pipe_copy_in source n p) = readers p" "writers (pipe_copy_in source n p) = writers p"
  "read_busy (pipe_copy_in source n p) = read_busy p"
  by (simp_all add: pipe_copy_in_def Let_def)

lemma copy_in_ok:
  assumes p: "pipe_ok p" and n: "n \<le> length source" "used p + n \<le> PIPE_CAPACITY"
  shows "pipe_ok (pipe_copy_in source n p)"
  using copy_in_buffer(1) [of p n source] assms
  by (simp add: pipe_ok_def mod_add_left_eq add.assoc)

lemma copy_in_contents:
  assumes p: "pipe_ok p" and n: "n \<le> length source" "used p + n \<le> PIPE_CAPACITY"
  shows "contents (pipe_copy_in source n p) = contents p @ take n source"
proof (rule nth_equalityI)
  show "length (contents (pipe_copy_in source n p)) = length (contents p @ take n source)"
    using n by simp
next
  fix i
  assume "i < length (contents (pipe_copy_in source n p))"
  then have i: "i < used p + n"
    by simp
  have r: "read_position p < PIPE_CAPACITY" "used p \<le> PIPE_CAPACITY"
    and w: "write_position p = (read_position p + used p) mod PIPE_CAPACITY"
    using p by (simp_all add: pipe_ok_def)
  let ?j = "(read_position p + i) mod PIPE_CAPACITY"
  have j: "?j < PIPE_CAPACITY" "write_position p < PIPE_CAPACITY" "n \<le> PIPE_CAPACITY"
    using r w n by simp_all
  have nth: "contents (pipe_copy_in source n p) ! i =
      (if ring_offset (write_position p) ?j < n then source ! ring_offset (write_position p) ?j
       else buffer p ! ?j)"
    using i p j n copy_in_buffer(2) [of p n source ?j] by (simp add: nth_contents pipe_ok_def)
  show "contents (pipe_copy_in source n p) ! i = (contents p @ take n source) ! i"
  proof (cases "i < used p")
    case True
    then have "ring_offset (write_position p) ?j = PIPE_CAPACITY - used p + i"
      unfolding w using r by (intro ring_offset_held) auto
    then have "\<not> ring_offset (write_position p) ?j < n"
      using n by simp
    then have "contents (pipe_copy_in source n p) ! i = buffer p ! ?j"
      using nth by (simp only: if_False)
    then show ?thesis
      using True by (simp add: nth_append nth_contents del: mod_less)
  next
    case False
    then obtain k where k: "i = used p + k"
      by (metis le_add_diff_inverse not_less)
    then have "ring_offset (write_position p) ?j = k"
      unfolding w k using r i n k by (intro ring_offset_new) auto
    then show ?thesis
      using k i n nth by (simp add: nth_append)
  qed
qed

subsection \<open>Copying out\<close>

definition consume :: "nat \<Rightarrow> vfs_pipe \<Rightarrow> vfs_pipe" where
  "consume n p = p\<lparr>read_position := (read_position p + n) mod PIPE_CAPACITY, used := used p - n\<rparr>"

lemma consume_simps [simp]:
  "used (consume n p) = used p - n" "readers (consume n p) = readers p"
  "writers (consume n p) = writers p" "read_busy (consume n p) = read_busy p"
  by (simp_all add: consume_def)

lemma consume_ok:
  assumes "pipe_ok p" "n \<le> used p"
  shows "pipe_ok (consume n p)"
proof -
  obtain k where "used p = n + k"
    using assms(2) le_Suc_ex by blast
  then show ?thesis
    using assms(1) by (simp add: pipe_ok_def consume_def mod_add_left_eq add.assoc)
qed

lemma consume_contents: "pipe_ok p \<Longrightarrow> n \<le> used p \<Longrightarrow> contents (consume n p) = drop n (contents p)"
  by (rule nth_equalityI) (simp_all add: nth_contents consume_def mod_add_left_eq add.assoc)

lemma consume_consume: "consume m (consume n p) = consume (n + m) p"
  by (simp add: consume_def mod_add_left_eq add.assoc)

lemma contiguous_bytes:
  assumes "pipe_ok p" "n \<le> used p" "n \<le> PIPE_CAPACITY - read_position p"
  shows "take n (drop (read_position p) (buffer p)) = take n (contents p)"
  using assms by (intro nth_equalityI) (simp_all add: nth_contents pipe_ok_def)

fun delivered :: "pipe_effect list \<Rightarrow> u8 list" where
  "delivered [] = []"
| "delivered (Copied a bs # es) = bs @ delivered es"
| "delivered (e # es) = delivered es"

lemma delivered_append [simp]: "delivered (es @ fs) = delivered es @ delivered fs"
  by (induction es rule: delivered.induct) simp_all

text \<open>The copies follow each other in memory from address \<open>a\<close>.\<close>

fun lands :: "u64 \<Rightarrow> pipe_effect list \<Rightarrow> bool" where
  "lands a [] \<longleftrightarrow> True"
| "lands a (Copied b bs # es) \<longleftrightarrow> b = a \<and> lands (a + of_nat (length bs)) es"
| "lands a (e # es) \<longleftrightarrow> False"

text \<open>What copying out of \<open>p\<close> promises: \<open>n\<close> bytes were taken from the front and copied to
  consecutive addresses; fewer than asked for only after a fault.\<close>

definition copied_out :: "bool \<Rightarrow> u64 \<Rightarrow> nat \<Rightarrow> nat \<Rightarrow> int \<Rightarrow> pipe_effect list \<Rightarrow> vfs_pipe \<Rightarrow> vfs_pipe \<Rightarrow> bool" where
  "copied_out user a limit n error es p p' \<longleftrightarrow>
     p' = consume n p \<and> n \<le> min limit (used p) \<and> delivered es = take n (contents p) \<and> lands a es \<and>
     (error = VFS_OK \<and> n = min limit (used p) \<or> error = VFS_ERR_FAULT \<and> user)"

lemma copy_out_chunk_bounds:
  fixes a :: u64 and user :: bool
  assumes "pipe_ok p" "copied < limit" "0 < used p"
  defines "c \<equiv> copy_out_chunk user a limit copied p"
  shows "0 < c" "c \<le> limit - copied" "c \<le> used p" "c \<le> PIPE_CAPACITY - read_position p"
proof -
  have "unat ((a + of_nat copied) mod PGSIZE) < 4096"
    by (simp add: unat_mod PGSIZE_def)
  moreover have "0 < PIPE_CAPACITY - read_position p"
    using assms(1) by (simp add: pipe_ok_def)
  ultimately show "0 < c" "c \<le> limit - copied" "c \<le> used p" "c \<le> PIPE_CAPACITY - read_position p"
    using assms(2,3) by (simp_all add: c_def copy_out_chunk_def Let_def min_le_iff_disj)
qed

lemma copied_out_none:
  "pipe_ok p \<Longrightarrow> min limit (used p) = 0 \<Longrightarrow> copied_out user a limit 0 VFS_OK [] p p"
  "pipe_ok p \<Longrightarrow> user \<Longrightarrow> copied_out user a limit 0 VFS_ERR_FAULT [] p p"
  by (simp_all add: copied_out_def consume_def pipe_ok_def)

lemma copied_out_step:
  assumes p: "pipe_ok p" and c: "c \<le> limit" "c \<le> used p" "c \<le> PIPE_CAPACITY - read_position p"
    and rest: "copied_out user (a + of_nat c) (limit - c) n error es (consume c p) p'"
  shows "copied_out user a limit (c + n) error
    (Copied a (take c (drop (read_position p) (buffer p))) # es) p p'"
proof -
  have bytes: "take c (drop (read_position p) (buffer p)) = take c (contents p)"
    and len: "length (take c (contents p)) = c"
    using contiguous_bytes [OF p c(2,3)] c by simp_all
  have "delivered es = take n (drop c (contents p))" "lands (a + of_nat c) es" "p' = consume (c + n) p"
    "n \<le> min (limit - c) (used p - c)"
    "error = VFS_OK \<and> n = min (limit - c) (used p - c) \<or> error = VFS_ERR_FAULT \<and> user"
    using rest consume_contents [OF p c(2)] by (simp_all add: copied_out_def consume_consume)
  then show ?thesis
    unfolding copied_out_def bytes using c len by (simp add: take_add) linarith
qed

lemma copy_out_loop_spec:
  assumes "pipe_ok p" "copied \<le> limit"
  shows "\<exists>n error es p'. copy_out_loop u user a limit copied effects p = Some (copied + n, error, effects @ es, p') \<and>
    copied_out user (a + of_nat copied) (limit - copied) n error es p p'"
  using assms
proof (induction "limit - copied" arbitrary: copied effects p rule: less_induct)
  case less
  let ?chunk = "copy_out_chunk user a limit copied p"
  show ?case
  proof (cases "copied < limit \<and> used p > 0")
    case False
    then have "copy_out_loop u user a limit copied effects p = Some (copied + 0, VFS_OK, effects @ [], p)"
      by (subst copy_out_loop.simps) simp
    moreover have "min (limit - copied) (used p) = 0"
      using False by auto
    ultimately show ?thesis
      using copied_out_none(1) [OF less.prems(1)] by blast
  next
    case more: True
    show ?thesis
    proof (cases "user \<and> (\<not> has_process u \<or> \<not> writable u (a + of_nat copied) ?chunk)")
      case True
      then have "copy_out_loop u user a limit copied effects p = Some (copied + 0, VFS_ERR_FAULT, effects @ [], p)"
        using more by (subst copy_out_loop.simps) (auto simp: Let_def)
      then show ?thesis
        using copied_out_none(2) [OF less.prems(1)] True by blast
    next
      case False
      define c where "c = ?chunk"
      define e where "e = Copied (a + of_nat copied) (take c (drop (read_position p) (buffer p)))"
      have c: "0 < c" "c \<le> limit - copied" "c \<le> used p" "c \<le> PIPE_CAPACITY - read_position p"
        unfolding c_def
        by (rule copy_out_chunk_bounds [OF less.prems(1) more [THEN conjunct1] more [THEN conjunct2]])+
      have step: "copy_out_loop u user a limit copied effects p =
          copy_out_loop u user a limit (copied + c) (effects @ [e]) (consume c p)"
        using more False
        by (subst copy_out_loop.simps) (simp only: Let_def c_def [symmetric] e_def consume_def, simp)
      have "limit - (copied + c) < limit - copied" "copied + c \<le> limit"
        using c more by simp_all
      then obtain n error es p' where r: "copy_out_loop u user a limit (copied + c) (effects @ [e]) (consume c p) =
          Some (copied + c + n, error, (effects @ [e]) @ es, p')"
        "copied_out user (a + of_nat (copied + c)) (limit - (copied + c)) n error es (consume c p) p'"
        using less.hyps [of "copied + c" "consume c p" "effects @ [e]"] consume_ok [OF less.prems(1) c(3)] by blast
      have "copied_out user (a + of_nat copied) (limit - copied) (c + n) error (e # es) p p'"
        using copied_out_step [OF less.prems(1) c(2-4), of user "a + of_nat copied" n error es p'] r(2)
        by (simp add: e_def add.assoc)
      then show ?thesis
        using step r(1) by (intro exI [of _ "c + n"] exI [of _ error] exI [of _ "e # es"] exI [of _ p']) simp
    qed
  qed
qed

lemma pipe_copy_out_spec:
  assumes "pipe_ok p"
  shows "\<exists>n error es p'. pipe_copy_out u user a limit p = Some (n, error, es, p') \<and>
    copied_out user a limit n error es p p'"
  using copy_out_loop_spec [OF assms, of 0 limit u user a "[]"] by (simp add: pipe_copy_out_def)

text \<open>User memory that does not fault: every part of the \<open>n\<close> bytes at \<open>a\<close> can be faulted in and written.\<close>

definition accessible :: "user_memory \<Rightarrow> u64 \<Rightarrow> nat \<Rightarrow> bool" where
  "accessible u a n \<longleftrightarrow> has_process u \<and> (\<forall>m\<le>n. prefaults u a m) \<and>
     (\<forall>i m. i + m \<le> n \<longrightarrow> writable u (a + of_nat i) m)"

lemma accessible_mono: "accessible u a n \<Longrightarrow> m \<le> n \<Longrightarrow> accessible u a m"
  unfolding accessible_def by auto

lemma copy_out_accessible:
  assumes "pipe_ok p" "copy_out_loop u user a limit copied effects p = Some (n, error, es, p')" "copied \<le> limit"
    "user \<Longrightarrow> accessible u a limit"
  shows "error = VFS_OK"
  using assms
proof (induction "limit - copied" arbitrary: copied effects p rule: less_induct)
  case less
  define c where "c = copy_out_chunk user a limit copied p"
  show ?case
  proof (cases "copied < limit \<and> used p > 0")
    case True
    have c: "0 < c" "c \<le> limit - copied" "c \<le> used p"
      unfolding c_def by (rule copy_out_chunk_bounds [OF less.prems(1) True [THEN conjunct1] True [THEN conjunct2]])+
    have "\<not> (user \<and> (\<not> has_process u \<or> \<not> writable u (a + of_nat copied) c))"
      using less.prems(3,4) c by (auto simp: accessible_def)
    then have "copy_out_loop u user a limit (copied + c)
        (effects @ [Copied (a + of_nat copied) (take c (drop (read_position p) (buffer p)))]) (consume c p) =
        Some (n, error, es, p')"
      using less.prems(2) True by (subst (asm) copy_out_loop.simps) (cases user; simp add: Let_def c_def consume_def)
    moreover have "limit - (copied + c) < limit - copied" "copied + c \<le> limit" using c True by simp_all
    ultimately show ?thesis using less.hyps consume_ok [OF less.prems(1) c(3)] less.prems(4) by blast
  next
    case False
    then show ?thesis using less.prems(2) by (subst (asm) copy_out_loop.simps) simp
  qed
qed

subsection \<open>The ring is a byte stream\<close>

definition ring_push :: "u8 list \<Rightarrow> vfs_pipe \<Rightarrow> vfs_pipe" where
  "ring_push bs p = pipe_copy_in bs (length bs) p"

definition ring_pop :: "user_memory \<Rightarrow> nat \<Rightarrow> vfs_pipe \<Rightarrow> (u8 list \<times> vfs_pipe) option" where
  "ring_pop u n p = map_option (\<lambda>(copied, error, es, p'). (delivered es, p')) (pipe_copy_out u False 0 n p)"

lemma ring_pop_spec:
  assumes "pipe_ok p"
  shows "ring_pop u n p = Some (take n (contents p), consume (min n (used p)) p)"
proof -
  obtain m error es p' where "pipe_copy_out u False 0 n p = Some (m, error, es, p')"
    "copied_out False 0 n m error es p p'"
    using pipe_copy_out_spec [OF assms] by blast
  then show ?thesis
    by (auto simp: ring_pop_def copied_out_def min_def)
qed

interpretation ring: byte_stream pipe_ok contents ring_push "ring_pop u" PIPE_CAPACITY
  for u
proof
  fix q :: vfs_pipe and bs :: "u8 list" and n
  assume ok: "pipe_ok q"
  show "\<exists>q'. ring_pop u n q = Some (take n (contents q), q') \<and> pipe_ok q' \<and> contents q' = drop n (contents q)"
    using ok by (auto simp: ring_pop_spec consume_ok consume_contents min_def)
  assume "length (contents q) + length bs \<le> PIPE_CAPACITY"
  then show "pipe_ok (ring_push bs q)" "contents (ring_push bs q) = contents q @ bs"
    using ok by (simp_all add: ring_push_def copy_in_ok copy_in_contents)
qed

end
