(* ===== verification/Pipe_Spec.thy ===== *)
theory Pipe_Spec
  imports Pipe_Ring
begin

text \<open>
  What reading from and writing to a pipe guarantee: order, atomicity of small writes, end of file,
  the errors, and that the ring stays well formed whatever the other threads do.
\<close>

subsection \<open>Reading\<close>

text \<open>What the other threads may do to a pipe whose reader is busy: append. The writers of this
  file do no more, see \<open>write_keeps\<close> below.\<close>

definition appends :: "(vfs_pipe \<Rightarrow> vfs_pipe) \<Rightarrow> bool" where
  "appends f \<longleftrightarrow> (\<forall>p. pipe_ok p \<longrightarrow> read_busy p \<longrightarrow>
     pipe_ok (f p) \<and> read_busy (f p) \<and> (\<exists>more. contents (f p) = contents p @ more))"

lemma appends_used: "appends f \<Longrightarrow> pipe_ok p \<Longrightarrow> read_busy p \<Longrightarrow> used p \<le> used (f p)"
  unfolding appends_def by (metis length_append length_contents le_add1)

lemma readv_loop_spec:
  assumes "pipe_ok p" "available - sofar \<le> used p" "sofar \<le> available"
  shows "\<exists>n error es. readv_loop u user vs available sofar effects p =
      Some (sofar + n, error, effects @ es, consume n p) \<and>
    delivered es = take n (contents p) \<and> n \<le> available - sofar \<and>
    (error = VFS_OK \<and> n = min (available - sofar) (\<Sum>v \<leftarrow> vs. iov_length v) \<or> error = VFS_ERR_FAULT \<and> user)"
  using assms
proof (induction vs arbitrary: sofar effects p)
  case Nil
  then show ?case
    by (auto simp: consume_def pipe_ok_def)
next
  case (Cons v vs)
  show ?case
  proof (cases "sofar < available")
    case False
    then show ?thesis
      using Cons.prems by (auto simp: consume_def pipe_ok_def)
  next
    case True
    define len where "len = min (iov_length v) (available - sofar)"
    obtain n error es p' where c: "pipe_copy_out u user (base v) len p = Some (n, error, es, p')"
      "copied_out user (base v) len n error es p p'"
      using pipe_copy_out_spec [OF Cons.prems(1)] by blast
    then have p': "p' = consume n p" "n \<le> len" "n \<le> used p" "delivered es = take n (contents p)"
      by (auto simp: copied_out_def)
    show ?thesis
    proof (cases "error < 0 \<or> n \<noteq> len")
      case bad: True
      have "error = VFS_ERR_FAULT \<and> user"
        using c(2) bad Cons.prems(2) by (auto simp: copied_out_def len_def VFS_OK_def)
      then show ?thesis
        using True bad c(1) p' by (auto simp: len_def [symmetric]) (auto simp: len_def)
    next
      case good: False
      have ok: "pipe_ok p'" "available - (sofar + n) \<le> used p'" "sofar + n \<le> available"
        using p' Cons.prems True consume_ok [OF Cons.prems(1) p'(3)] by (auto simp: len_def)
      obtain m error' es' where r: "readv_loop u user vs available (sofar + n) (effects @ es) p' =
          Some (sofar + n + m, error', (effects @ es) @ es', consume m p')"
        "delivered es' = take m (contents p')" "m \<le> available - (sofar + n)"
        "error' = VFS_OK \<and> m = min (available - (sofar + n)) (\<Sum>v \<leftarrow> vs. iov_length v) \<or>
         error' = VFS_ERR_FAULT \<and> user"
        using Cons.IH [OF ok] by blast
      have "readv_loop u user (v # vs) available sofar effects p =
          Some (sofar + (n + m), error', effects @ (es @ es'), consume (n + m) p)"
        using True good c(1) r(1) p'(1) by (simp add: len_def [symmetric] consume_consume add.assoc)
      moreover have "delivered (es @ es') = take (n + m) (contents p)"
        using p' r(2) consume_contents [OF Cons.prems(1) p'(3)] by (simp add: take_add)
      moreover have "n + m \<le> available - sofar"
        using r(3) ok(3) by simp
      moreover have "error' = VFS_OK \<and> n + m = min (available - sofar) (\<Sum>v \<leftarrow> v # vs. iov_length v) \<or>
          error' = VFS_ERR_FAULT \<and> user"
        using r(4) good True by (auto simp: len_def min_def)
      ultimately show ?thesis
        by blast
    qed
  qed
qed

lemma readv_loop_accessible:
  assumes "pipe_ok p" "readv_loop u user vs available sofar effects p = Some (n, error, es, p')"
    "user \<Longrightarrow> \<forall>v\<in>set vs. accessible u (base v) (iov_length v)"
  shows "error = VFS_OK"
  using assms
proof (induction vs arbitrary: sofar effects p)
  case (Cons v vs)
  show ?case
  proof (cases "sofar < available")
    case True
    define len where "len = min (iov_length v) (available - sofar)"
    obtain m e fs q where c: "pipe_copy_out u user (base v) len p = Some (m, e, fs, q)" "copied_out user (base v) len m e fs p q"
      using pipe_copy_out_spec [OF Cons.prems(1)] by blast
    have "accessible u (base v) len" if user
      using Cons.prems(3) [OF that] accessible_mono [of u "base v" "iov_length v" len] by (simp add: len_def)
    then have e: "e = VFS_OK"
      using copy_out_accessible [OF Cons.prems(1) c(1) [unfolded pipe_copy_out_def]] by blast
    have q: "pipe_ok q" using c(2) consume_ok [OF Cons.prems(1)] by (auto simp: copied_out_def)
    show ?thesis
    proof (cases "m = len")
      case True
      then have "readv_loop u user vs available (sofar + m) (effects @ fs) q = Some (n, error, es, p')"
        using Cons.prems(2) \<open>sofar < available\<close> c(1) e by (simp add: len_def [symmetric] VFS_OK_def)
      then show ?thesis using Cons.IH [OF q] Cons.prems(3) by auto
    next
      case False
      then show ?thesis using Cons.prems(2) \<open>sofar < available\<close> c(1) e by (simp add: len_def [symmetric])
    qed
  qed (use Cons.prems(2) in simp)
qed simp

lemma prefault_accessible:
  "\<forall>v\<in>set vs. accessible u (base v) (iov_length v) \<Longrightarrow> prefault_loop u vs limit sofar = VFS_OK"
  by (induction vs arbitrary: sofar) (auto simp: Let_def accessible_def)

lemma request_size_sum:
  "request_size vs n = Some m \<Longrightarrow> m = n + (\<Sum>v \<leftarrow> vs. iov_length v)"
proof (induction vs arbitrary: n)
  case (Cons v vs)
  have "m = n + iov_length v + (\<Sum>v \<leftarrow> vs. iov_length v)"
    by (rule Cons.IH) (use Cons.prems in \<open>simp split: if_splits\<close>)
  then show ?case
    by simp
qed simp

text \<open>The situations a reader can find, and a series of sleeps that all ended normally: the reader found
  \<open>p\<close> and had to wait, was woken, and so on, and finds \<open>q\<close> in the end.\<close>

definition data_ready :: "vfs_pipe \<Rightarrow> bool" where
  "data_ready q \<longleftrightarrow> used q > 0 \<and> \<not> read_busy q"

definition at_end :: "vfs_pipe \<Rightarrow> bool" where
  "at_end q \<longleftrightarrow> used q = 0 \<and> writers q = 0 \<and> \<not> read_busy q"

primrec slept :: "vfs_pipe \<Rightarrow> (bool \<times> vfs_pipe) list \<Rightarrow> vfs_pipe \<Rightarrow> bool" where
  "slept p [] q \<longleftrightarrow> q = p"
| "slept p (w # ws) q \<longleftrightarrow> \<not> data_ready p \<and> \<not> at_end p \<and> \<not> fst w \<and> slept (snd w) ws q"

lemma read_wait_step:
  "pipe_read_wait flags wakes p =
     (if data_ready p then Read_ready p else if at_end p then Read_returns 0 p
      else if flags AND VFS_OPEN_NONBLOCK \<noteq> 0 then Read_returns VFS_ERR_AGAIN p
      else case wakes of [] \<Rightarrow> Read_sleeps p
           | w # ws \<Rightarrow> if fst w then Read_returns VFS_ERR_INTR (snd w) else pipe_read_wait flags ws (snd w))"
  by (subst pipe_read_wait.simps)
    (cases "used p = 0"; cases "read_busy p"; cases wakes; simp add: data_ready_def at_end_def split: prod.split)

text \<open>What a reader comes to after some of the wake-ups.\<close>

definition reaches :: "(vfs_pipe \<Rightarrow> (bool \<times> vfs_pipe) list \<Rightarrow> bool) \<Rightarrow> (bool \<times> vfs_pipe) list \<Rightarrow> vfs_pipe \<Rightarrow> bool" where
  "reaches P wakes p \<longleftrightarrow> (\<exists>ws rest r. wakes = ws @ rest \<and> slept p ws r \<and> P r rest)"

lemma reaches_Nil: "reaches P [] p \<longleftrightarrow> P p []"
  by (auto simp: reaches_def)

lemma reaches_Cons:
  "reaches P (w # wakes) p \<longleftrightarrow>
     P p (w # wakes) \<or> \<not> data_ready p \<and> \<not> at_end p \<and> \<not> fst w \<and> reaches P wakes (snd w)"
proof
  assume "reaches P (w # wakes) p"
  then obtain ws rest r where r: "w # wakes = ws @ rest" "slept p ws r" "P r rest" by (auto simp: reaches_def)
  then show "P p (w # wakes) \<or> \<not> data_ready p \<and> \<not> at_end p \<and> \<not> fst w \<and> reaches P wakes (snd w)"
    by (cases ws) (auto simp: reaches_def)
next
  assume "P p (w # wakes) \<or> \<not> data_ready p \<and> \<not> at_end p \<and> \<not> fst w \<and> reaches P wakes (snd w)"
  then show "reaches P (w # wakes) p"
  proof
    assume "P p (w # wakes)"
    then show ?thesis unfolding reaches_def by (intro exI [of _ "[]"] exI [of _ "w # wakes"] exI [of _ p]) simp
  next
    assume a: "\<not> data_ready p \<and> \<not> at_end p \<and> \<not> fst w \<and> reaches P wakes (snd w)"
    then obtain ws rest r where "wakes = ws @ rest" "slept (snd w) ws r" "P r rest" by (auto simp: reaches_def)
    then show ?thesis using a unfolding reaches_def by (intro exI [of _ "w # ws"] exI [of _ rest] exI [of _ r]) simp
  qed
qed

lemma error_codes: "VFS_ERR_AGAIN \<noteq> 0" "VFS_ERR_INTR \<noteq> 0" "VFS_ERR_INTR \<noteq> VFS_ERR_AGAIN" "VFS_ERR_AGAIN \<noteq> VFS_ERR_INTR"
  by (simp_all add: VFS_ERR_AGAIN_def VFS_ERR_INTR_def)

lemma not_both: "data_ready p \<Longrightarrow> \<not> at_end p"
  by (simp add: data_ready_def at_end_def)

lemma read_wait_blocking:
  assumes "flags AND VFS_OPEN_NONBLOCK = 0"
  shows "(pipe_read_wait flags wakes p = Read_ready q \<longleftrightarrow> reaches (\<lambda>r rest. r = q \<and> data_ready q) wakes p) \<and>
    (pipe_read_wait flags wakes p = Read_returns 0 q \<longleftrightarrow> reaches (\<lambda>r rest. r = q \<and> at_end q) wakes p) \<and>
    (pipe_read_wait flags wakes p = Read_returns VFS_ERR_INTR q \<longleftrightarrow>
       reaches (\<lambda>r rest. \<not> data_ready r \<and> \<not> at_end r \<and> (\<exists>ws. rest = (True, q) # ws)) wakes p) \<and>
    (pipe_read_wait flags wakes p = Read_sleeps q \<longleftrightarrow>
       reaches (\<lambda>r rest. r = q \<and> \<not> data_ready r \<and> \<not> at_end r \<and> rest = []) wakes p) \<and>
    pipe_read_wait flags wakes p \<noteq> Read_returns VFS_ERR_AGAIN q"
proof (induction wakes arbitrary: p)
  case Nil
  show ?case
    using assms error_codes not_both [of p] unfolding read_wait_step [of flags "[]" p] reaches_Nil
    by (cases "data_ready p"; cases "at_end p") auto
next
  case (Cons w wakes)
  obtain i r where w: "w = (i, r)" by (cases w)
  have e: "pipe_read_wait flags (w # wakes) p =
     (if data_ready p then Read_ready p else if at_end p then Read_returns 0 p
      else if i then Read_returns VFS_ERR_INTR r else pipe_read_wait flags wakes r)"
    using assms by (subst read_wait_step) (simp add: w)
  show ?case
    using Cons.IH [of r] error_codes not_both [of p] unfolding e reaches_Cons
    by (cases "data_ready p"; cases "at_end p"; cases i) (auto simp: w)
qed

lemma prefault_results: "prefault_loop u vs limit sofar \<in> {VFS_OK, VFS_ERR_FAULT}"
  by (induction vs arbitrary: sofar) (auto simp: Let_def)

subsection \<open>Writing\<close>

text \<open>The states a writer may find: its own, and those it is woken in.\<close>

definition found :: "vfs_pipe \<Rightarrow> (bool \<times> vfs_pipe) list \<Rightarrow> vfs_pipe set" where
  "found p wakes = insert p (snd ` set wakes)"

definition wrote_all_or_nothing ::
  "u8 list \<Rightarrow> nat \<Rightarrow> vfs_pipe set \<Rightarrow> pipe_outcome \<Rightarrow> vfs_pipe \<Rightarrow> bool" where
  "wrote_all_or_nothing source n F r p' \<longleftrightarrow>
     (r = Returns (int n) \<and> (\<exists>q \<in> F. contents p' = contents q @ take n source)) \<or>
     (r \<in> {Sleeping, Returns VFS_ERR_PIPE, Returns VFS_ERR_AGAIN, Returns VFS_ERR_INTR} \<and> p' \<in> F)"

lemma write_staged_finished:
  "\<not> sofar < n \<Longrightarrow> write_staged_loop flags source n atomic wakes sofar effects p = (Returns (int sofar), effects, p)"
  by (subst write_staged_loop.simps) simp

lemma write_staged_room:
  assumes "readers p \<noteq> 0" "n \<le> PIPE_CAPACITY - used p" "0 < n"
  shows "write_staged_loop flags source n atomic wakes 0 effects p =
    (Returns (int n), effects @ [Wake_readers, Poll_notify], pipe_copy_in source n p)"
  using assms by (subst write_staged_loop.simps) (auto simp: Let_def min_def write_staged_finished)

lemma write_staged_blocked:
  assumes "readers p = 0 \<or> PIPE_CAPACITY - used p < n" "0 < n"
  shows "write_staged_loop flags source n True wakes 0 effects p =
    (if readers p = 0 then (Returns VFS_ERR_PIPE, effects @ [Raise_sigpipe], p)
     else if flags AND VFS_OPEN_NONBLOCK \<noteq> 0 then (Returns VFS_ERR_AGAIN, effects, p)
     else (case wakes of
         [] \<Rightarrow> (Sleeping, effects, p)
       | (i, q) # ws \<Rightarrow> if i then (Returns VFS_ERR_INTR, effects, q)
                        else write_staged_loop flags source n True ws 0 effects q))"
  using assms by (subst write_staged_loop.simps) (cases "readers p = 0"; simp add: Let_def)

lemma write_staged_atomic:
  assumes "pipe_ok p" "\<forall>w \<in> set wakes. pipe_ok (snd w)" "0 < n" "n \<le> PIPE_BUF" "n \<le> length source"
  shows "\<exists>r es p'. write_staged_loop flags source n True wakes 0 effects p = (r, es, p') \<and> pipe_ok p' \<and>
    wrote_all_or_nothing source n (found p wakes) r p'"
  using assms(1,2)
proof (induction wakes arbitrary: p effects)
  case Nil
  show ?case
  proof (cases "readers p = 0 \<or> PIPE_CAPACITY - used p < n")
    case True
    then show ?thesis
      using Nil.prems(1) unfolding write_staged_blocked [OF True assms(3)]
      by (simp add: wrote_all_or_nothing_def found_def)
  next
    case False
    then have u: "used p + n \<le> PIPE_CAPACITY"
      using Nil.prems(1) by (auto simp: pipe_ok_def)
    have "write_staged_loop flags source n True [] 0 effects p =
        (Returns (int n), effects @ [Wake_readers, Poll_notify], pipe_copy_in source n p)"
      using False assms(3) by (intro write_staged_room) auto
    then show ?thesis
      using copy_in_ok [OF Nil.prems(1) assms(5) u] copy_in_contents [OF Nil.prems(1) assms(5) u]
      by (auto simp: wrote_all_or_nothing_def found_def)
  qed
next
  case (Cons w wakes)
  obtain i q where w: "w = (i, q)"
    by force
  show ?case
  proof (cases "readers p = 0 \<or> PIPE_CAPACITY - used p < n")
    case True
    have q: "pipe_ok q" "\<forall>w \<in> set wakes. pipe_ok (snd w)"
      using Cons.prems(2) w by auto
    obtain r es p' where IH: "write_staged_loop flags source n True wakes 0 effects q = (r, es, p')"
      "pipe_ok p'" "wrote_all_or_nothing source n (found q wakes) r p'"
      using Cons.IH [OF q] by blast
    have "wrote_all_or_nothing source n (found p (w # wakes)) r p'"
      using IH(3) w by (auto simp: wrote_all_or_nothing_def found_def)
    then show ?thesis
      using Cons.prems(1) q(1) IH w unfolding write_staged_blocked [OF True assms(3)]
      by (simp add: wrote_all_or_nothing_def found_def)
  next
    case False
    then have u: "used p + n \<le> PIPE_CAPACITY"
      using Cons.prems(1) by (auto simp: pipe_ok_def)
    have "write_staged_loop flags source n True (w # wakes) 0 effects p =
        (Returns (int n), effects @ [Wake_readers, Poll_notify], pipe_copy_in source n p)"
      using False assms(3) by (intro write_staged_room) auto
    then show ?thesis
      using copy_in_ok [OF Cons.prems(1) assms(5) u] copy_in_contents [OF Cons.prems(1) assms(5) u]
      by (auto simp: wrote_all_or_nothing_def found_def)
  qed
qed

text \<open>Any staged write, small or large, keeps the ring well formed and only appends, so a busy
  reader finds its bytes where it left them.\<close>

lemma write_staged_step:
  assumes "sofar < n" "readers p \<noteq> 0" "\<not> (atomic \<and> PIPE_CAPACITY - used p < n)" "used p < PIPE_CAPACITY"
  shows "write_staged_loop flags source n atomic wakes sofar effects p =
    (let chunk = min (n - sofar) (PIPE_CAPACITY - used p) in
     write_staged_loop flags source n atomic wakes (sofar + chunk) (effects @ [Wake_readers, Poll_notify])
       (pipe_copy_in (drop sofar source) chunk p))"
  using assms by (subst write_staged_loop.simps) (auto simp: Let_def)

lemma write_staged_stuck:
  assumes "sofar < n" "readers p = 0 \<or> (atomic \<and> PIPE_CAPACITY - used p < n) \<or> \<not> used p < PIPE_CAPACITY"
  shows "\<exists>r es. write_staged_loop flags source n atomic [] sofar effects p = (r, es, p)"
  using assms by (subst write_staged_loop.simps) (cases "readers p = 0"; auto simp: Let_def)

lemma write_keeps:
  assumes "pipe_ok p" "n \<le> length source" "sofar \<le> n"
  shows "\<exists>r es p' more. write_staged_loop flags source n atomic [] sofar effects p = (r, es, p') \<and> pipe_ok p' \<and>
    read_busy p' = read_busy p \<and> contents p' = contents p @ more \<and> more = take (length more) (drop sofar source)"
  using assms
proof (induction "n - sofar" arbitrary: sofar effects p rule: less_induct)
  case less
  show ?case
  proof (cases "sofar < n \<and> readers p \<noteq> 0 \<and> \<not> (atomic \<and> PIPE_CAPACITY - used p < n) \<and> used p < PIPE_CAPACITY")
    case True
    define c where "c = min (n - sofar) (PIPE_CAPACITY - used p)"
    let ?p = "pipe_copy_in (drop sofar source) c p"
    have c: "0 < c" "c \<le> length (drop sofar source)" "used p + c \<le> PIPE_CAPACITY" "sofar + c \<le> n"
      using True less.prems by (auto simp: c_def)
    have dec: "n - (sofar + c) < n - sofar"
      using c True by linarith
    obtain r es p' more where r: "write_staged_loop flags source n atomic [] (sofar + c)
        (effects @ [Wake_readers, Poll_notify]) ?p = (r, es, p')"
      "pipe_ok p'" "read_busy p' = read_busy ?p" "contents p' = contents ?p @ more"
      "more = take (length more) (drop (sofar + c) source)"
      using less.hyps [OF _ copy_in_ok [OF less.prems(1) c(2,3)] less.prems(2) c(4)] dec by blast
    have "contents p' = contents p @ (take c (drop sofar source) @ more)"
      using r(4) copy_in_contents [OF less.prems(1) c(2,3)] by simp
    moreover have "take (c + length more) (drop sofar source) = take c (drop sofar source) @ more"
      using r(5) by (simp add: take_add add.commute)
    then have "take c (drop sofar source) @ more =
        take (length (take c (drop sofar source) @ more)) (drop sofar source)"
      using c(2) by (simp only: length_append length_take min.absorb2)
    moreover have "write_staged_loop flags source n atomic [] sofar effects p = (r, es, p')"
      using write_staged_step [of sofar n p atomic flags source "[]" effects] True r(1)
      by (simp add: Let_def c_def)
    ultimately show ?thesis
      using r(2,3) by (metis copy_in_simps(6))
  next
    case False
    then have "\<exists>r es. write_staged_loop flags source n atomic [] sofar effects p = (r, es, p)"
      using write_staged_finished [of sofar n flags source atomic "[]" effects p]
        write_staged_stuck [of sofar n p atomic flags source effects] by (cases "sofar < n") auto
    then show ?thesis
      using less.prems(1) by fastforce
  qed
qed

lemma writer_appends:
  assumes "n \<le> length source"
  shows "appends (\<lambda>p. snd (snd (pipe_write_staged flags source n atomic [] p)))"
  unfolding appends_def pipe_write_staged_def
proof (intro allI impI)
  fix p
  assume "pipe_ok p" "read_busy p"
  then show "pipe_ok (snd (snd (write_staged_loop flags source n atomic [] 0 [] p))) \<and>
      read_busy (snd (snd (write_staged_loop flags source n atomic [] 0 [] p))) \<and>
      (\<exists>more. contents (snd (snd (write_staged_loop flags source n atomic [] 0 [] p))) = contents p @ more)"
    using write_keeps [of p n source 0 flags atomic "[]"] assms by auto
qed

subsection \<open>Creating and closing\<close>

lemma only_nonblock:
  assumes "flags AND NOT VFS_OPEN_NONBLOCK = 0"
  shows "flags AND VFS_OPEN_READ = 0" "flags AND VFS_OPEN_WRITE = 0"
proof -
  have "NOT VFS_OPEN_NONBLOCK AND VFS_OPEN_READ = VFS_OPEN_READ" "NOT VFS_OPEN_NONBLOCK AND VFS_OPEN_WRITE = VFS_OPEN_WRITE"
    by (simp_all add: VFS_OPEN_NONBLOCK_def VFS_OPEN_READ_def VFS_OPEN_WRITE_def)
  then have "flags AND VFS_OPEN_READ = (flags AND NOT VFS_OPEN_NONBLOCK) AND VFS_OPEN_READ"
    "flags AND VFS_OPEN_WRITE = (flags AND NOT VFS_OPEN_NONBLOCK) AND VFS_OPEN_WRITE"
    by (simp_all only: and.assoc)
  then show "flags AND VFS_OPEN_READ = 0" "flags AND VFS_OPEN_WRITE = 0"
    unfolding assms by simp_all
qed

lemma end_flags:
  assumes "flags AND NOT VFS_OPEN_NONBLOCK = 0"
  shows "(VFS_OPEN_READ OR flags) AND VFS_OPEN_READ \<noteq> 0" "(VFS_OPEN_READ OR flags) AND VFS_OPEN_WRITE = 0"
    "(VFS_OPEN_WRITE OR flags) AND VFS_OPEN_WRITE \<noteq> 0" "(VFS_OPEN_WRITE OR flags) AND VFS_OPEN_READ = 0"
  using only_nonblock [OF assms]
  by (simp_all add: bit.conj_disj_distrib2 VFS_OPEN_READ_def VFS_OPEN_WRITE_def)

lemma close_both_destroys:
  assumes "flags AND NOT VFS_OPEN_NONBLOCK = 0" "readers p = 1" "writers p = 1"
  shows "close_both flags p = Some None"
  using end_flags [OF assms(1)] assms(2,3) by (simp add: close_both_def pipe_release_def Let_def)

subsection \<open>Properties\<close>

definition demo_pipe :: vfs_pipe where
  "demo_pipe = new_pipe 1 0 0 (replicate PIPE_CAPACITY 0)"

lemma demo_pipe_ok: "pipe_ok demo_pipe"
  by (simp add: pipe_ok_def demo_pipe_def new_pipe_def PIPE_CAPACITY_def)

definition demo_memory :: user_memory where
  "demo_memory = \<lparr>has_process = True, bytes_at = (\<lambda>a. ucast a), readable = (\<lambda>a n. True),
     writable = (\<lambda>a n. True), prefaults = (\<lambda>a n. True)\<rparr>"

text \<open>C8. The ring of a pipe is a first-in first-out byte stream. For every series of copies into the
  ring that fit its capacity and copies out of it, each copy out returns and the bytes that came
  out, followed by the bytes still held, are the bytes held at first followed by the bytes put in,
  in order: nothing is lost, duplicated or reordered when positions wrap around.\<close>

theorem pipe_ring_fifo:
  assumes "pipe_ok p" "fits PIPE_CAPACITY (used p) ops"
  shows "\<exists>out p'. run_stream ring_push (ring_pop u) ops p = Some (out, p') \<and> pipe_ok p' \<and>
    out @ contents p' = contents p @ pushed ops"
  using ring.stream_order [OF assms(1), of ops u] assms(2) by simp

theorem pipe_ring_fifo_witness:
  "\<exists>out p'. run_stream ring_push (ring_pop demo_memory) [Push [1, 2, 3], Pop 2, Push [4]] demo_pipe = Some (out, p') \<and>
     pipe_ok p' \<and> out @ contents p' = [1, 2, 3, 4]"
  using pipe_ring_fifo [OF demo_pipe_ok, of "[Push [1, 2, 3], Pop 2, Push [4]]" demo_memory]
  by (simp add: demo_pipe_def new_pipe_def PIPE_CAPACITY_def contents_def)

text \<open>C10. A read returns the oldest bytes. When data is there and no other reader is busy, a read of
  more than zero bytes returns without sleeping; the bytes it delivers followed by what remains are
  what the pipe held, including what writers appended while the lock was released for faulting in
  the destination. It returns how many bytes it delivered, or a fault if none. Whenever the destination is
  kernel memory, or user memory that can be faulted in and written, it delivers everything asked for and
  available; a user destination without a process is a fault.\<close>

theorem pipe_readv_oldest:
  assumes p: "pipe_ok p" "used p > 0" "\<not> read_busy p" and others: "appends meanwhile"
    and size: "request_size iovecs 0 = Some requested" "requested > 0"
  shows "\<exists>n es p'. pipe_readv u meanwhile wakes flags user iovecs p = Some (Returns n, es, p') \<and>
    pipe_ok p' \<and> \<not> read_busy p' \<and>
    delivered es @ contents p' = contents (meanwhile (p\<lparr>read_busy := True\<rparr>)) \<and>
    n = (if delivered es = [] then VFS_ERR_FAULT else int (length (delivered es))) \<and>
    (if user \<and> \<not> has_process u then n = VFS_ERR_FAULT
     else (user \<longrightarrow> (\<forall>v\<in>set iovecs. accessible u (base v) (iov_length v))) \<longrightarrow> n = int (min (used p) requested))"
proof -
  define q where "q = meanwhile (p\<lparr>read_busy := True\<rparr>)"
  have busy: "pipe_ok (p\<lparr>read_busy := True\<rparr>)" "read_busy (p\<lparr>read_busy := True\<rparr>)"
    using p(1) by (simp_all add: pipe_ok_def)
  have q: "pipe_ok q" "used p \<le> used q"
    using others busy appends_used [OF others busy] by (auto simp: appends_def q_def)
  let ?available = "min (used p) requested"
  have wait: "pipe_read_wait flags wakes p = Read_ready p"
    using p by (subst pipe_read_wait.simps) simp
  have unbusy: "pipe_ok (x\<lparr>read_busy := False\<rparr>) = pipe_ok x" "contents (x\<lparr>read_busy := False\<rparr>) = contents x" for x
    by (simp_all add: pipe_ok_def contents_def)
  show ?thesis
  proof (cases "pipe_prefault_output u user iovecs ?available < 0")
    case True
    then have f: "user" "pipe_prefault_output u user iovecs ?available = VFS_ERR_FAULT"
      using prefault_results [of u iovecs ?available 0] by (auto simp: pipe_prefault_output_def VFS_OK_def split: if_splits)
    then have "\<not> (\<forall>v\<in>set iovecs. accessible u (base v) (iov_length v)) \<or> \<not> has_process u"
      using prefault_accessible [of iovecs u ?available 0] True
      by (auto simp: pipe_prefault_output_def VFS_OK_def split: if_splits)
    then show ?thesis
      using True size wait q f by (auto simp: pipe_readv_def Let_def readv_finish_def q_def [symmetric] unbusy)
  next
    case False
    have av: "?available - 0 \<le> used q" "0 \<le> ?available"
      using q(2) by simp_all
    obtain n error es where r: "readv_loop u user iovecs ?available 0 [] q = Some (0 + n, error, [] @ es, consume n q)"
      "delivered es = take n (contents q)" "n \<le> ?available - 0"
      "error = VFS_OK \<and> n = min (?available - 0) (\<Sum>v \<leftarrow> iovecs. iov_length v) \<or> error = VFS_ERR_FAULT \<and> user"
      using readv_loop_spec [OF q(1) av] by blast
    have n: "n \<le> used q"
      using r(3) q(2) by simp
    have call: "pipe_readv u meanwhile wakes flags user iovecs p = Some (readv_finish n error es (consume n q))"
      using False size wait r(1) by (simp add: pipe_readv_def Let_def q_def [symmetric])
    have len: "length (delivered es) = n" "delivered es = [] \<longleftrightarrow> n = 0"
      using r(2) n by (auto simp: contents_def)
    have proc: "user \<longrightarrow> has_process u"
      using False by (auto simp: pipe_prefault_output_def VFS_ERR_FAULT_def split: if_splits)
    have "error = VFS_OK \<longrightarrow> n = ?available" "n = 0 \<longrightarrow> error = VFS_ERR_FAULT"
      using r(4) request_size_sum [OF size(1)] size(2) p(2) by (auto simp: VFS_OK_def VFS_ERR_FAULT_def)
    moreover have "error = VFS_OK" if "user \<longrightarrow> (\<forall>v\<in>set iovecs. accessible u (base v) (iov_length v))"
      using readv_loop_accessible [OF q(1) r(1)] that by blast
    moreover have "0 < ?available" using p(2) size(2) by simp
    ultimately show ?thesis
      using call len r(2) n proc consume_ok [OF q(1) n] consume_contents [OF q(1) n]
      by (auto simp: readv_finish_def unbusy q_def [symmetric])
  qed
qed

theorem pipe_readv_oldest_witness:
  "\<exists>n es p'. pipe_readv demo_memory id [] 0 True [\<lparr>base = 0x2000, iov_length = 2\<rparr>]
       (pipe_copy_in [7, 8, 9] 3 demo_pipe) = Some (Returns n, es, p') \<and>
     delivered es @ contents p' = [7, 8, 9] \<and> n = 2"
proof -
  have room: "used demo_pipe + 3 \<le> PIPE_CAPACITY"
    by (simp add: demo_pipe_def new_pipe_def PIPE_CAPACITY_def)
  have ok: "pipe_ok (pipe_copy_in [7, 8, 9] 3 demo_pipe)"
    using copy_in_ok [OF demo_pipe_ok _ room, of "[7, 8, 9]"] by simp
  have c: "contents (pipe_copy_in [7, 8, 9] 3 demo_pipe) = [7, 8, 9]"
    using copy_in_contents [OF demo_pipe_ok _ room, of "[7, 8, 9]"]
    by (simp add: contents_def demo_pipe_def new_pipe_def)
  have id: "appends id"
    by (simp add: appends_def)
  have "contents (id (q\<lparr>read_busy := True\<rparr>)) = contents q" for q
    by (simp add: contents_def)
  then show ?thesis
    using pipe_readv_oldest [OF ok _ _ id, of "[\<lparr>base = 0x2000, iov_length = 2\<rparr>]" 2 demo_memory "[]" 0 True] c
    by (auto simp: demo_pipe_def new_pipe_def demo_memory_def accessible_def)
qed

text \<open>C40. Waiting for data ends exactly as it should. Let a reader find a pipe and sleep through some of its
  wake-ups, each time having found neither data nor the end of the file. It is told that data is
  ready exactly when it then finds bytes and no other reader is busy; it returns end of file exactly
  when it finds the pipe empty with no writer left and no other reader busy; it returns "interrupted"
  exactly when the next sleep is interrupted; it is still asleep exactly when the wake-ups are used up and it
  has to wait. In non-blocking mode it never sleeps, and it returns "try again" exactly when it would have to.\<close>

theorem pipe_read_wait_answers:
  "if flags AND VFS_OPEN_NONBLOCK = 0
   then (pipe_read_wait flags wakes p = Read_ready q \<longleftrightarrow> reaches (\<lambda>r rest. r = q \<and> data_ready q) wakes p) \<and>
        (pipe_read_wait flags wakes p = Read_returns 0 q \<longleftrightarrow> reaches (\<lambda>r rest. r = q \<and> at_end q) wakes p) \<and>
        (pipe_read_wait flags wakes p = Read_returns VFS_ERR_INTR q \<longleftrightarrow>
           reaches (\<lambda>r rest. \<not> data_ready r \<and> \<not> at_end r \<and> (\<exists>ws. rest = (True, q) # ws)) wakes p) \<and>
        (pipe_read_wait flags wakes p = Read_sleeps q \<longleftrightarrow>
           reaches (\<lambda>r rest. r = q \<and> \<not> data_ready r \<and> \<not> at_end r \<and> rest = []) wakes p) \<and>
        pipe_read_wait flags wakes p \<noteq> Read_returns VFS_ERR_AGAIN q
   else pipe_read_wait flags wakes p =
          (if data_ready p then Read_ready p else if at_end p then Read_returns 0 p else Read_returns VFS_ERR_AGAIN p)"
  using read_wait_blocking [of flags wakes p q] read_wait_step [of flags wakes p] by simp

text \<open>C9. Small writes are atomic. A write of at most \<^verbatim>\<open>PIPE_BUF\<close> bytes either returns the full count,
  having appended all its bytes contiguously to the pipe it found, or it sleeps or fails (no reader,
  would block, interrupted) and has written nothing; the ring stays well formed.\<close>

theorem pipe_write_atomic:
  assumes "pipe_ok p" "\<forall>w \<in> set wakes. pipe_ok (snd w)" "0 < n" "n \<le> PIPE_BUF" "n \<le> length source"
  shows "\<exists>r es p'. pipe_write_staged flags source n True wakes p = (r, es, p') \<and> pipe_ok p' \<and>
    wrote_all_or_nothing source n (found p wakes) r p'"
  using write_staged_atomic [OF assms] by (simp add: pipe_write_staged_def)

theorem pipe_write_atomic_witness:
  "\<exists>r es p'. pipe_write_staged 0 [5, 6] 2 True [] demo_pipe = (r, es, p') \<and> pipe_ok p' \<and>
     wrote_all_or_nothing [5, 6] 2 {demo_pipe} r p'"
  using pipe_write_atomic [OF demo_pipe_ok, of "[]" 2 "[5, 6]" 0]
  by (simp add: found_def PIPE_BUF_def)

text \<open>Creating a pipe is all or nothing. The call panics exactly when there is no free page for the buffer
  (the flags being valid and the structure allocated), although the code that follows means to return an
  error then. Otherwise it succeeds exactly when the files and descriptors are available, and the new
  pipe is empty with one reader and one writer; else it returns an error and no pipe is left behind.\<close>

theorem pipe_create_all_or_nothing:
  "case vfs_pipe_create a next_inode fsuid fsgid flags of
     None \<Rightarrow> flags AND NOT VFS_OPEN_NONBLOCK = 0 \<and> malloc_ok a \<and> palloc_page a = None
   | Some (r, q) \<Rightarrow>
       \<not> (flags AND NOT VFS_OPEN_NONBLOCK = 0 \<and> malloc_ok a \<and> palloc_page a = None) \<and>
       (r = VFS_OK \<longleftrightarrow> flags AND NOT VFS_OPEN_NONBLOCK = 0 \<and> malloc_ok a \<and> read_file_ok a \<and> write_file_ok a \<and>
          0 \<le> install_read a \<and> 0 \<le> install_write a) \<and>
       (case q of
          None \<Rightarrow> r < 0
        | Some (p, flags_r, flags_w) \<Rightarrow> r = VFS_OK \<and> contents p = [] \<and> readers p = 1 \<and> writers p = 1 \<and>
            flags_r = VFS_OPEN_READ OR flags \<and> flags_w = VFS_OPEN_WRITE OR flags)"
proof (cases "flags AND NOT VFS_OPEN_NONBLOCK = 0")
  case True
  have "close_both flags (new_pipe next_inode fsuid fsgid page) = Some None" for page
    by (rule close_both_destroys [OF True]) (simp_all add: new_pipe_def)
  then show ?thesis
    using True
    by (auto simp: vfs_pipe_create_def Let_def VFS_OK_def VFS_ERR_NOMEM_def VFS_ERR_MFILE_def new_pipe_def contents_def
      split: option.splits)
qed (simp add: vfs_pipe_create_def VFS_ERR_INVAL_def VFS_OK_def)

end
