(* ===== verification/Vma.thy ===== *)
theory Vma
  imports Prelude
begin

text \<open>
  The mapped areas of an address space, \<^verbatim>\<open>kernel/vma.c\<close>. The intrusive list of areas is the list of
  their values in order; a file or a backing object is named by its address. The references the
  areas hold on files and backings are counted in the state. \<^verbatim>\<open>malloc\<close> and the permission to map an
  executable can fail: the argument \<open>ok\<close> of an operation says whether its allocation succeeds.
  Following a null pointer is \<^const>\<open>None\<close>; the theorems show it does not happen.
\<close>

subsection \<open>State\<close>

datatype vma_origin = VMA_ANONYMOUS | VMA_FILE_BACKED

datatype vma_usage = VMA_ELF | VMA_HEAP | VMA_STACK | VMA_MMAP

record vm_area =
  start :: u64
  finish :: u64
  offset :: u64
  file_length :: u64
  protection :: u32
  flags :: u32
  origin :: vma_origin
  usage :: vma_usage
  vm_file :: "nat option"
  vm_backing :: "nat option"

datatype vma_ref = File_ref nat | Exec_ref nat | Backing_ref nat

record vma_set =
  areas :: "vm_area list"
  held :: "vma_ref \<Rightarrow> int"

definition LINUX_MAP_PRIVATE :: u32 where
  "LINUX_MAP_PRIVATE = 2"

definition LINUX_PROT_WRITE :: u32 where
  "LINUX_PROT_WRITE = 2"

definition LINUX_PROT_EXEC :: u32 where
  "LINUX_PROT_EXEC = 4"

subsection \<open>Allocating, releasing and merging areas\<close>

definition area_refs :: "vm_area \<Rightarrow> vma_ref list" where
  "area_refs a =
     (case vm_file a of None \<Rightarrow> [] | Some f \<Rightarrow> [if usage a = VMA_ELF then Exec_ref f else File_ref f]) @
     (case vm_backing a of None \<Rightarrow> [] | Some b \<Rightarrow> [Backing_ref b])"

definition count_refs :: "vm_area \<Rightarrow> vma_ref \<Rightarrow> int" where
  "count_refs a r = int (count_list (area_refs a) r)"

definition vma_allocate :: "bool \<Rightarrow> vm_area \<Rightarrow> vma_set \<Rightarrow> (vm_area \<times> vma_set) option" where
  "vma_allocate ok a s =
     (if \<not> ok then None else Some (a, s\<lparr>held := (\<lambda>r. held s r + count_refs a r)\<rparr>))"

definition backed :: "vm_area \<Rightarrow> bool" where
  "backed a \<longleftrightarrow> origin a = VMA_FILE_BACKED \<or> vm_backing a \<noteq> None"

definition split_area :: "vm_area \<Rightarrow> u64 \<Rightarrow> vm_area" where
  "split_area a at =
     (let delta = at - start a
      in a\<lparr>start := at,
           offset := (if backed a then offset a + delta else offset a),
           file_length := (if origin a = VMA_FILE_BACKED
             then if file_length a > delta then file_length a - delta else 0
             else file_length a)\<rparr>)"

definition vma_allocate_split :: "bool \<Rightarrow> vm_area \<Rightarrow> u64 \<Rightarrow> vma_set \<Rightarrow> (vm_area \<times> vma_set) option" where
  "vma_allocate_split ok a at s = vma_allocate ok (split_area a at) s"

definition vma_release :: "vm_area \<Rightarrow> vma_set \<Rightarrow> vma_set" where
  "vma_release a s = s\<lparr>held := (\<lambda>r. held s r - count_refs a r)\<rparr>"

definition vma_can_merge :: "vm_area \<Rightarrow> vm_area \<Rightarrow> bool" where
  "vma_can_merge l r \<longleftrightarrow>
     (if finish l \<noteq> start r \<or> protection l \<noteq> protection r \<or> flags l \<noteq> flags r \<or> origin l \<noteq> origin r \<or>
         usage l \<noteq> usage r \<or> vm_file l \<noteq> vm_file r \<or> vm_backing l \<noteq> vm_backing r
      then False
      else
        (let next_offset = offset l + finish l - start l in
         if origin l = VMA_FILE_BACKED \<and>
            (file_length l \<noteq> finish l - start l \<or> next_offset < offset l \<or> next_offset \<noteq> offset r)
         then False
         else if vm_backing l \<noteq> None \<and> (next_offset < offset l \<or> next_offset \<noteq> offset r)
         then False
         else True))"

definition merged :: "vm_area \<Rightarrow> vm_area \<Rightarrow> vm_area" where
  "merged l r = l\<lparr>file_length := (if origin l = VMA_FILE_BACKED then file_length l + file_length r else file_length l),
     finish := finish r\<rparr>"

fun merge_all :: "vm_area list \<Rightarrow> (vma_ref \<Rightarrow> int) \<Rightarrow> vm_area list \<times> (vma_ref \<Rightarrow> int)" where
  "merge_all (a # b # rest) h =
     (if vma_can_merge a b then merge_all (merged a b # rest) (\<lambda>r. h r - count_refs b r)
      else (case merge_all (b # rest) h of (as, h') \<Rightarrow> (a # as, h')))"
| "merge_all as h = (as, h)"

definition vma_merge_all :: "vma_set \<Rightarrow> vma_set" where
  "vma_merge_all s = (case merge_all (areas s) (held s) of (as, h) \<Rightarrow> s\<lparr>areas := as, held := h\<rparr>)"

subsection \<open>Whole sets\<close>

definition vma_set_init :: "vma_set \<Rightarrow> vma_set" where
  "vma_set_init s = s\<lparr>areas := []\<rparr>"

definition vma_set_destroy :: "vma_set \<Rightarrow> vma_set" where
  "vma_set_destroy s = fold vma_release (areas s) s\<lparr>areas := []\<rparr>"

text \<open>Moving: the two sets share the count of references; the source is left empty.\<close>

definition vma_set_move :: "vma_set \<Rightarrow> vm_area list \<Rightarrow> vma_set \<times> vm_area list" where
  "vma_set_move destination source =
     (let d = vma_set_destroy destination
      in if source = [] then (d, []) else (d\<lparr>areas := source\<rparr>, []))"

subsection \<open>Inserting\<close>

definition insert_refused :: "vm_area \<Rightarrow> bool" where
  "insert_refused a \<longleftrightarrow>
     start a \<ge> finish a \<or> start a mod PGSIZE \<noteq> 0 \<or> finish a mod PGSIZE \<noteq> 0 \<or> finish a > MAXVA \<or>
     offset a mod PGSIZE \<noteq> 0 \<or> file_length a > finish a - start a \<or>
     (backed a \<and> finish a - start a > NOT 0 - offset a) \<or>
     (origin a = VMA_FILE_BACKED) \<noteq> (vm_file a \<noteq> None) \<or>
     (vm_backing a \<noteq> None \<and> (origin a \<noteq> VMA_ANONYMOUS \<or> vm_file a \<noteq> None)) \<or>
     (origin a \<noteq> VMA_FILE_BACKED \<and> file_length a \<noteq> 0)"

text \<open>The areas before and after the place of a new area, unless it overlaps one.\<close>

fun vma_place :: "u64 \<Rightarrow> u64 \<Rightarrow> vm_area list \<Rightarrow> (vm_area list \<times> vm_area list) option" where
  "vma_place s e [] = Some ([], [])"
| "vma_place s e (c # cs) =
     (if e \<le> start c then Some ([], c # cs)
      else if s < finish c then None
      else map_option (\<lambda>(before, after). (c # before, after)) (vma_place s e cs))"

text \<open>Merging the new area with its neighbours.\<close>

definition merge_left :: "vm_area list \<Rightarrow> vm_area \<Rightarrow> vma_set \<Rightarrow> vm_area list \<times> vm_area \<times> vma_set" where
  "merge_left before a s =
     (if before \<noteq> [] \<and> vma_can_merge (last before) a
      then (butlast before, merged (last before) a, vma_release a s)
      else (before, a, s))"

definition merge_right :: "vm_area \<Rightarrow> vm_area list \<Rightarrow> vma_set \<Rightarrow> vm_area \<times> vm_area list \<times> vma_set" where
  "merge_right a after s =
     (case after of
        [] \<Rightarrow> (a, [], s)
      | c # cs \<Rightarrow> if vma_can_merge a c then (merged a c, cs, vma_release c s) else (a, after, s))"

definition vma_insert_file_length :: "bool \<Rightarrow> vm_area \<Rightarrow> vma_set \<Rightarrow> int \<times> vma_set" where
  "vma_insert_file_length ok a s =
     (if insert_refused a then (-1, s)
      else (case vma_place (start a) (finish a) (areas s) of
          None \<Rightarrow> (-1, s)
        | Some (before, after) \<Rightarrow>
            (case vma_allocate ok a s of
               None \<Rightarrow> (-1, s)
             | Some (a, s1) \<Rightarrow>
                 (case merge_left before a s1 of
                    (before, a, s2) \<Rightarrow>
                      (case merge_right a after s2 of
                         (a, after, s3) \<Rightarrow> (0, s3\<lparr>areas := before @ a # after\<rparr>))))))"

fun clone_loop :: "(nat \<Rightarrow> bool) \<Rightarrow> nat \<Rightarrow> vm_area list \<Rightarrow> vma_set \<Rightarrow> int \<times> vma_set" where
  "clone_loop ok i [] d = (0, d)"
| "clone_loop ok i (a # as) d =
     (case vma_insert_file_length (ok i) a d of
        (r, d') \<Rightarrow> if r < 0 then (-1, vma_set_destroy d') else clone_loop ok (Suc i) as d')"

text \<open>The source is another set, given by its areas, or (\<open>None\<close>) the destination itself.\<close>

definition vma_set_clone :: "(nat \<Rightarrow> bool) \<Rightarrow> vm_area list option \<Rightarrow> vma_set \<Rightarrow> int \<times> vma_set" where
  "vma_set_clone ok source destination =
     (case source of
        None \<Rightarrow> (0, destination)
      | Some as \<Rightarrow> clone_loop ok 0 as (vma_set_destroy destination))"

definition vma_insert ::
  "bool \<Rightarrow> u64 \<Rightarrow> u64 \<Rightarrow> u32 \<Rightarrow> u32 \<Rightarrow> vma_origin \<Rightarrow> vma_usage \<Rightarrow> nat option \<Rightarrow> u64 \<Rightarrow> vma_set \<Rightarrow> int \<times> vma_set" where
  "vma_insert ok s e prot fl orig use f off space =
     vma_insert_file_length ok \<lparr>start = s, finish = e, offset = off,
       file_length = (if orig = VMA_FILE_BACKED then e - s else 0), protection = prot, flags = fl,
       origin = orig, usage = use, vm_file = f, vm_backing = None\<rparr> space"

text \<open>\<open>has_get\<close> and \<open>has_put\<close>: the callbacks of the backing object are set.\<close>

definition vma_insert_backed ::
  "bool \<Rightarrow> bool \<Rightarrow> bool \<Rightarrow> u64 \<Rightarrow> u64 \<Rightarrow> u32 \<Rightarrow> u32 \<Rightarrow> vma_usage \<Rightarrow> nat option \<Rightarrow> u64 \<Rightarrow> vma_set \<Rightarrow> int \<times> vma_set" where
  "vma_insert_backed ok has_get has_put s e prot fl use b off space =
     (if b = None \<or> \<not> has_get \<or> \<not> has_put then (-1, space)
      else vma_insert_file_length ok \<lparr>start = s, finish = e, offset = off, file_length = 0,
        protection = prot, flags = fl, origin = VMA_ANONYMOUS, usage = use, vm_file = None, vm_backing = b\<rparr> space)"

subsection \<open>Looking up\<close>

fun find_area :: "u64 \<Rightarrow> vm_area list \<Rightarrow> vm_area option" where
  "find_area a [] = None"
| "find_area a (c # cs) =
     (if a < start c then None else if a < finish c then Some c else find_area a cs)"

definition vma_find :: "vma_set \<Rightarrow> u64 \<Rightarrow> vm_area option" where
  "vma_find s a = find_area a (areas s)"

fun range_free :: "u64 \<Rightarrow> u64 \<Rightarrow> vm_area list \<Rightarrow> bool" where
  "range_free s e [] = True"
| "range_free s e (c # cs) = (if e \<le> start c then True else if s < finish c then False else range_free s e cs)"

definition vma_range_free :: "vma_set \<Rightarrow> u64 \<Rightarrow> u64 \<Rightarrow> bool" where
  "vma_range_free space s e = (if s \<ge> e then False else range_free s e (areas space))"

fun range_mapped :: "u64 \<Rightarrow> u64 \<Rightarrow> vm_area list \<Rightarrow> bool" where
  "range_mapped cursor e [] = False"
| "range_mapped cursor e (c # cs) =
     (if finish c \<le> cursor then range_mapped cursor e cs
      else if start c > cursor then False
      else if finish c \<ge> e then True
      else range_mapped (finish c) e cs)"

definition vma_range_mapped :: "vma_set \<Rightarrow> u64 \<Rightarrow> u64 \<Rightarrow> bool" where
  "vma_range_mapped space s e = (if s \<ge> e then False else range_mapped s e (areas space))"

definition vma_count :: "vma_set \<Rightarrow> nat" where
  "vma_count s = length (areas s)"

subsection \<open>Inserting a segment of an executable\<close>

text \<open>Shortening an area to \<open>[start, at)\<close>.\<close>

definition trim_area :: "u64 \<Rightarrow> vm_area \<Rightarrow> vm_area" where
  "trim_area at a = a\<lparr>finish := at, file_length := (if file_length a > at - start a then at - start a else file_length a)\<rparr>"

text \<open>Replacing the area that holds the address \<open>probe\<close>.\<close>

fun replace_at :: "u64 \<Rightarrow> (vm_area \<Rightarrow> vm_area list) \<Rightarrow> vm_area list \<Rightarrow> vm_area list" where
  "replace_at probe f [] = []"
| "replace_at probe f (c # cs) =
     (if probe < start c then c # cs
      else if probe < finish c then f c @ cs
      else c # replace_at probe f cs)"

text \<open>The shared page gains the protection of the new segment; it stays backed by the file only when
  both segments map the same page of the same file.\<close>

definition share_page :: "u32 \<Rightarrow> nat \<Rightarrow> u64 \<Rightarrow> u64 \<Rightarrow> vm_area \<Rightarrow> vm_area" where
  "share_page prot f off len a0 =
     (let a = a0\<lparr>protection := protection a0 OR prot\<rparr>
      in if origin a = VMA_FILE_BACKED \<and> (vm_file a \<noteq> Some f \<or> offset a \<noteq> off)
         then a\<lparr>vm_file := None, origin := VMA_ANONYMOUS, offset := 0, file_length := 0\<rparr>
         else if origin a = VMA_FILE_BACKED \<and> file_length a < len
         then a\<lparr>file_length := (if len < PGSIZE then len else PGSIZE)\<rparr>
         else a)"

definition share_refs :: "nat \<Rightarrow> u64 \<Rightarrow> vm_area \<Rightarrow> vma_set \<Rightarrow> vma_set" where
  "share_refs f off a s =
     (if origin a = VMA_FILE_BACKED \<and> (vm_file a \<noteq> Some f \<or> offset a \<noteq> off) then vma_release a s else s)"

text \<open>\<open>ok\<close>: the allocation of the split; \<open>ok'\<close>: that of the rest of the segment. The first
  component is the result, with the state.\<close>

definition elf_overlap ::
  "bool \<Rightarrow> u64 \<Rightarrow> u64 \<Rightarrow> u32 \<Rightarrow> nat \<Rightarrow> u64 \<Rightarrow> u64 \<Rightarrow> vm_area \<Rightarrow> vma_set \<Rightarrow> vma_set option" where
  "elf_overlap ok s e prot f off len ov space =
     (let oe = s + PGSIZE in
      if oe < s \<or> oe > e \<or> finish ov \<noteq> oe \<or> usage ov \<noteq> VMA_ELF \<or> flags ov \<noteq> LINUX_MAP_PRIVATE then None
      else if (protection ov OR prot) AND LINUX_PROT_WRITE \<noteq> 0 \<and> (protection ov OR prot) AND LINUX_PROT_EXEC \<noteq> 0
      then None
      else if start ov < s
      then (case vma_allocate_split ok ov s space of
          None \<Rightarrow> None
        | Some (p, space1) \<Rightarrow>
            Some ((share_refs f off p space1)\<lparr>areas :=
              replace_at s (\<lambda>a. [trim_area s a, share_page prot f off len p]) (areas space)\<rparr>))
      else Some ((share_refs f off ov space)\<lparr>areas := replace_at s (\<lambda>a. [share_page prot f off len a]) (areas space)\<rparr>))"

definition vma_insert_elf_file ::
  "bool \<Rightarrow> bool \<Rightarrow> u64 \<Rightarrow> u64 \<Rightarrow> u32 \<Rightarrow> nat \<Rightarrow> u64 \<Rightarrow> u64 \<Rightarrow> vma_set \<Rightarrow> int \<times> vma_set" where
  "vma_insert_elf_file ok ok' s e prot f off len space =
     (if s \<ge> e \<or> s mod PGSIZE \<noteq> 0 \<or> e mod PGSIZE \<noteq> 0 \<or> e > MAXVA \<or> off mod PGSIZE \<noteq> 0 \<or>
         e - s > NOT 0 - off \<or> len > e - s
      then (-1, space)
      else
        (let rest = \<lambda>s off len space.
           (if s < e
            then (case vma_insert_file_length ok' \<lparr>start = s, finish = e, offset = off, file_length = len,
                    protection = prot, flags = LINUX_MAP_PRIVATE, origin = VMA_FILE_BACKED, usage = VMA_ELF,
                    vm_file = Some f, vm_backing = None\<rparr> space of
                  (r, space') \<Rightarrow> if r < 0 then (-1, space') else (0, vma_merge_all space'))
            else (0, vma_merge_all space))
         in case vma_find space s of
              None \<Rightarrow> rest s off len space
            | Some ov \<Rightarrow>
                (case elf_overlap ok s e prot f off len ov space of
                   None \<Rightarrow> (-1, space)
                 | Some space' \<Rightarrow>
                     rest (s + PGSIZE) (off + PGSIZE) (if len > PGSIZE then len - PGSIZE else 0) space')))"

definition vma_insert_elf ::
  "bool \<Rightarrow> bool \<Rightarrow> u64 \<Rightarrow> u64 \<Rightarrow> u32 \<Rightarrow> nat \<Rightarrow> u64 \<Rightarrow> vma_set \<Rightarrow> int \<times> vma_set" where
  "vma_insert_elf ok ok' s e prot f off space = vma_insert_elf_file ok ok' s e prot f off (e - s) space"

subsection \<open>Finding room\<close>

definition align_up_offset :: "u64 \<Rightarrow> u64 \<Rightarrow> u64 \<Rightarrow> u64 option" where
  "align_up_offset v alignment off =
     (let low = alignment - 1; residue = off AND low in
      if v \<le> residue then Some residue
      else
        (let delta = v - residue in
         if delta > NOT 0 - low then None else Some (residue + ((delta + low) AND NOT low))))"

definition align_down_offset :: "u64 \<Rightarrow> u64 \<Rightarrow> u64 \<Rightarrow> u64 option" where
  "align_down_offset v alignment off =
     (let low = alignment - 1; residue = off AND low in
      if v < residue then None else Some (residue + ((v - residue) AND NOT low)))"

definition gap_aligned_address :: "u64 \<Rightarrow> u64 \<Rightarrow> u64 \<Rightarrow> u64 \<Rightarrow> u64 \<Rightarrow> u64 option" where
  "gap_aligned_address s e len alignment off =
     (if s \<ge> e \<or> len > e - s then None
      else (case align_down_offset (e - len) alignment off of
          None \<Rightarrow> None
        | Some candidate \<Rightarrow> if candidate < s then None else Some candidate))"

text \<open>The search from the highest area down; the list is in descending order.\<close>

fun gap_loop :: "u64 \<Rightarrow> u64 \<Rightarrow> u64 \<Rightarrow> u64 \<Rightarrow> u64 \<Rightarrow> vm_area list \<Rightarrow> u64 option" where
  "gap_loop low len alignment off cursor [] = gap_aligned_address low cursor len alignment off"
| "gap_loop low len alignment off cursor (c # cs) =
     (if start c \<ge> cursor then gap_loop low len alignment off cursor cs
      else if finish c \<le> low then gap_aligned_address low cursor len alignment off
      else
        (let gap_start = (if finish c > low then finish c else low);
             here = (if finish c < cursor then gap_aligned_address gap_start cursor len alignment off else None);
             cursor' = (if start c < cursor then start c else cursor)
         in case here of
              Some a \<Rightarrow> Some a
            | None \<Rightarrow> if cursor' \<le> low then None else gap_loop low len alignment off cursor' cs))"

definition vma_find_gap_aligned ::
  "vma_set \<Rightarrow> u64 \<Rightarrow> u64 \<Rightarrow> u64 \<Rightarrow> u64 \<Rightarrow> u64 \<Rightarrow> u64 \<Rightarrow> u64 option" where
  "vma_find_gap_aligned space low high hint len alignment off =
     (if low \<ge> high \<or> len = 0 \<or> low mod PGSIZE \<noteq> 0 \<or> high mod PGSIZE \<noteq> 0 \<or> len mod PGSIZE \<noteq> 0 \<or>
         (hint \<noteq> 0 \<and> hint mod PGSIZE \<noteq> 0) \<or> alignment < PGSIZE \<or> alignment AND (alignment - 1) \<noteq> 0 \<or>
         off mod PGSIZE \<noteq> 0 \<or> len > high - low
      then None
      else
        (let hinted = (if hint \<ge> low \<and> hint \<le> high - len then align_up_offset hint alignment off else None)
         in case hinted of
              Some candidate \<Rightarrow>
                if candidate \<le> high - len \<and> vma_range_free space candidate (candidate + len) then Some candidate
                else gap_loop low len alignment off high (rev (areas space))
            | None \<Rightarrow> gap_loop low len alignment off high (rev (areas space))))"

definition vma_find_gap :: "vma_set \<Rightarrow> u64 \<Rightarrow> u64 \<Rightarrow> u64 \<Rightarrow> u64 \<Rightarrow> u64 option" where
  "vma_find_gap space low high hint len = vma_find_gap_aligned space low high hint len PGSIZE 0"

subsection \<open>Unmapping\<close>

text \<open>The loop over the areas; \<open>split\<close> is the piece that stays above a hole inside one area. The
  second component is the split that was not used.\<close>

fun unmap_loop ::
  "u64 \<Rightarrow> u64 \<Rightarrow> vm_area option \<Rightarrow> vm_area list \<Rightarrow> vma_set \<Rightarrow> (vm_area list \<times> vm_area option \<times> vma_set) option" where
  "unmap_loop s e split [] space = Some ([], split, space)"
| "unmap_loop s e split (a # as) space =
     (if finish a \<le> s
      then map_option (\<lambda>(as', r). (a # as', r)) (unmap_loop s e split as space)
      else if start a \<ge> e then Some (a # as, split, space)
      else if s \<le> start a \<and> e \<ge> finish a then unmap_loop s e split as (vma_release a space)
      else if s \<le> start a then Some (split_area a e # as, split, space)
      else if e \<ge> finish a
      then map_option (\<lambda>(as', r). (trim_area s a # as', r)) (unmap_loop s e split as space)
      else (case split of None \<Rightarrow> None | Some p \<Rightarrow> Some (trim_area s a # p # as, None, space)))"

definition finish_unmap :: "u64 \<Rightarrow> u64 \<Rightarrow> vm_area option \<Rightarrow> vma_set \<Rightarrow> (int \<times> vma_set) option" where
  "finish_unmap s e split space =
     map_option (\<lambda>(as, left, space').
         (0, (case left of None \<Rightarrow> space' | Some p \<Rightarrow> vma_release p space')\<lparr>areas := as\<rparr>))
       (unmap_loop s e split (areas space) space)"

definition vma_unmap :: "bool \<Rightarrow> u64 \<Rightarrow> u64 \<Rightarrow> vma_set \<Rightarrow> (int \<times> vma_set) option" where
  "vma_unmap ok s e space =
     (if s \<ge> e \<or> s mod PGSIZE \<noteq> 0 \<or> e mod PGSIZE \<noteq> 0 then Some (-1, space)
      else (case vma_find space s of
          Some a \<Rightarrow>
            if start a < s \<and> finish a > e
            then (case vma_allocate_split ok a e space of
                None \<Rightarrow> Some (-1, space)
              | Some (p, space') \<Rightarrow> finish_unmap s e (Some p) space')
            else finish_unmap s e None space
        | None \<Rightarrow> finish_unmap s e None space))"

subsection \<open>Changing the protection\<close>

fun protect_loop :: "u64 \<Rightarrow> u64 \<Rightarrow> u32 \<Rightarrow> vm_area list \<Rightarrow> vm_area list" where
  "protect_loop s e prot [] = []"
| "protect_loop s e prot (a # as) =
     (if finish a \<le> s then a # protect_loop s e prot as
      else if start a \<ge> e then a # as
      else a\<lparr>protection := prot\<rparr> # protect_loop s e prot as)"

text \<open>Cutting the area that holds \<open>probe\<close> at \<open>at\<close> and inserting the upper piece after it.\<close>

definition cut_area :: "u64 \<Rightarrow> u64 \<Rightarrow> vm_area option \<Rightarrow> vm_area list \<Rightarrow> vm_area list" where
  "cut_area probe at piece as =
     (case piece of None \<Rightarrow> as | Some p \<Rightarrow> replace_at probe (\<lambda>a. [trim_area at a, p]) as)"

definition protect_pieces ::
  "u64 \<Rightarrow> u64 \<Rightarrow> u32 \<Rightarrow> vm_area option \<Rightarrow> vm_area option \<Rightarrow> vma_set \<Rightarrow> int \<times> vma_set" where
  "protect_pieces s e prot start_split end_split space =
     (0, vma_merge_all (space\<lparr>areas := protect_loop s e prot
       (cut_area (e - 1) e end_split (cut_area s s start_split (areas space)))\<rparr>))"

definition protect_end ::
  "bool \<Rightarrow> u64 \<Rightarrow> u64 \<Rightarrow> u32 \<Rightarrow> vm_area \<Rightarrow> vm_area option \<Rightarrow> vma_set \<Rightarrow> int \<times> vma_set" where
  "protect_end ok s e prot end_area start_split space =
     (if e < finish end_area
      then (case vma_allocate_split ok end_area e space of
          None \<Rightarrow> (-1, case start_split of None \<Rightarrow> space | Some p \<Rightarrow> vma_release p space)
        | Some (q, space') \<Rightarrow> protect_pieces s e prot start_split (Some q) space')
      else protect_pieces s e prot start_split None space)"

definition vma_protect :: "bool \<Rightarrow> bool \<Rightarrow> u64 \<Rightarrow> u64 \<Rightarrow> u32 \<Rightarrow> vma_set \<Rightarrow> (int \<times> vma_set) option" where
  "vma_protect ok ok' s e prot space =
     (if s \<ge> e \<or> s mod PGSIZE \<noteq> 0 \<or> e mod PGSIZE \<noteq> 0 \<or> \<not> vma_range_mapped space s e then Some (-1, space)
      else (case (vma_find space s, vma_find space (e - 1)) of
          (Some start_area, Some end_area) \<Rightarrow>
            if s > start start_area
            then (case vma_allocate_split ok start_area s space of
                None \<Rightarrow> Some (-1, space)
              | Some (p, space') \<Rightarrow> Some (protect_end ok' s e prot end_area (Some p) space'))
            else Some (protect_end ok' s e prot end_area None space)
        | _ \<Rightarrow> None))"

end
