(* ===== verification/Vma_Spec.thy ===== *)
theory Vma_Spec
  imports Vma
begin

text \<open>
  The list of areas refines a map from addresses to page attributes: splitting, trimming and
  merging are invisible in the map, and inserting, unmapping and protecting a range change it on
  exactly that range. Of the invariants that \<^verbatim>\<open>vma.h\<close> states the operations are shown to keep that the
  intervals are non-empty, page-aligned, ordered and disjoint, that the offsets are page-aligned, and the
  balance of the references. That adjacent areas with equal attributes are merged is not part of the invariant.
\<close>

subsection \<open>Invariant and abstraction\<close>

definition area_ok :: "vm_area \<Rightarrow> bool" where
  "area_ok a \<longleftrightarrow> \<not> insert_refused a"

definition below :: "vm_area \<Rightarrow> vm_area \<Rightarrow> bool" where
  "below a b \<longleftrightarrow> finish a \<le> start b"

definition vma_ok :: "vm_area list \<Rightarrow> bool" where
  "vma_ok as \<longleftrightarrow> (\<forall>a \<in> set as. area_ok a) \<and> sorted_wrt below as"

definition covers :: "u64 \<Rightarrow> vm_area \<Rightarrow> bool" where
  "covers x a \<longleftrightarrow> start a \<le> x \<and> x < finish a"

text \<open>What an address of an area is mapped to: the attributes, the place in the file or the backing
  object, and whether it lies within the file.\<close>

record page =
  page_protection :: u32
  page_flags :: u32
  page_origin :: vma_origin
  page_usage :: vma_usage
  page_file :: "nat option"
  page_backing :: "nat option"
  page_offset :: "u64 option"
  page_in_file :: bool

definition page_of :: "u64 \<Rightarrow> vm_area \<Rightarrow> page" where
  "page_of x a = \<lparr>page_protection = protection a, page_flags = flags a, page_origin = origin a,
     page_usage = usage a, page_file = vm_file a, page_backing = vm_backing a,
     page_offset = (if backed a then Some (offset a + (x - start a)) else None),
     page_in_file = (x - start a < file_length a)\<rparr>"

definition mapping :: "vm_area list \<Rightarrow> u64 \<Rightarrow> page option" where
  "mapping as x = map_option (page_of x) (List.find (covers x) as)"

lemma mapping_Nil [simp]: "mapping [] x = None"
  by (simp add: mapping_def)

lemma mapping_Cons: "mapping (a # as) x = (if covers x a then Some (page_of x a) else mapping as x)"
  by (simp add: mapping_def)

lemma mapping_append: "mapping (as @ bs) x = (case mapping as x of None \<Rightarrow> mapping bs x | p \<Rightarrow> p)"
  by (induction as) (simp_all add: mapping_Cons)

lemma mapping_none: "(\<And>a. a \<in> set as \<Longrightarrow> \<not> covers x a) \<Longrightarrow> mapping as x = None"
  by (induction as) (simp_all add: mapping_Cons)

text \<open>The conditions of \<^const>\<open>insert_refused\<close> on the values of the fields.\<close>

lemma area_ok_unat:
  "area_ok a \<longleftrightarrow>
     unat (start a) < unat (finish a) \<and> 4096 dvd unat (start a) \<and> 4096 dvd unat (finish a) \<and>
     unat (finish a) \<le> 2 ^ 38 \<and> 4096 dvd unat (offset a) \<and>
     unat (file_length a) \<le> unat (finish a) - unat (start a) \<and>
     (backed a \<longrightarrow> unat (finish a) - unat (start a) + unat (offset a) < 2 ^ 64) \<and>
     (origin a = VMA_FILE_BACKED \<longleftrightarrow> vm_file a \<noteq> None) \<and>
     (vm_backing a \<noteq> None \<longrightarrow> origin a = VMA_ANONYMOUS \<and> vm_file a = None) \<and>
     (origin a \<noteq> VMA_FILE_BACKED \<longrightarrow> file_length a = 0)"
proof -
  have sub: "start a < finish a \<Longrightarrow> unat (finish a - start a) = unat (finish a) - unat (start a)"
    by (simp add: unat_sub less_imp_le)
  have "unat (NOT 0 - offset a) = 2 ^ 64 - 1 - unat (offset a)"
    by (simp add: unat_sub unsigned_minus_1_eq_mask mask_eq_exp_minus_1)
  moreover have "unat (offset a) < 2 ^ 64"
    using unsigned_less [of "offset a"] by simp
  ultimately have off: "\<not> finish a - start a > NOT 0 - offset a \<longleftrightarrow>
      unat (finish a - start a) + unat (offset a) < 2 ^ 64"
    by (simp add: word_less_nat_alt not_less) arith
  show ?thesis
  proof (cases "start a < finish a")
    case True
    then show ?thesis
      unfolding area_ok_def insert_refused_def off [unfolded not_less] not_less [symmetric] de_Morgan_disj
      using off sub by (auto simp: word_order page_simps not_less not_le)
  next
    case False
    then show ?thesis
      by (auto simp: area_ok_def insert_refused_def word_order not_less)
  qed
qed

lemma area_okD:
  assumes "area_ok a"
  shows "unat (start a) < unat (finish a)" "4096 dvd unat (start a)" "4096 dvd unat (finish a)"
    "unat (finish a) \<le> 2 ^ 38" "4096 dvd unat (offset a)"
    "unat (file_length a) \<le> unat (finish a) - unat (start a)"
    "backed a \<Longrightarrow> unat (finish a) - unat (start a) + unat (offset a) < 2 ^ 64"
    "origin a = VMA_FILE_BACKED \<longleftrightarrow> vm_file a \<noteq> None"
    "vm_backing a \<noteq> None \<longrightarrow> origin a = VMA_ANONYMOUS \<and> vm_file a = None"
    "origin a \<noteq> VMA_FILE_BACKED \<Longrightarrow> file_length a = 0"
  using assms unfolding area_ok_unat by blast+

lemma area_ok_less: "area_ok a \<Longrightarrow> start a < finish a"
  by (simp add: area_ok_unat word_less_nat_alt)

lemma vma_ok_Cons: "vma_ok (a # as) \<longleftrightarrow> area_ok a \<and> (\<forall>b \<in> set as. finish a \<le> start b) \<and> vma_ok as"
  by (auto simp: vma_ok_def below_def)

lemma vma_ok_append:
  "vma_ok (as @ bs) \<longleftrightarrow> vma_ok as \<and> vma_ok bs \<and> (\<forall>a \<in> set as. \<forall>b \<in> set bs. finish a \<le> start b)"
  by (auto simp: vma_ok_def below_def sorted_wrt_append)

lemma vma_ok_area: "vma_ok as \<Longrightarrow> a \<in> set as \<Longrightarrow> area_ok a"
  by (simp add: vma_ok_def)

subsection \<open>Splitting, trimming and merging are invisible\<close>

lemma sub_split:
  fixes a b c :: u64
  assumes "a \<le> b" "b \<le> c"
  shows "unat (c - a) = unat (b - a) + unat (c - b)"
  using assms by (simp add: unat_sub word_le_nat_alt)

lemma page_of_split:
  assumes "start a \<le> at" "at \<le> x"
  shows "page_of x (split_area a at) = page_of x a \<or> origin a \<noteq> VMA_FILE_BACKED \<and> file_length a \<noteq> 0"
  using sub_split [OF assms]
  by (auto simp: page_of_def split_area_def Let_def backed_def word_less_nat_alt unat_sub word_le_nat_alt not_less)

lemma page_split:
  assumes "area_ok a" "start a \<le> at" "at \<le> x"
  shows "page_of x (split_area a at) = page_of x a"
  using page_of_split [OF assms(2,3)] assms(1) by (auto simp: area_ok_unat)

lemma page_trim:
  assumes "start a \<le> x" "x < at"
  shows "page_of x (trim_area at a) = page_of x a"
proof -
  have "x - start a < at - start a"
    using assms by (simp add: word_less_nat_alt word_le_nat_alt unat_sub)
  then show ?thesis
    by (auto simp: page_of_def trim_area_def backed_def)
qed

lemma split_area_simps [simp]:
  "start (split_area a at) = at" "finish (split_area a at) = finish a" "origin (split_area a at) = origin a"
  "vm_file (split_area a at) = vm_file a" "vm_backing (split_area a at) = vm_backing a"
  "usage (split_area a at) = usage a" "backed (split_area a at) = backed a"
  by (simp_all add: split_area_def Let_def backed_def)

lemma trim_area_simps [simp]:
  "start (trim_area at a) = start a" "finish (trim_area at a) = at" "origin (trim_area at a) = origin a"
  "vm_file (trim_area at a) = vm_file a" "vm_backing (trim_area at a) = vm_backing a"
  "usage (trim_area at a) = usage a" "offset (trim_area at a) = offset a" "backed (trim_area at a) = backed a"
  by (simp_all add: trim_area_def backed_def)

lemma merged_simps [simp]:
  "start (merged l r) = start l" "finish (merged l r) = finish r" "origin (merged l r) = origin l"
  "vm_file (merged l r) = vm_file l" "vm_backing (merged l r) = vm_backing l" "usage (merged l r) = usage l"
  "offset (merged l r) = offset l" "backed (merged l r) = backed l"
  by (simp_all add: merged_def backed_def)

lemma mapping_split:
  assumes "area_ok a" "start a < at" "at < finish a"
  shows "mapping (trim_area at a # split_area a at # as) x = mapping (a # as) x"
  using assms page_split [of a at x] page_trim [of a x at]
  by (auto simp: mapping_Cons covers_def not_less)

lemma trim_ok:
  assumes "area_ok a" "start a < at" "at < finish a" "at mod PGSIZE = 0"
  shows "area_ok (trim_area at a)"
  using assms unat_sub [of "start a" at]
  by (auto simp: area_ok_unat word_order page_simps trim_area_def backed_def)

lemma split_ok:
  assumes a: "area_ok a" and at: "start a < at" "at < finish a" "at mod PGSIZE = 0"
  shows "area_ok (split_area a at)"
proof -
  note f = a [unfolded area_ok_unat]
  have d: "unat (at - start a) = unat at - unat (start a)"
    using at by (simp add: unat_sub)
  have ord: "unat (start a) < unat at" "unat at < unat (finish a)"
    using at by (simp_all add: word_less_nat_alt)
  have off: "unat (offset a + (at - start a)) = unat (offset a) + (unat at - unat (start a))" if "backed a"
    using f ord that d unat_add_no_overflow [of "offset a" "at - start a"] by auto
  have dvd: "4096 dvd unat at" "4096 dvd unat (start a)" "4096 dvd unat (offset a)"
    using f at(3) by (simp_all add: page_simps)
  have len: "unat (file_length (split_area a at)) = unat (file_length a) - (unat at - unat (start a))"
    if "origin a = VMA_FILE_BACKED"
    using that d by (auto simp: split_area_def Let_def word_less_nat_alt unat_sub word_le_nat_alt)
  have offs: "offset (split_area a at) = (if backed a then offset a + (at - start a) else offset a)"
    by (simp add: split_area_def Let_def)
  have "4096 dvd unat (offset (split_area a at))"
    using dvd by (auto simp: offs off dvd_diff_nat)
  moreover have "unat (file_length (split_area a at)) \<le> unat (finish a) - unat at"
    using f ord len by (cases "origin a = VMA_FILE_BACKED") (auto simp: split_area_def Let_def)
  moreover have "origin a \<noteq> VMA_FILE_BACKED \<longrightarrow> file_length (split_area a at) = 0"
    using f by (simp add: split_area_def Let_def)
  moreover have "backed a \<longrightarrow> unat (finish a) - unat at + unat (offset (split_area a at)) < 2 ^ 64"
    using f ord off by (auto simp: offs)
  ultimately show ?thesis
    using f ord dvd(1) unfolding area_ok_unat by simp
qed

text \<open>Facts about two areas that can be merged.\<close>

lemma can_merge_facts:
  assumes "vma_can_merge l r"
  shows "finish l = start r" "protection l = protection r" "flags l = flags r" "origin l = origin r"
    "usage l = usage r" "vm_file l = vm_file r" "vm_backing l = vm_backing r"
    "backed l \<Longrightarrow> offset r = offset l + (finish l - start l)"
    "origin l = VMA_FILE_BACKED \<Longrightarrow> file_length l = finish l - start l"
  using assms by (auto simp: vma_can_merge_def Let_def backed_def add_diff_eq split: if_splits)

lemma merge_gap:
  assumes "vma_can_merge l r" "area_ok l" "area_ok r"
  shows "unat (finish l - start l) = unat (start r) - unat (start l)" "unat (start l) < unat (start r)"
    "backed r = backed l"
    "backed l \<Longrightarrow> unat (offset r) = unat (offset l) + (unat (start r) - unat (start l))"
proof -
  note m = can_merge_facts [OF assms(1)] and l = area_okD [OF assms(2)]
  show gap: "unat (finish l - start l) = unat (start r) - unat (start l)" "unat (start l) < unat (start r)"
    using l(1) m(1) by (simp_all add: unat_sub word_le_nat_alt)
  show "backed r = backed l"
    using m(4,7) by (simp add: backed_def)
  assume b: "backed l"
  have "unat (offset l) + unat (finish l - start l) < 2 ^ 64"
    using l(7) [OF b] gap(1) m(1) by simp
  then show "unat (offset r) = unat (offset l) + (unat (start r) - unat (start l))"
    using m(8) [OF b] unat_add_no_overflow [of "offset l" "finish l - start l"] gap(1) by simp
qed

lemma merged_length:
  assumes "vma_can_merge l r" "area_ok l" "area_ok r"
  shows "unat (file_length (merged l r)) =
    (if origin l = VMA_FILE_BACKED then unat (start r) - unat (start l) + unat (file_length r) else 0)"
proof (cases "origin l = VMA_FILE_BACKED")
  case True
  have "unat (file_length l) = unat (start r) - unat (start l)"
    using can_merge_facts(9) [OF assms(1) True] merge_gap(1) [OF assms] by simp
  moreover have "unat (file_length r) \<le> unat (finish r) - unat (start r)" "unat (finish r) \<le> 2 ^ 38"
    "unat (start l) < unat (start r)" "unat (start r) < unat (finish r)"
    using area_okD(1,4,6) [OF assms(3)] merge_gap(2) [OF assms] by simp_all
  ultimately show ?thesis
    using True unat_add_no_overflow [of "file_length l" "file_length r"] by (simp add: merged_def)
next
  case False
  then show ?thesis
    using area_okD(10) [OF assms(2)] by (simp add: merged_def)
qed

lemma merged_ok:
  assumes "vma_can_merge l r" "area_ok l" "area_ok r"
  shows "area_ok (merged l r)"
proof -
  note m = can_merge_facts [OF assms(1)] and l = area_okD [OF assms(2)] and r = area_okD [OF assms(3)]
    and g = merge_gap [OF assms]
  have "unat (file_length (merged l r)) \<le> unat (finish r) - unat (start l)"
    using merged_length [OF assms] r(1,6) g(2) by (simp split: if_splits)
  moreover have "unat (finish r) - unat (start l) + unat (offset l) < 2 ^ 64" if "backed l"
    using r(7) g(3) g(4) [OF that] that r(1) g(2) by simp
  moreover have "origin l \<noteq> VMA_FILE_BACKED \<Longrightarrow> file_length (merged l r) = 0"
    using l(10) by (simp add: merged_def)
  moreover have "unat (start l) < unat (finish r)"
    using g(2) r(1) by linarith
  ultimately show ?thesis
    unfolding area_ok_unat merged_simps using l(2,5,8,9) r(3,4) by blast
qed

lemma page_merged:
  assumes "vma_can_merge l r" "area_ok l" "area_ok r"
  shows "covers x l \<Longrightarrow> page_of x (merged l r) = page_of x l"
    and "covers x r \<Longrightarrow> page_of x (merged l r) = page_of x r"
proof -
  note m = can_merge_facts [OF assms(1)] and l = area_okD [OF assms(2)] and r = area_okD [OF assms(3)]
    and g = merge_gap [OF assms] and ml = merged_length [OF assms]
  have same: "protection (merged l r) = protection l" "flags (merged l r) = flags l"
    by (simp_all add: merged_def)
  show "page_of x (merged l r) = page_of x l" if x: "covers x l"
  proof -
    have "unat (x - start l) < unat (start r) - unat (start l)"
      using x m(1) by (auto simp: covers_def unat_sub word_order)
    moreover have "origin l = VMA_FILE_BACKED \<Longrightarrow> unat (file_length l) = unat (start r) - unat (start l)"
      using m(9) g(1) by simp
    ultimately have "x - start l < file_length (merged l r) \<longleftrightarrow> x - start l < file_length l"
      using ml l(10) by (cases "origin l = VMA_FILE_BACKED") (simp_all add: word_less_nat_alt)
    then show ?thesis
      by (simp add: page_of_def same)
  qed
  show "page_of x (merged l r) = page_of x r" if x: "covers x r"
  proof -
    have "unat (x - start l) = unat (start r) - unat (start l) + unat (x - start r)"
      using sub_split [of "start l" "start r" x] x g(1,2) m(1) by (simp add: covers_def word_le_nat_alt)
    then have "x - start l < file_length (merged l r) \<longleftrightarrow> x - start r < file_length r"
      using ml r(10) m(4) by (cases "origin l = VMA_FILE_BACKED") (simp_all add: word_less_nat_alt)
    moreover have "backed l \<Longrightarrow> offset l + (x - start l) = offset r + (x - start r)"
      using m(1,8) by (simp add: algebra_simps)
    ultimately show ?thesis
      using m(2-7) g(3) by (simp add: page_of_def same)
  qed
qed

lemma mapping_merged:
  assumes "vma_can_merge l r" "area_ok l" "area_ok r"
  shows "mapping (merged l r # as) x = mapping (l # r # as) x"
proof -
  have "covers x (merged l r) \<longleftrightarrow> covers x l \<or> covers x r"
    using can_merge_facts(1) [OF assms(1)] area_ok_less [OF assms(2)] area_ok_less [OF assms(3)]
    by (auto simp: covers_def)
  then show ?thesis
    using page_merged [OF assms] by (auto simp: mapping_Cons)
qed

subsection \<open>References\<close>

definition refs :: "vm_area list \<Rightarrow> vma_ref \<Rightarrow> int" where
  "refs as r = (\<Sum>a \<leftarrow> as. count_refs a r)"

text \<open>The references not accounted for by the areas of the set.\<close>

definition unowned :: "vma_set \<Rightarrow> vma_ref \<Rightarrow> int" where
  "unowned s r = held s r - refs (areas s) r"

lemma refs_simps [simp]:
  "refs [] r = 0" "refs (a # as) r = count_refs a r + refs as r" "refs (as @ bs) r = refs as r + refs bs r"
  by (simp_all add: refs_def)

lemma count_refs_cong [simp]:
  "count_refs (split_area a at) r = count_refs a r" "count_refs (trim_area at a) r = count_refs a r"
  "count_refs (merged l m) r = count_refs l r" "count_refs (a\<lparr>protection := p\<rparr>) r = count_refs a r"
  by (simp_all add: count_refs_def area_refs_def split: option.split)

lemma vma_release_simps [simp]:
  "held (vma_release a s) r = held s r - count_refs a r" "areas (vma_release a s) = areas s"
  by (simp_all add: vma_release_def)

subsection \<open>Lookup\<close>

lemma find_area_Some:
  "find_area x as = Some a \<Longrightarrow> a \<in> set as \<and> covers x a"
  by (induction as) (auto simp: covers_def split: if_splits)

lemma find_area_find:
  "vma_ok as \<Longrightarrow> find_area x as = List.find (covers x) as"
proof (induction as)
  case (Cons c cs)
  then have ok: "area_ok c" "\<forall>b \<in> set cs. finish c \<le> start b" "vma_ok cs"
    by (simp_all add: vma_ok_Cons)
  show ?case
  proof (cases "x < start c")
    case True
    have "\<not> covers x b" if "b \<in> set (c # cs)" for b
      using that True ok(2) area_ok_less [OF ok(1)] by (auto simp: covers_def not_le)
    then have "List.find (covers x) (c # cs) = None"
      unfolding find_None_iff by blast
    then show ?thesis
      using True by simp
  next
    case False
    then show ?thesis
      using Cons.IH [OF ok(3)] by (auto simp: covers_def)
  qed
qed simp

lemma covers_unique:
  assumes "vma_ok as" "a \<in> set as" "b \<in> set as" "covers x a" "covers x b"
  shows "a = b"
  using assms
proof (induction as)
  case (Cons c cs)
  then have "\<forall>b \<in> set cs. finish c \<le> start b" "vma_ok cs"
    by (simp_all add: vma_ok_Cons)
  then show ?case
    using Cons by (auto simp: covers_def)
qed simp

lemma find_area_iff:
  assumes "vma_ok as"
  shows "find_area x as = Some a \<longleftrightarrow> a \<in> set as \<and> covers x a"
proof
  assume a: "a \<in> set as \<and> covers x a"
  then obtain b where "find_area x as = Some b"
    using find_area_find [OF assms, of x] by (metis find_None_iff not_Some_eq)
  moreover from this have "b = a"
    using find_area_Some covers_unique [OF assms] a by blast
  ultimately show "find_area x as = Some a"
    by simp
qed (rule find_area_Some)

lemma mapping_find: "vma_ok as \<Longrightarrow> mapping as x = map_option (page_of x) (find_area x as)"
  by (simp add: mapping_def find_area_find)

lemma range_mapped_covered:
  "range_mapped cursor e as \<Longrightarrow> cursor \<le> x \<Longrightarrow> x < e \<Longrightarrow> \<exists>a \<in> set as. covers x a"
  by (induction as arbitrary: cursor) (force simp: covers_def split: if_splits)+

lemma range_free_clear:
  "vma_ok as \<Longrightarrow> range_free s e as \<Longrightarrow> b \<in> set as \<Longrightarrow> finish b \<le> s \<or> e \<le> start b"
proof (induction as)
  case (Cons c cs)
  then have c: "area_ok c" "\<forall>b \<in> set cs. finish c \<le> start b" "vma_ok cs"
    by (simp_all add: vma_ok_Cons)
  then show ?case
    using Cons area_ok_less [OF c(1)] by (fastforce split: if_splits)
qed simp

subsection \<open>Inserting\<close>

lemma vma_place_spec:
  assumes "vma_ok as" "vma_place s e as = Some (before, after)" "s < e"
  shows "as = before @ after" "\<forall>b \<in> set before. finish b \<le> s" "\<forall>b \<in> set after. e \<le> start b"
proof -
  have "as = before @ after \<and> (\<forall>b \<in> set before. finish b \<le> s) \<and> (\<forall>b \<in> set after. e \<le> start b)"
    using assms(1,2)
  proof (induction as arbitrary: before)
    case (Cons c cs)
    then have c: "area_ok c" "\<forall>b \<in> set cs. finish c \<le> start b" "vma_ok cs"
      by (simp_all add: vma_ok_Cons)
    show ?case
    proof (cases "e \<le> start c")
      case True
      then show ?thesis
        using Cons.prems(2) c(2) area_ok_less [OF c(1)] by fastforce
    next
      case False
      then obtain before' where "vma_place s e cs = Some (before', after)" "before = c # before'" "finish c \<le> s"
        using Cons.prems(2) by (auto split: if_splits)
      then show ?thesis
        using Cons.IH [OF c(3)] by auto
    qed
  qed simp
  then show "as = before @ after" "\<forall>b \<in> set before. finish b \<le> s" "\<forall>b \<in> set after. e \<le> start b"
    by blast+
qed

lemma insert_between:
  assumes "vma_ok (before @ after)" "area_ok a" "\<forall>b \<in> set before. finish b \<le> start a" "\<forall>b \<in> set after. finish a \<le> start b"
  shows "vma_ok (before @ a # after)"
    "mapping (before @ a # after) x = (if covers x a then Some (page_of x a) else mapping (before @ after) x)"
proof -
  show "vma_ok (before @ a # after)"
    using assms by (auto simp: vma_ok_append vma_ok_Cons)
  have "covers x a \<Longrightarrow> mapping before x = None"
    using assms(3) by (intro mapping_none) (auto simp: covers_def)
  then show "mapping (before @ a # after) x = (if covers x a then Some (page_of x a) else mapping (before @ after) x)"
    by (auto simp: mapping_append mapping_Cons split: option.splits)
qed

text \<open>Merging two neighbours of a list.\<close>

lemma merge_step:
  assumes "vma_ok (before @ l # r # after)" "vma_can_merge l r"
  shows "vma_ok (before @ merged l r # after)" "mapping (before @ merged l r # after) x = mapping (before @ l # r # after) x"
proof -
  have ok: "area_ok l" "area_ok r"
    using assms(1) by (simp_all add: vma_ok_append vma_ok_Cons)
  show "vma_ok (before @ merged l r # after)"
    using assms(1) merged_ok [OF assms(2) ok] by (auto simp: vma_ok_append vma_ok_Cons)
  show "mapping (before @ merged l r # after) x = mapping (before @ l # r # after) x"
    by (simp add: mapping_append mapping_merged [OF assms(2) ok] split: option.split)
qed

lemma merge_left_spec:
  assumes "merge_left before a s = (before', a', s')" "vma_ok (before @ a # after)"
  shows "vma_ok (before' @ a' # after)" "mapping (before' @ a' # after) x = mapping (before @ a # after) x"
    "held s' r - refs (before' @ a' # after) r = held s r - refs (before @ a # after) r"
proof -
  have "vma_ok (before' @ a' # after) \<and> mapping (before' @ a' # after) x = mapping (before @ a # after) x \<and>
      held s' r - refs (before' @ a' # after) r = held s r - refs (before @ a # after) r"
  proof (cases "before \<noteq> [] \<and> vma_can_merge (last before) a")
    case True
    then obtain bs l where b: "before = bs @ [l]" "vma_can_merge l a"
      by (metis append_butlast_last_id last_snoc)
    then have "before' = bs" "a' = merged l a" "s' = vma_release a s"
      using assms(1) by (simp_all add: merge_left_def)
    then show ?thesis
      using b merge_step(1) [of bs l a after] merge_step(2) [of bs l a after x] assms(2) by simp
  next
    case False
    then have "before' = before" "a' = a" "s' = s"
      using assms(1) by (auto simp: merge_left_def)
    then show ?thesis
      using assms(2) by simp
  qed
  then show "vma_ok (before' @ a' # after)" "mapping (before' @ a' # after) x = mapping (before @ a # after) x"
    "held s' r - refs (before' @ a' # after) r = held s r - refs (before @ a # after) r"
    by simp_all
qed

lemma merge_right_spec:
  assumes "merge_right a after s = (a', after', s')" "vma_ok (before @ a # after)"
  shows "vma_ok (before @ a' # after')" "mapping (before @ a' # after') x = mapping (before @ a # after) x"
    "held s' r - refs (before @ a' # after') r = held s r - refs (before @ a # after) r"
proof -
  have "vma_ok (before @ a' # after') \<and> mapping (before @ a' # after') x = mapping (before @ a # after) x \<and>
      held s' r - refs (before @ a' # after') r = held s r - refs (before @ a # after) r"
  proof (cases after)
    case (Cons c cs)
    then show ?thesis
      using assms merge_step(1) [of before a c cs] merge_step(2) [of before a c cs x] by (auto simp: merge_right_def split: if_splits)
  qed (use assms in \<open>simp add: merge_right_def\<close>)
  then show "vma_ok (before @ a' # after')" "mapping (before @ a' # after') x = mapping (before @ a # after) x"
    "held s' r - refs (before @ a' # after') r = held s r - refs (before @ a # after) r"
    by simp_all
qed

lemma merge_all_spec:
  "vma_ok as \<Longrightarrow> merge_all as h = (as', h') \<Longrightarrow>
     vma_ok as' \<and> (\<forall>x. mapping as' x = mapping as x) \<and> (\<forall>r. h' r - refs as' r = h r - refs as r) \<and>
     (as \<noteq> [] \<longrightarrow> as' \<noteq> [] \<and> start (hd as') = start (hd as))"
proof (induction as h arbitrary: as' h' rule: merge_all.induct [case_names pair nil one])
  case (pair a b rest h)
  show ?case
  proof (cases "vma_can_merge a b")
    case True
    then have "vma_ok (merged a b # rest)" "\<forall>x. mapping (merged a b # rest) x = mapping (a # b # rest) x"
      using merge_step [of "[]" a b rest] pair.prems(1) by simp_all
    then show ?thesis
      using pair.IH(1) [OF True, of as' h'] pair.prems(2) True by simp
  next
    case False
    obtain as'' where m: "merge_all (b # rest) h = (as'', h')" "as' = a # as''"
      using pair.prems(2) False by (auto split: prod.splits)
    have ok: "vma_ok (b # rest)" "area_ok a" "\<forall>c \<in> set (b # rest). finish a \<le> start c"
      using pair.prems(1) by (simp_all add: vma_ok_Cons)
    have IH: "vma_ok as''" "\<forall>x. mapping as'' x = mapping (b # rest) x"
      "\<forall>r. h' r - refs as'' r = h r - refs (b # rest) r" "as'' \<noteq> []" "start (hd as'') = start b"
      using pair.IH(2) [OF False ok(1) m(1)] by simp_all
    have "\<forall>c \<in> set as''. finish a \<le> start c"
    proof -
      have "start (hd as'') \<le> start c" if "c \<in> set as''" for c
        using IH(1,4) that area_ok_less
        by (cases as'') (fastforce simp: vma_ok_Cons)+
      then show ?thesis
        using IH(5) ok(3) by fastforce
    qed
    then have "vma_ok as'"
      using IH(1) ok(2) m(2) by (simp add: vma_ok_Cons)
    moreover have "\<forall>x. mapping as' x = mapping (a # b # rest) x"
      using IH(2) m(2) by (simp add: mapping_Cons [of a])
    moreover have "\<forall>r. h' r - refs as' r = h r - refs (a # b # rest) r"
      using IH(3) m(2) by (simp add: algebra_simps)
    ultimately show ?thesis
      using m(2) by simp
  qed
qed simp_all

lemma insert_spec:
  assumes ok: "vma_ok (areas s)" and r: "vma_insert_file_length allocated a s = (res, s')"
  shows "res = 0 \<and> vma_ok (areas s') \<and>
      (\<forall>x. mapping (areas s') x = (if covers x a then Some (page_of x a) else mapping (areas s) x)) \<and>
      (\<forall>x. covers x a \<longrightarrow> mapping (areas s) x = None) \<and> unowned s' = unowned s \<or>
    res = -1 \<and> s' = s"
proof (cases "insert_refused a \<or> vma_place (start a) (finish a) (areas s) = None \<or> \<not> allocated")
  case True
  then show ?thesis
    using r by (auto simp: vma_insert_file_length_def vma_allocate_def split: if_splits option.splits prod.splits)
next
  case False
  then have a: "area_ok a" "allocated"
    by (simp_all add: area_ok_def)
  obtain before after where place: "vma_place (start a) (finish a) (areas s) = Some (before, after)"
    using False by auto
  note p = vma_place_spec [OF ok place area_ok_less [OF a(1)]]
  define s1 where "s1 = s\<lparr>held := (\<lambda>r. held s r + count_refs a r)\<rparr>"
  obtain b1 a1 s2 where l: "merge_left before a s1 = (b1, a1, s2)"
    by (cases "merge_left before a s1") auto
  obtain a2 c2 s3 where m: "merge_right a1 after s2 = (a2, c2, s3)"
    by (cases "merge_right a1 after s2") auto
  have s': "res = 0" "s' = s3\<lparr>areas := b1 @ a2 # c2\<rparr>"
    using r False a(2) place l m by (simp_all add: vma_insert_file_length_def vma_allocate_def s1_def)
  have new: "vma_ok (before @ a # after)"
    "\<And>x. mapping (before @ a # after) x = (if covers x a then Some (page_of x a) else mapping (areas s) x)"
    using insert_between [OF _ a(1) p(2,3)] ok p(1) by simp_all
  note left = merge_left_spec [OF l new(1)]
  note right = merge_right_spec [OF m left(1)]
  have "mapping (areas s) x = None" if "covers x a" for x
    using that p unfolding p(1) by (intro mapping_none) (auto simp: covers_def)
  moreover have "unowned s' ref = unowned s ref" for ref
    using left(3) [where r = ref] right(3) [where r = ref] p(1) by (simp add: unowned_def s' s1_def)
  then have "unowned s' = unowned s"
    by blast
  ultimately show ?thesis
    using s' right(1,2) left(2) new(2) by simp
qed

end
