(* ===== verification/Vma_Ops.thy ===== *)
theory Vma_Ops
  imports Vma_Spec
begin

text \<open>
  Unmapping and protecting ranges and finding room, on top of the abstraction of \<^verbatim>\<open>Vma_Spec\<close>, and
  the properties of the address space.
\<close>

subsection \<open>Unmapping\<close>

lemma vma_ok_tail_start:
  "vma_ok (a # as) \<Longrightarrow> b \<in> set as \<Longrightarrow> start a < start b"
  using area_ok_less by (fastforce simp: vma_ok_Cons)

lemma trim_before:
  assumes "vma_ok (a # as)" "start a < s" "s < finish a" "s mod PGSIZE = 0"
  shows "area_ok (trim_area s a)" "\<forall>b \<in> set as. s \<le> start b"
  using assms trim_ok [of a s] by (auto simp: vma_ok_Cons intro: order.trans less_imp_le)

text \<open>What is left of the areas after unmapping \<open>[s, e)\<close>: the members start where old members
  started or at the end of the hole, so the order is kept.\<close>

definition unmapped :: "u64 \<Rightarrow> u64 \<Rightarrow> vm_area list \<Rightarrow> vm_area list \<Rightarrow> bool" where
  "unmapped s e as as' \<longleftrightarrow>
     vma_ok as' \<and> (\<forall>b \<in> set as'. \<exists>a \<in> set as. start a \<le> start b) \<and>
     (\<forall>x. mapping as' x = (if s \<le> x \<and> x < e then None else mapping as x))"

lemma unmapped_after:
  assumes "vma_ok (a # as)" "e \<le> start a"
  shows "unmapped s e (a # as) (a # as)"
proof -
  have "\<not> covers x b" if "b \<in> set (a # as)" "x < e" for x b
    using that assms(2) vma_ok_tail_start [OF assms(1)] by (fastforce simp: covers_def)
  then have "mapping (a # as) x = None" if "x < e" for x
    using that by (intro mapping_none) blast
  then show ?thesis
    using assms(1) by (auto simp: unmapped_def)
qed

lemma unmapped_Cons:
  assumes "vma_ok (a # as)" "unmapped s e as as'" "area_ok a'" "start a' = start a" "finish a' \<le> finish a"
    and page: "\<And>x. (if covers x a' then Some (page_of x a') else None) =
      (if s \<le> x \<and> x < e then None else if covers x a then Some (page_of x a) else None)"
  shows "unmapped s e (a # as) (a' # as')"
proof -
  have "finish a' \<le> start b" if "b \<in> set as'" for b
    using that assms(1,2,5) by (fastforce simp: unmapped_def vma_ok_Cons)
  then have "vma_ok (a' # as')"
    using assms(2,3) by (simp add: vma_ok_Cons unmapped_def)
  moreover have "mapping (a' # as') x = (if s \<le> x \<and> x < e then None else mapping (a # as) x)" for x
    using page [of x] assms(2) by (auto simp: mapping_Cons unmapped_def split: if_splits)
  ultimately show ?thesis
    using assms(2,4) by (auto simp: unmapped_def)
qed

lemma unmap_loop_spec:
  assumes se: "s < e" "s mod PGSIZE = 0" "e mod PGSIZE = 0"
    and "vma_ok as" "\<forall>a \<in> set as. start a < s \<longrightarrow> e < finish a \<longrightarrow> split = Some (split_area a e)"
  shows "\<exists>as' left s2. unmap_loop s e split as s1 = Some (as', left, s2) \<and> unmapped s e as as' \<and>
    (\<forall>r. held s2 r - refs as' r - (case left of None \<Rightarrow> 0 | Some p \<Rightarrow> count_refs p r) =
      held s1 r - refs as r - (case split of None \<Rightarrow> 0 | Some p \<Rightarrow> count_refs p r))"
  using assms(4,5)
proof (induction as arbitrary: s1)
  case Nil
  then show ?case
    by (simp add: unmapped_def)
next
  case (Cons a as)
  then have a: "area_ok a" "\<forall>b \<in> set as. finish a \<le> start b" "vma_ok as"
    by (simp_all add: vma_ok_Cons)
  note nle = not_le [THEN iffD2]
  have IH: "\<exists>as' left s2. unmap_loop s e split as s1 = Some (as', left, s2) \<and> unmapped s e as as' \<and>
    (\<forall>r. held s2 r - refs as' r - (case left of None \<Rightarrow> 0 | Some p \<Rightarrow> count_refs p r) =
      held s1 r - refs as r - (case split of None \<Rightarrow> 0 | Some p \<Rightarrow> count_refs p r))" for s1
    using Cons.IH [OF a(3)] Cons.prems(2) by simp
  consider (below) "finish a \<le> s" | (above) "e \<le> start a" "s < finish a"
    | (inside) "s < finish a" "start a < e" "s \<le> start a" "finish a \<le> e"
    | (head) "s < finish a" "start a < e" "s \<le> start a" "e < finish a"
    | (tail) "s < finish a" "start a < e" "start a < s" "finish a \<le> e"
    | (hole) "start a < s" "e < finish a" "s < finish a" "start a < e"
    using le_less_linear [of "finish a" s] le_less_linear [of e "start a"] le_less_linear [of s "start a"]
      le_less_linear [of "finish a" e] by blast
  then show ?case
  proof cases
    case below
    obtain as' left s2 where "unmap_loop s e split as s1 = Some (as', left, s2)" "unmapped s e as as'"
      "\<forall>r. held s2 r - refs as' r - (case left of None \<Rightarrow> 0 | Some p \<Rightarrow> count_refs p r) =
        held s1 r - refs as r - (case split of None \<Rightarrow> 0 | Some p \<Rightarrow> count_refs p r)"
      using IH [of s1] by blast
    moreover have "unmapped s e (a # as) (a # as')"
      by (rule unmapped_Cons [OF Cons.prems(1) \<open>unmapped s e as as'\<close> a(1)]) (use below in \<open>auto simp: covers_def\<close>)
    ultimately show ?thesis
      using below by (simp add: algebra_simps)
  next
    case above
    then show ?thesis
      using unmapped_after [OF Cons.prems(1) above(1)] nle [OF above(2)] by simp
  next
    case inside
    obtain as' left s2 where r: "unmap_loop s e split as (vma_release a s1) = Some (as', left, s2)" "unmapped s e as as'"
      "\<forall>r. held s2 r - refs as' r - (case left of None \<Rightarrow> 0 | Some p \<Rightarrow> count_refs p r) =
        held (vma_release a s1) r - refs as r - (case split of None \<Rightarrow> 0 | Some p \<Rightarrow> count_refs p r)"
      using IH [of "vma_release a s1"] by blast
    have "unmapped s e (a # as) as'"
      using r(2) inside by (auto simp: unmapped_def mapping_Cons covers_def)
    then show ?thesis
      using inside nle [OF inside(1)] nle [OF inside(2)] r by (simp add: algebra_simps)
  next
    case head
    have "start a < e" "e < finish a" "area_ok (split_area a e)"
      using head split_ok [OF a(1) _ _ se(3)] by simp_all
    moreover have "page_of x (split_area a e) = page_of x a" if "e \<le> x" for x
      using page_split [OF a(1)] head(2) that by simp
    moreover have "mapping as x = None" if "x < finish a" for x
      using a(2) that by (intro mapping_none) (auto simp: covers_def)
    ultimately have "unmapped s e (a # as) (split_area a e # as)"
      using a head by (auto simp: unmapped_def vma_ok_Cons mapping_Cons covers_def not_less)
    then show ?thesis
      using head nle [OF head(1)] nle [OF head(2)] nle [OF head(4)] by simp
  next
    case tail
    obtain as' left s2 where r: "unmap_loop s e split as s1 = Some (as', left, s2)" "unmapped s e as as'"
      "\<forall>r. held s2 r - refs as' r - (case left of None \<Rightarrow> 0 | Some p \<Rightarrow> count_refs p r) =
        held s1 r - refs as r - (case split of None \<Rightarrow> 0 | Some p \<Rightarrow> count_refs p r)"
      using IH [of s1] by blast
    have "unmapped s e (a # as) (trim_area s a # as')"
      by (rule unmapped_Cons [OF Cons.prems(1) r(2) trim_ok [OF a(1) tail(3,1) se(2)]])
        (use tail page_trim [of a _ s] in \<open>auto simp: covers_def\<close>)
    then show ?thesis
      using tail nle [OF tail(1)] nle [OF tail(2)] nle [OF tail(3)] r by (simp add: algebra_simps)
  next
    case hole
    have p: "split = Some (split_area a e)"
      using Cons.prems(2) hole by simp
    have ok: "area_ok (split_area a e)" "area_ok (trim_area s a)"
      using split_ok [OF a(1) _ hole(2) se(3)] trim_ok [OF a(1) hole(1) _ se(2)] hole se(1) by simp_all
    have "mapping as x = None" if "x < finish a" for x
      using a(2) that by (intro mapping_none) (auto simp: covers_def)
    moreover have "page_of x (split_area a e) = page_of x a" if "e \<le> x" for x
      using page_split [OF a(1)] hole(4) that by simp
    moreover have "page_of x (trim_area s a) = page_of x a" if "start a \<le> x" "x < s" for x
      using page_trim that by simp
    ultimately have "unmapped s e (a # as) (trim_area s a # split_area a e # as)"
      using a ok hole se(1) by (auto simp: unmapped_def vma_ok_Cons mapping_Cons covers_def not_less)
    then show ?thesis
      using p nle [OF hole(1)] nle [OF hole(2)] nle [OF hole(3)] nle [OF hole(4)] by simp
  qed
qed

lemma finish_unmap_spec:
  assumes "s < e" "s mod PGSIZE = 0" "e mod PGSIZE = 0" "vma_ok (areas s1)"
    "\<forall>a \<in> set (areas s1). start a < s \<longrightarrow> e < finish a \<longrightarrow> split = Some (split_area a e)"
  shows "\<exists>s'. finish_unmap s e split s1 = Some (0, s') \<and> unmapped s e (areas s1) (areas s') \<and>
    (\<forall>r. unowned s' r = unowned s1 r - (case split of None \<Rightarrow> 0 | Some p \<Rightarrow> count_refs p r))"
proof -
  obtain as' left s2 where r: "unmap_loop s e split (areas s1) s1 = Some (as', left, s2)"
    "unmapped s e (areas s1) as'"
    "\<forall>r. held s2 r - refs as' r - (case left of None \<Rightarrow> 0 | Some p \<Rightarrow> count_refs p r) =
      held s1 r - refs (areas s1) r - (case split of None \<Rightarrow> 0 | Some p \<Rightarrow> count_refs p r)"
    using unmap_loop_spec [OF assms] by blast
  then show ?thesis
    by (cases left) (simp_all add: finish_unmap_def unowned_def algebra_simps)
qed

lemma unmap_spec:
  assumes ok: "vma_ok (areas s1)"
  shows "\<exists>res s'. vma_unmap allocated s e s1 = Some (res, s') \<and>
    (res = 0 \<and> unmapped s e (areas s1) (areas s') \<and> unowned s' = unowned s1 \<or> res = -1 \<and> s' = s1)"
proof (cases "s \<ge> e \<or> s mod PGSIZE \<noteq> 0 \<or> e mod PGSIZE \<noteq> 0")
  case True
  then show ?thesis
    by (auto simp: vma_unmap_def)
next
  case False
  then have se: "s < e" "s mod PGSIZE = 0" "e mod PGSIZE = 0"
    by auto
  show ?thesis
  proof (cases "\<exists>a \<in> set (areas s1). start a < s \<and> e < finish a")
    case True
    then obtain a where a: "a \<in> set (areas s1)" "start a < s" "e < finish a"
      by blast
    then have found: "vma_find s1 s = Some a"
      using find_area_iff [OF ok, of s a] less_trans [OF se(1) a(3)] by (simp add: vma_find_def covers_def)
    have only: "b = a" if "b \<in> set (areas s1)" "start b < s" "e < finish b" for b
      using covers_unique [OF ok that(1) a(1), of s] that(2) a(2) less_trans [OF se(1) that(3)] less_trans [OF se(1) a(3)]
      by (simp add: covers_def)
    show ?thesis
    proof (cases allocated)
      case False
      then show ?thesis
        using se a found by (simp add: vma_unmap_def vma_allocate_split_def vma_allocate_def)
    next
      case True
      define s2 where "s2 = s1\<lparr>held := (\<lambda>r. held s1 r + count_refs (split_area a e) r)\<rparr>"
      have "\<exists>s'. finish_unmap s e (Some (split_area a e)) s2 = Some (0, s') \<and>
          unmapped s e (areas s2) (areas s') \<and> (\<forall>r. unowned s' r = unowned s2 r - count_refs (split_area a e) r)"
        using finish_unmap_spec [OF se, of s2 "Some (split_area a e)"] ok only by (simp add: s2_def)
      then show ?thesis
        using True se a found
        by (auto simp: vma_unmap_def vma_allocate_split_def vma_allocate_def s2_def unowned_def fun_eq_iff)
    qed
  next
    case False
    have "vma_unmap allocated s e s1 = finish_unmap s e None s1"
    proof (cases "vma_find s1 s")
      case (Some a)
      then have "\<not> (start a < s \<and> e < finish a)"
        using False find_area_Some [of s "areas s1" a] by (simp add: vma_find_def)
      then show ?thesis
        using Some se not_le [THEN iffD2, OF se(1)] by (auto simp: vma_unmap_def)
    qed (use se not_le [THEN iffD2, OF se(1)] in \<open>simp add: vma_unmap_def\<close>)
    moreover have "\<exists>s'. finish_unmap s e None s1 = Some (0, s') \<and> unmapped s e (areas s1) (areas s') \<and>
        (\<forall>r. unowned s' r = unowned s1 r)"
      using finish_unmap_spec [OF se ok, of None] False by simp
    ultimately show ?thesis
      by auto
  qed
qed

subsection \<open>Changing the protection\<close>

lemma replace_at_split:
  "find_area probe as = Some a \<Longrightarrow>
     \<exists>before after. as = before @ a # after \<and> (\<forall>f. replace_at probe f as = before @ f a @ after)"
proof (induction as)
  case (Cons c cs)
  show ?case
  proof (cases "probe < finish c")
    case True
    then have "a = c" "\<not> probe < start c"
      using Cons.prems by (auto split: if_splits)
    then show ?thesis
      using True by (intro exI [of _ "[]"] exI [of _ cs]) simp
  next
    case False
    then have "find_area probe cs = Some a" "\<not> probe < start c"
      using Cons.prems by (auto split: if_splits)
    then obtain before after where "cs = before @ a # after" "\<forall>f. replace_at probe f cs = before @ f a @ after"
      using Cons.IH by blast
    then show ?thesis
      using False \<open>\<not> probe < start c\<close> by (intro exI [of _ "c # before"] exI [of _ after]) simp
  qed
qed simp

text \<open>No area straddles the address.\<close>

definition clean_at :: "u64 \<Rightarrow> vm_area list \<Rightarrow> bool" where
  "clean_at x as \<longleftrightarrow> (\<forall>a \<in> set as. \<not> (start a < x \<and> x < finish a))"

text \<open>Cutting the area at an address inside it.\<close>

lemma cut_spec:
  assumes ok: "vma_ok as" and a: "find_area probe as = Some a" "start a < at" "at < finish a" "at mod PGSIZE = 0"
  defines "as' \<equiv> replace_at probe (\<lambda>b. [trim_area at b, split_area a at]) as"
  shows "vma_ok as'" "\<And>x. mapping as' x = mapping as x" "clean_at at as'" "\<And>y. clean_at y as \<Longrightarrow> clean_at y as'"
    "\<And>r. refs as' r = refs as r + count_refs a r"
proof -
  obtain before after where s: "as = before @ a # after"
    "as' = before @ [trim_area at a, split_area a at] @ after"
    using replace_at_split [OF a(1)] unfolding as'_def by fastforce
  have ao: "area_ok a"
    using ok s(1) by (simp add: vma_ok_append vma_ok_Cons)
  have parts: "area_ok (trim_area at a)" "area_ok (split_area a at)"
    using trim_ok [OF ao a(2-4)] split_ok [OF ao a(2-4)] by simp_all
  have bounds: "\<forall>b \<in> set before. finish b \<le> start a" "\<forall>b \<in> set after. finish a \<le> start b" "vma_ok before" "vma_ok after"
    "\<forall>b \<in> set before. \<forall>c \<in> set after. finish b \<le> start c"
    using ok s(1) by (simp_all add: vma_ok_append vma_ok_Cons)
  show "vma_ok as'"
    using bounds parts a(2,3) unfolding s(2) by (fastforce simp: vma_ok_append vma_ok_Cons)
  show "mapping as' x = mapping as x" for x
    using mapping_split [OF ao a(2,3), of after x] unfolding s by (simp add: mapping_append split: option.split)
  show "refs as' r = refs as r + count_refs a r" for r
    by (simp add: s)
  have "\<not> (start b < at \<and> at < finish b)" if "b \<in> set before \<union> set after" for b
    using that bounds(1,2) a(2,3) by (auto simp: not_less)
  then show "clean_at at as'"
    by (auto simp: clean_at_def s(2))
  show "clean_at y as'" if "clean_at y as" for y
    using that a(2,3) unfolding clean_at_def s by (auto dest: less_trans)
qed

lemma clean_at_start:
  assumes "vma_ok as" "find_area x as = Some a" "\<not> start a < x"
  shows "clean_at x as"
  unfolding clean_at_def
proof (intro ballI notI)
  fix b
  assume b: "b \<in> set as" "start b < x \<and> x < finish b"
  then have "covers x b"
    by (auto simp: covers_def)
  then have "b = a"
    using b(1) covers_unique [OF assms(1)] find_area_Some [OF assms(2)] by blast
  then show False
    using b(2) assms(3) by simp
qed

lemma protect_loop_simps [simp]:
  "refs (protect_loop s e prot as) r = refs as r"
  by (induction as) simp_all

lemma page_protect: "page_of x (a\<lparr>protection := prot\<rparr>) = (page_of x a)\<lparr>page_protection := prot\<rparr>"
  by (simp add: page_of_def backed_def)

lemma area_ok_protect: "area_ok (a\<lparr>protection := prot\<rparr>) = area_ok a"
  by (simp add: area_ok_def insert_refused_def backed_def)

lemma protect_loop_start: "b \<in> set (protect_loop s e prot as) \<Longrightarrow> \<exists>a \<in> set as. start b = start a"
  by (induction as) (auto split: if_splits)

lemma protect_loop_spec:
  assumes "vma_ok as" "clean_at s as" "clean_at e as" "s < e"
  shows "vma_ok (protect_loop s e prot as) \<and>
    (\<forall>x. mapping (protect_loop s e prot as) x =
      (if s \<le> x \<and> x < e then map_option (\<lambda>p. p\<lparr>page_protection := prot\<rparr>) (mapping as x) else mapping as x))"
  using assms(1-3)
proof (induction as)
  case (Cons a as)
  then have a: "area_ok a" "\<forall>b \<in> set as. finish a \<le> start b" "vma_ok as" "clean_at s as" "clean_at e as"
    "\<not> (start a < s \<and> s < finish a)" "\<not> (start a < e \<and> e < finish a)"
    by (simp_all add: vma_ok_Cons clean_at_def)
  note IH = Cons.IH [OF a(3-5)]
  have order: "\<forall>b \<in> set (protect_loop s e prot as). finish a \<le> start b"
    using protect_loop_start a(2) by fastforce
  consider (below) "finish a \<le> s" | (above) "\<not> finish a \<le> s" "e \<le> start a"
    | (inside) "\<not> finish a \<le> s" "\<not> e \<le> start a"
    by blast
  then show ?case
  proof cases
    case below
    then have "covers x a \<Longrightarrow> \<not> s \<le> x" for x
      by (auto simp: covers_def)
    then show ?thesis
      using below IH a(1) order by (auto simp: vma_ok_Cons mapping_Cons)
  next
    case above
    have "mapping (a # as) x = None" if "x < e" for x
      using that above(2) vma_ok_tail_start [OF Cons.prems(1)] by (intro mapping_none) (fastforce simp: covers_def)
    then show ?thesis
      using above Cons.prems(1) by auto
  next
    case inside
    then have "covers x a \<Longrightarrow> s \<le> x \<and> x < e" for x
      using a(6,7) by (auto simp: covers_def not_le not_less)
    then show ?thesis
      using inside IH a(1) order by (auto simp: vma_ok_Cons mapping_Cons covers_def page_protect area_ok_protect)
  qed
qed simp

lemma pred_bounds:
  fixes a b :: u64
  assumes "a < b"
  shows "a \<le> b - 1" "b - 1 < b"
proof -
  have "1 \<le> b"
    using assms by (simp add: word_le_nat_alt word_less_nat_alt)
  then show "a \<le> b - 1" "b - 1 < b"
    using assms by (simp_all add: word_order unat_sub)
qed

lemma split_split:
  assumes "area_ok a" "start a < s" "s < e"
  shows "split_area (split_area a s) e = split_area a e"
proof -
  have sum: "unat (e - start a) = unat (s - start a) + unat (e - s)"
    by (rule sub_split) (use assms in simp_all)
  have "file_length (split_area (split_area a s) e) = file_length (split_area a e)"
  proof (cases "origin a = VMA_FILE_BACKED")
    case True
    have "e - start a = (s - start a) + (e - s)"
      by simp
    then have eq: "file_length a - (s - start a) - (e - s) = file_length a - (e - start a)"
      by (simp add: algebra_simps)
    show ?thesis
    proof (cases "s - start a < file_length a")
      case less: True
      then have "unat (file_length a - (s - start a)) = unat (file_length a) - unat (s - start a)"
        by (simp add: unat_sub)
      then have "e - s < file_length a - (s - start a) \<longleftrightarrow> e - start a < file_length a"
        using sum less by (simp add: word_less_nat_alt) arith
      then show ?thesis
        using True less eq by (simp add: split_area_def Let_def)
    next
      case False
      then have "\<not> e - start a < file_length a"
        using sum by (simp add: word_less_nat_alt)
      then show ?thesis
        using True False by (simp add: split_area_def Let_def)
    qed
  next
    case False
    then show ?thesis
      by (simp add: split_area_def Let_def)
  qed
  moreover have "offset (split_area (split_area a s) e) = offset (split_area a e)"
    by (simp add: split_area_def Let_def backed_def)
  ultimately show ?thesis
    by (simp add: split_area_def Let_def)
qed

text \<open>The list after cutting at \<open>s\<close>, with the reference count of the piece.\<close>

definition cut_done :: "vm_area list \<Rightarrow> u64 \<Rightarrow> vm_area option \<Rightarrow> vm_area list \<Rightarrow> bool" where
  "cut_done as at piece as' \<longleftrightarrow> vma_ok as' \<and> (\<forall>x. mapping as' x = mapping as x) \<and> clean_at at as' \<and>
     (\<forall>y. clean_at y as \<longrightarrow> clean_at y as') \<and>
     (\<forall>r. refs as' r = refs as r + (case piece of None \<Rightarrow> 0 | Some p \<Rightarrow> count_refs p r))"

lemma cut_done_none: "vma_ok as \<Longrightarrow> clean_at at as \<Longrightarrow> cut_done as at None (cut_area probe at None as)"
  by (simp add: cut_done_def cut_area_def)

lemma cut_done_some:
  assumes "vma_ok as" "find_area probe as = Some a" "start a < at" "at < finish a" "at mod PGSIZE = 0"
  shows "cut_done as at (Some (split_area a at)) (cut_area probe at (Some (split_area a at)) as)"
  using cut_spec [OF assms] by (simp add: cut_done_def cut_area_def)

text \<open>The area below \<open>e\<close> after the cut at \<open>s\<close> splits at \<open>e\<close> as the original one.\<close>

lemma end_area_after_cut:
  assumes ok: "vma_ok as" and sa: "find_area s as = Some sa" "start sa < s" "s mod PGSIZE = 0"
    and ea: "find_area (e - 1) as = Some ea" "e < finish ea" and se: "s < e"
  defines "as1 \<equiv> cut_area s s (Some (split_area sa s)) as"
  shows "\<exists>ea1. find_area (e - 1) as1 = Some ea1 \<and> start ea1 < e \<and> e < finish ea1 \<and> split_area ea1 e = split_area ea e"
proof -
  note pred = pred_bounds [OF se]
  have cov: "covers s sa" "covers (e - 1) ea" "sa \<in> set as"
    using find_area_Some [OF sa(1)] find_area_Some [OF ea(1)] by simp_all
  have ok1: "vma_ok as1"
    using cut_done_some [OF ok sa(1,2) _ sa(3)] cov(1) by (simp add: cut_done_def as1_def covers_def)
  obtain before after where b: "as = before @ sa # after" "as1 = before @ [trim_area s sa, split_area sa s] @ after"
    using replace_at_split [OF sa(1)] unfolding as1_def cut_area_def by fastforce
  show ?thesis
  proof (cases "ea = sa")
    case True
    have "covers (e - 1) (split_area sa s)"
      using cov(2) True pred(1) by (simp add: covers_def)
    then have "find_area (e - 1) as1 = Some (split_area sa s)"
      using find_area_iff [OF ok1] b(2) by simp
    then show ?thesis
      using True ea(2) se split_split [OF vma_ok_area [OF ok cov(3)] sa(2) se] by auto
  next
    case False
    have "ea \<in> set as1"
      using False find_area_Some [OF ea(1)] b by auto
    then have "find_area (e - 1) as1 = Some ea"
      using find_area_iff [OF ok1] cov(2) by simp
    moreover have "start ea < e"
      using cov(2) pred(2) by (auto simp: covers_def)
    ultimately show ?thesis
      using ea(2) by blast
  qed
qed

lemma clean_at_end:
  assumes ok: "vma_ok as" and ea: "find_area (e - 1) as = Some ea" "\<not> e < finish ea" and se: "s < e"
  shows "clean_at e as"
  unfolding clean_at_def
proof (intro ballI notI)
  fix b
  assume b: "b \<in> set as" "start b < e \<and> e < finish b"
  then have "covers (e - 1) b"
    using pred_bounds(1) [of "start b" e] pred_bounds(2) [OF se] by (auto simp: covers_def)
  then have "b = ea"
    using b(1) covers_unique [OF ok] find_area_Some [OF ea(1)] by blast
  then show False
    using b(2) ea(2) by simp
qed

lemma protect_pieces_spec:
  assumes "cut_done (areas s1) s p as1" "cut_done as1 e q as2" "clean_at s as1" "s < e"
    "as1 = cut_area s s p (areas s1)" "as2 = cut_area (e - 1) e q as1"
  shows "\<exists>s'. protect_pieces s e prot p q s1 = (0, s') \<and> vma_ok (areas s') \<and>
    (\<forall>x. mapping (areas s') x = (if s \<le> x \<and> x < e
      then map_option (\<lambda>p. p\<lparr>page_protection := prot\<rparr>) (mapping (areas s1) x) else mapping (areas s1) x)) \<and>
    (\<forall>r. unowned s' r = unowned s1 r - (case p of None \<Rightarrow> 0 | Some a \<Rightarrow> count_refs a r)
      - (case q of None \<Rightarrow> 0 | Some a \<Rightarrow> count_refs a r))"
proof -
  have c: "vma_ok as2" "clean_at s as2" "clean_at e as2" "\<forall>x. mapping as2 x = mapping (areas s1) x"
    using assms(1-3) by (simp_all add: cut_done_def)
  note l = protect_loop_spec [OF c(1-3) assms(4), of prot]
  obtain as3 h where m: "merge_all (protect_loop s e prot as2) (held s1) = (as3, h)"
    by fastforce
  have ok: "vma_ok (protect_loop s e prot as2)"
    using l by blast
  have "protect_pieces s e prot p q s1 = (0, s1\<lparr>areas := as3, held := h\<rparr>)"
    using m by (simp add: protect_pieces_def vma_merge_all_def assms(5) [symmetric] assms(6) [symmetric])
  then show ?thesis
    using merge_all_spec [OF ok m] l c(4) assms(1,2)
    by (simp add: unowned_def cut_done_def)
qed

text \<open>What a successful change of protection has done.\<close>

definition protected :: "u64 \<Rightarrow> u64 \<Rightarrow> u32 \<Rightarrow> vma_set \<Rightarrow> vma_set \<Rightarrow> bool" where
  "protected s e prot s1 s' \<longleftrightarrow> vma_ok (areas s') \<and>
     (\<forall>x. mapping (areas s') x = (if s \<le> x \<and> x < e
       then map_option (\<lambda>p. p\<lparr>page_protection := prot\<rparr>) (mapping (areas s1) x) else mapping (areas s1) x)) \<and>
     unowned s' = unowned s1"

text \<open>The state after taking the references of a piece.\<close>

definition with_refs :: "vm_area option \<Rightarrow> vma_set \<Rightarrow> vma_set" where
  "with_refs p s = s\<lparr>held := (\<lambda>r. held s r + (case p of None \<Rightarrow> 0 | Some a \<Rightarrow> count_refs a r))\<rparr>"

lemma with_refs_none [simp]: "with_refs None s = s"
  by (simp add: with_refs_def)

lemma with_refs_simps [simp]: "areas (with_refs p s) = areas s"
  "unowned (with_refs p s) r = unowned s r + (case p of None \<Rightarrow> 0 | Some a \<Rightarrow> count_refs a r)"
  by (simp_all add: with_refs_def unowned_def)

lemma allocate_split_eq:
  "vma_allocate_split ok a at s = (if ok then Some (split_area a at, with_refs (Some (split_area a at)) s) else None)"
  by (simp add: vma_allocate_split_def vma_allocate_def with_refs_def)

lemma release_with_refs: "vma_release p (with_refs (Some p) s) = s"
  by (simp add: vma_release_def with_refs_def)

lemma protect_end_spec:
  assumes ok: "vma_ok (areas s0)" and se: "s < e" "e mod PGSIZE = 0"
    and cut: "cut_done (areas s0) s p as1" "as1 = cut_area s s p (areas s0)"
    and ea: "find_area (e - 1) (areas s0) = Some ea"
    and ea1: "e < finish ea \<Longrightarrow> \<exists>ea1. find_area (e - 1) as1 = Some ea1 \<and> start ea1 < e \<and> e < finish ea1 \<and>
      split_area ea1 e = split_area ea e"
  shows "\<exists>res s'. protect_end ok' s e prot ea p (with_refs p s0) = (res, s') \<and>
    (res = 0 \<and> protected s e prot s0 s' \<or> res = -1 \<and> s' = s0)"
proof -
  have as1: "vma_ok as1" "clean_at s as1"
    using cut(1) by (simp_all add: cut_done_def)
  have finish: "\<exists>s'. protect_pieces s e prot p q (with_refs q (with_refs p s0)) = (0, s') \<and> protected s e prot s0 s'"
    if q: "cut_done as1 e q (cut_area (e - 1) e q as1)" for q
    using protect_pieces_spec [of "with_refs q (with_refs p s0)" s p as1 e q "cut_area (e - 1) e q as1" prot]
      cut q as1 se(1) by (auto simp: protected_def fun_eq_iff)
  show ?thesis
  proof (cases "e < finish ea")
    case True
    obtain b where b: "find_area (e - 1) as1 = Some b" "start b < e" "e < finish b" "split_area b e = split_area ea e"
      using ea1 [OF True] by blast
    have "cut_done as1 e (Some (split_area ea e)) (cut_area (e - 1) e (Some (split_area ea e)) as1)"
      using cut_done_some [OF as1(1) b(1-3) se(2)] b(4) by simp
    then obtain s' where "protect_pieces s e prot p (Some (split_area ea e))
        (with_refs (Some (split_area ea e)) (with_refs p s0)) = (0, s')" "protected s e prot s0 s'"
      using finish by blast
    then show ?thesis
      using True by (cases ok'; cases p) (simp_all add: protect_end_def allocate_split_eq release_with_refs)
  next
    case False
    have "clean_at e (areas s0)"
      using clean_at_end [OF ok ea False se(1)] .
    then have "cut_done as1 e None (cut_area (e - 1) e None as1)"
      using cut(1) by (intro cut_done_none) (simp_all add: cut_done_def)
    then show ?thesis
      using finish [of None] False by (auto simp: protect_end_def)
  qed
qed

lemma protect_spec:
  assumes ok: "vma_ok (areas s0)"
  shows "\<exists>res s'. vma_protect ok1 ok2 s e prot s0 = Some (res, s') \<and>
    (res = 0 \<and> protected s e prot s0 s' \<and> (\<forall>x. s \<le> x \<and> x < e \<longrightarrow> mapping (areas s0) x \<noteq> None) \<or>
     res = -1 \<and> s' = s0)"
proof (cases "s \<ge> e \<or> s mod PGSIZE \<noteq> 0 \<or> e mod PGSIZE \<noteq> 0 \<or> \<not> vma_range_mapped s0 s e")
  case True
  then show ?thesis
    by (auto simp: vma_protect_def)
next
  case False
  then have se: "s < e" "s mod PGSIZE = 0" "e mod PGSIZE = 0" "range_mapped s e (areas s0)"
    by (auto simp: vma_range_mapped_def)
  have found: "\<exists>a. find_area x (areas s0) = Some a" if "s \<le> x" "x < e" for x
    using range_mapped_covered [OF se(4) that] find_area_iff [OF ok, of x] by blast
  obtain sa where sa: "find_area s (areas s0) = Some sa"
    using found se(1) by blast
  obtain ea where ea: "find_area (e - 1) (areas s0) = Some ea"
    using found pred_bounds [OF se(1)] by blast
  have all: "\<forall>x. s \<le> x \<and> x < e \<longrightarrow> mapping (areas s0) x \<noteq> None"
    using found mapping_find [OF ok] by fastforce
  show ?thesis
  proof (cases "start sa < s")
    case True
    have inside: "s < finish sa"
      using find_area_Some [OF sa] by (simp add: covers_def)
    define p where "p = split_area sa s"
    have cut: "cut_done (areas s0) s (Some p) (cut_area s s (Some p) (areas s0))"
      unfolding p_def by (rule cut_done_some [OF ok sa True inside se(2)])
    have "\<exists>res s'. protect_end ok2 s e prot ea (Some p) (with_refs (Some p) s0) = (res, s') \<and>
        (res = 0 \<and> protected s e prot s0 s' \<or> res = -1 \<and> s' = s0)"
      by (rule protect_end_spec [OF ok se(1,3) cut refl ea])
        (use end_area_after_cut [OF ok sa True se(2) ea _ se(1)] in \<open>simp add: p_def\<close>)
    then show ?thesis
      using False sa ea True all
      by (cases ok1) (auto simp: vma_protect_def vma_find_def allocate_split_eq p_def)
  next
    case no: False
    have cut: "cut_done (areas s0) s None (cut_area s s None (areas s0))"
      by (rule cut_done_none [OF ok clean_at_start [OF ok sa no]])
    have "start ea < e"
      using find_area_Some [OF ea] pred_bounds(2) [OF se(1)] by (auto simp: covers_def)
    then have "\<exists>res s'. protect_end ok2 s e prot ea None (with_refs None s0) = (res, s') \<and>
        (res = 0 \<and> protected s e prot s0 s' \<or> res = -1 \<and> s' = s0)"
      by (intro protect_end_spec [OF ok se(1,3) cut refl ea]) (use ea in \<open>simp add: cut_area_def\<close>)
    then show ?thesis
      using False sa ea no all by (auto simp: vma_protect_def vma_find_def)
  qed
qed

subsection \<open>Finding room\<close>

text \<open>Rounding down or up to an address with the low bits of \<open>off\<close>.\<close>

lemma residue_sum:
  fixes off z low :: u64
  defines "r \<equiv> off AND low"
  shows "(r + (z AND NOT low)) AND low = r"
proof -
  have "r AND (z AND NOT low) = 0"
    by (simp add: r_def bit_eq_iff bit_simps)
  then have "r + (z AND NOT low) = r OR (z AND NOT low)"
    by (simp add: disjunctive_add_eq_or)
  then show ?thesis
    by (simp add: r_def bit_eq_iff bit_simps) blast
qed

lemma round_parts:
  fixes z low :: u64
  shows "unat z = unat (z AND NOT low) + unat (z AND low)"
proof -
  have "(z AND NOT low) AND (z AND low) = 0"
    by (simp add: bit_eq_iff bit_simps)
  moreover have "(z AND NOT low) OR (z AND low) = z"
    by (simp add: bit_eq_iff bit_simps) blast
  ultimately have z: "(z AND NOT low) + (z AND low) = z"
    by (metis disjunctive_add_eq_or)
  have "z AND NOT low \<le> z"
    by (rule word_and_le2)
  then have "z AND NOT low \<le> (z AND NOT low) + (z AND low)"
    by (simp add: z)
  then show ?thesis
    using z unat_plus_simple [THEN iffD1, of "z AND NOT low" "z AND low"] by simp
qed

lemma align_down_spec:
  assumes "align_down_offset v alignment off = Some c"
  shows "c \<le> v" "c AND (alignment - 1) = off AND (alignment - 1)"
proof -
  define low where "low = alignment - 1"
  define r where "r = off AND low"
  have c: "c = r + ((v - r) AND NOT low)" "r \<le> v"
    using assms by (simp_all add: align_down_offset_def Let_def r_def low_def not_less split: if_splits)
  show "c AND (alignment - 1) = off AND (alignment - 1)"
    using residue_sum [of off low "v - r"] by (simp add: c(1) r_def low_def)
  have "(v - r) AND NOT low \<le> v - r"
    by (rule word_and_le2)
  then have "unat r + unat ((v - r) AND NOT low) \<le> unat v"
    using c(2) by (simp add: word_le_nat_alt unat_sub)
  moreover have "unat v < 2 ^ 64"
    using unsigned_less [of v] by simp
  ultimately show "c \<le> v"
    using unat_add_no_overflow [of r "(v - r) AND NOT low"] by (simp add: c(1) word_le_nat_alt)
qed

lemma align_up_spec:
  assumes "align_up_offset v alignment off = Some c"
  shows "c AND (alignment - 1) = off AND (alignment - 1)"
proof -
  define low where "low = alignment - 1"
  define r where "r = off AND low"
  have "c = r \<or> (\<exists>z. c = r + (z AND NOT low))"
    using assms by (auto simp: align_up_offset_def Let_def r_def low_def split: if_splits)
  then show ?thesis
    using residue_sum [of off low] by (auto simp: r_def low_def)
qed

text \<open>Rounding up does not go below the value, unless the sum wraps.\<close>

lemma align_up_ge:
  assumes "align_up_offset v alignment off = Some c"
    and "unat (off AND (alignment - 1)) + unat (v - (off AND (alignment - 1)) + (alignment - 1)) < 2 ^ 64"
  shows "v \<le> c"
proof -
  define low where "low = alignment - 1"
  define r where "r = off AND low"
  show ?thesis
  proof (cases "v \<le> r")
    case True
    then show ?thesis
      using assms by (simp add: align_up_offset_def Let_def r_def low_def)
  next
    case False
    let ?d = "v - r"
    have c: "c = r + ((?d + low) AND NOT low)" "\<not> ?d > NOT 0 - low"
      using assms False by (simp_all add: align_up_offset_def Let_def r_def low_def split: if_splits)
    have "unat (NOT 0 - low) = 2 ^ 64 - 1 - unat low"
      by (simp add: unat_sub unsigned_minus_1_eq_mask mask_eq_exp_minus_1)
    moreover have "unat low < 2 ^ 64"
      using unsigned_less [of low] by simp
    ultimately have "unat ?d + unat low < 2 ^ 64"
      using c(2) by (simp add: word_less_nat_alt not_less)
    then have sum: "unat (?d + low) = unat ?d + unat low"
      by (simp add: unat_add_no_overflow)
    have "unat ((?d + low) AND low) \<le> unat low"
      using word_and_le1 [of "?d + low" low] by (simp add: word_le_nat_alt)
    then have ge: "unat ?d \<le> unat ((?d + low) AND NOT low)"
      using round_parts [of "?d + low" low] sum by simp
    have "unat ((?d + low) AND NOT low) \<le> unat (?d + low)"
      using round_parts [of "?d + low" low] by simp
    then have "unat r + unat ((?d + low) AND NOT low) < 2 ^ 64"
      using assms(2) by (simp add: r_def low_def)
    then have "unat c = unat r + unat ((?d + low) AND NOT low)"
      using unat_add_no_overflow [of r] c(1) by simp
    moreover have "unat ?d = unat v - unat r"
      using False by (simp add: unat_sub not_le)
    ultimately show ?thesis
      using ge False by (simp add: word_le_nat_alt)
  qed
qed

lemma top_bit:
  fixes x :: u64
  assumes "2 ^ 63 \<le> unat x"
  shows "bit x 63"
proof -
  have "unat x < 2 ^ 64"
    using unsigned_less [of x] by simp
  then have "unat x div 2 ^ 63 = 1"
    using assms by (simp add: div_nat_eqI)
  then have "bit (unat x) 63"
    by (simp add: bit_iff_odd)
  then show ?thesis
    by (simp add: bit_unsigned_iff)
qed

lemma power_of_two_bound:
  fixes x :: u64
  assumes "x AND (x - 1) = 0"
  shows "unat x \<le> 2 ^ 63"
proof (rule ccontr)
  assume "\<not> unat x \<le> 2 ^ 63"
  then have x: "2 ^ 63 < unat x"
    by simp
  then have "unat (x - 1) = unat x - 1"
    by (intro unat_minus_one) auto
  then have "bit x 63" "bit (x - 1) 63"
    using x by (auto intro!: top_bit)
  then have "bit (x AND (x - 1)) 63"
    by (simp add: bit_and_iff)
  then show False
    using assms by simp
qed

definition room :: "vm_area list \<Rightarrow> u64 \<Rightarrow> u64 \<Rightarrow> bool" where
  "room as c len \<longleftrightarrow> (\<forall>a \<in> set as. finish a \<le> c \<or> c + len \<le> start a)"

lemma gap_address_spec:
  assumes "gap_aligned_address s e len alignment off = Some c"
  shows "s \<le> c" "unat c + unat len \<le> unat e" "c AND (alignment - 1) = off AND (alignment - 1)"
proof -
  obtain h: "s < e" "len \<le> e - s" "align_down_offset (e - len) alignment off = Some c" "s \<le> c"
    using assms by (auto simp: gap_aligned_address_def not_le not_less split: if_splits option.splits)
  then show "s \<le> c" "c AND (alignment - 1) = off AND (alignment - 1)"
    using align_down_spec(2) by blast+
  have "len \<le> e"
    using h(1,2) by (simp add: word_order unat_sub)
  then show "unat c + unat len \<le> unat e"
    using align_down_spec(1) [OF h(3)] by (simp add: word_le_nat_alt unat_sub)
qed

lemma gap_fits:
  fixes c len e :: u64
  assumes "unat c + unat len \<le> unat e"
  shows "c + len \<le> e" "unat (c + len) = unat c + unat len"
proof -
  have "unat e < 2 ^ 64"
    using unsigned_less [of e] by simp
  then show "unat (c + len) = unat c + unat len"
    using assms by (simp add: unat_add_no_overflow)
  then show "c + len \<le> e"
    using assms by (simp add: word_le_nat_alt)
qed

lemma gap_loop_spec:
  assumes "sorted_wrt (\<lambda>a b. finish b \<le> start a) cs" "\<forall>a \<in> set cs. start a < finish a"
    "\<forall>a \<in> set higher. cursor \<le> start a" "gap_loop low len alignment off cursor cs = Some c"
  shows "low \<le> c \<and> unat c + unat len \<le> unat cursor \<and> c AND (alignment - 1) = off AND (alignment - 1) \<and>
    room (higher @ cs) c len"
  using assms
proof (induction cs arbitrary: higher cursor)
  case Nil
  note g = gap_address_spec [of low cursor len alignment off c]
  have "gap_aligned_address low cursor len alignment off = Some c"
    using Nil.prems(4) by simp
  then show ?case
    using g Nil.prems(3) gap_fits(1) [of c len cursor] by (auto simp: room_def)
next
  case (Cons a cs)
  have sorted: "sorted_wrt (\<lambda>a b. finish b \<le> start a) cs" "\<forall>b \<in> set cs. finish b \<le> start a"
    "\<forall>a \<in> set cs. start a < finish a" "start a < finish a"
    using Cons.prems(1,2) by simp_all
  have fin: "low \<le> c \<and> unat c + unat len \<le> unat cursor \<and> c AND (alignment - 1) = off AND (alignment - 1) \<and>
      room (higher @ a # cs) c len"
    if g: "gap_aligned_address g cursor len alignment off = Some c" "low \<le> g" "\<forall>b \<in> set (a # cs). finish b \<le> g" for g
    using gap_address_spec [OF g(1)] g(2,3) gap_fits(1) [of c len cursor] Cons.prems(3)
    by (fastforce simp: room_def)
  consider (skip) "cursor \<le> start a" | (stop) "\<not> cursor \<le> start a" "finish a \<le> low"
    | (here) "\<not> cursor \<le> start a" "\<not> finish a \<le> low"
    by blast
  then show ?case
  proof cases
    case skip
    then show ?thesis
      using Cons.IH [OF sorted(1,3), of "higher @ [a]" cursor] Cons.prems(3,4) by (auto simp: room_def)
  next
    case stop
    have "\<forall>b \<in> set (a # cs). finish b \<le> low"
      using stop(2) sorted(2,4) by fastforce
    then show ?thesis
      using fin [of low] stop Cons.prems(4) by simp
  next
    case here
    have mid: "low < finish a" "start a < cursor"
      using here by auto
    show ?thesis
    proof (cases "finish a < cursor \<and> gap_aligned_address (finish a) cursor len alignment off \<noteq> None")
      case True
      then have "gap_aligned_address (finish a) cursor len alignment off = Some c"
        using Cons.prems(4) here mid by (auto simp: Let_def)
      moreover have "\<forall>b \<in> set (a # cs). finish b \<le> finish a"
        using sorted(2,4) by fastforce
      ultimately show ?thesis
        using fin [of "finish a"] mid(1) by simp
    next
      case False
      then have "gap_loop low len alignment off (start a) cs = Some c"
        using Cons.prems(4) here mid by (auto simp: Let_def split: if_splits option.splits)
      moreover have "\<forall>b \<in> set (a # higher). start a \<le> start b"
        using Cons.prems(3) mid(2) by fastforce
      ultimately have "low \<le> c \<and> unat c + unat len \<le> unat (start a) \<and>
          c AND (alignment - 1) = off AND (alignment - 1) \<and> room ((a # higher) @ cs) c len"
        using Cons.IH [OF sorted(1,3)] by blast
      then show ?thesis
        using mid(2) by (auto simp: room_def word_less_nat_alt)
    qed
  qed
qed

lemma find_gap_spec:
  assumes ok: "vma_ok (areas s)" and high: "high \<le> MAXVA"
    and r: "vma_find_gap_aligned s low high hint len alignment off = Some c"
  shows "low \<le> c \<and> unat c + unat len \<le> unat high \<and> c AND (alignment - 1) = off AND (alignment - 1) \<and>
    room (areas s) c len"
proof -
  have guard: "low < high" "alignment AND (alignment - 1) = 0" "len \<le> high - low"
    using r by (auto simp: vma_find_gap_aligned_def not_le not_less split: if_splits)
  have len: "len \<le> high"
    using guard(1,3) by (simp add: word_order unat_sub)
  have rev: "sorted_wrt (\<lambda>a b. finish b \<le> start a) (rev (areas s))"
    using ok by (simp add: vma_ok_def below_def [abs_def] sorted_wrt_rev)
  have lt: "\<forall>a \<in> set (rev (areas s)). start a < finish a"
    using ok area_ok_less by (simp add: vma_ok_def)
  consider (hinted) "low \<le> hint" "hint \<le> high - len" "align_up_offset hint alignment off = Some c"
      "c \<le> high - len" "vma_range_free s c (c + len)"
    | (search) "gap_loop low len alignment off high (rev (areas s)) = Some c"
    using r by (auto simp: vma_find_gap_aligned_def Let_def split: if_splits option.splits)
  then show ?thesis
  proof cases
    case hinted
    define residue where "residue = off AND (alignment - 1)"
    have fit: "unat c + unat len \<le> unat high"
      using hinted(4) len by (simp add: word_le_nat_alt unat_sub)
    have "unat residue + unat (hint - residue + (alignment - 1)) < 2 ^ 64" if "\<not> hint \<le> residue"
    proof -
      have "unat hint \<le> 2 ^ 38"
        using hinted(2) high len by (simp add: word_le_nat_alt unat_sub)
      moreover have "unat (hint - residue) = unat hint - unat residue" "unat residue \<le> unat hint"
        using that by (simp_all add: unat_sub word_le_nat_alt)
      moreover have "unat (alignment - 1) < 2 ^ 64 - 2 ^ 40"
      proof (cases "alignment = 0")
        case True
        then show ?thesis
          using r by (simp add: vma_find_gap_aligned_def PGSIZE_def)
      next
        case False
        then show ?thesis
          using power_of_two_bound [OF guard(2)] unat_minus_one [OF False] by simp
      qed
      ultimately show ?thesis
        using unat_add_no_overflow [of "hint - residue" "alignment - 1"] by simp
    qed
    then have "hint \<le> c"
      using align_up_ge [OF hinted(3)] hinted(3)
      by (cases "hint \<le> residue") (auto simp: residue_def align_up_offset_def Let_def)
    moreover have "room (areas s) c len"
      using hinted(5) range_free_clear [OF ok] by (auto simp: vma_range_free_def room_def split: if_splits)
    ultimately show ?thesis
      using hinted(1) fit align_up_spec [OF hinted(3)] by auto
  next
    case search
    then show ?thesis
      using gap_loop_spec [OF rev lt, of "[]" high low len alignment off c] by (auto simp: room_def)
  qed
qed

subsection \<open>Cloning\<close>

lemma fold_release:
  "areas (fold vma_release as s) = areas s" "held (fold vma_release as s) r = held s r - refs as r"
  by (induction as arbitrary: s) simp_all

lemma destroy_spec: "areas (vma_set_destroy s) = []" "unowned (vma_set_destroy s) = unowned s"
  by (simp_all add: vma_set_destroy_def unowned_def fold_release fun_eq_iff)

lemma clone_loop_spec:
  assumes "vma_ok (areas d)" "clone_loop ok i as d = (res, d')"
  shows "res = 0 \<and> vma_ok (areas d') \<and> unowned d' = unowned d \<and>
      (\<forall>x. mapping (areas d') x = (case mapping (areas d) x of None \<Rightarrow> mapping as x | p \<Rightarrow> p)) \<or>
    res = -1 \<and> areas d' = [] \<and> unowned d' = unowned d"
  using assms
proof (induction as arbitrary: i d)
  case Nil
  then show ?case
    by (auto split: option.split)
next
  case (Cons a as)
  obtain r d1 where i: "vma_insert_file_length (ok i) a d = (r, d1)"
    by fastforce
  note ins = insert_spec [OF Cons.prems(1) i]
  show ?case
  proof (cases "r < 0")
    case True
    then show ?thesis
      using Cons.prems(2) i ins destroy_spec [of d1] by auto
  next
    case False
    then have d1: "vma_ok (areas d1)" "unowned d1 = unowned d"
      "\<And>x. mapping (areas d1) x = (if covers x a then Some (page_of x a) else mapping (areas d) x)"
      "\<And>x. covers x a \<Longrightarrow> mapping (areas d) x = None"
      using ins by auto
    have "(case mapping (areas d1) x of None \<Rightarrow> mapping as x | p \<Rightarrow> p) =
        (case mapping (areas d) x of None \<Rightarrow> mapping (a # as) x | p \<Rightarrow> p)" for x
      using d1(3,4) [of x] by (auto simp: mapping_Cons split: option.split)
    then show ?thesis
      using Cons.IH [OF d1(1), of "Suc i"] Cons.prems(2) i False d1(2) by simp
  qed
qed

subsection \<open>Properties\<close>

text \<open>An address space with one anonymous area of four pages, for the examples.\<close>

definition demo_area :: vm_area where
  "demo_area = \<lparr>start = 0x10000, finish = 0x14000, offset = 0, file_length = 0, protection = 3, flags = 2,
     origin = VMA_ANONYMOUS, usage = VMA_MMAP, vm_file = None, vm_backing = None\<rparr>"

definition demo_space :: vma_set where
  "demo_space = \<lparr>areas = [demo_area], held = (\<lambda>r. 0)\<rparr>"

lemma demo_space_ok: "vma_ok (areas demo_space)"
  by (simp add: vma_ok_def area_ok_def insert_refused_def demo_space_def demo_area_def PGSIZE_def MAXVA_def
    backed_def push_bit_eq_mult)

text \<open>C13. Inserting an area maps exactly its range. From a well-formed list of areas, inserting either
  fails and changes nothing, or the range was free before, every address in it now has the
  attributes, file position and protection of the new area, every other address is mapped as
  before, whatever merging took place, the list is well formed, and the references held are those
  of the areas.\<close>

theorem vma_insert_refines:
  assumes "vma_ok (areas s)"
  shows "\<exists>res s'. vma_insert_file_length allocated a s = (res, s') \<and>
    (res = 0 \<and> vma_ok (areas s') \<and>
      (\<forall>x. mapping (areas s') x = (if covers x a then Some (page_of x a) else mapping (areas s) x)) \<and>
      (\<forall>x. covers x a \<longrightarrow> mapping (areas s) x = None) \<and> unowned s' = unowned s \<or>
     res = -1 \<and> s' = s)"
  using insert_spec [OF assms, of allocated a] by (cases "vma_insert_file_length allocated a s") blast

theorem vma_insert_refines_witness:
  "\<exists>s'. vma_insert_file_length True (demo_area\<lparr>start := 0x14000, finish := 0x15000\<rparr>) demo_space = (0, s') \<and>
     vma_ok (areas s') \<and> mapping (areas s') 0x14800 \<noteq> None"
proof -
  let ?a = "demo_area\<lparr>start := 0x14000, finish := 0x15000\<rparr>"
  have "fst (vma_insert_file_length True ?a demo_space) = 0"
    by (simp add: vma_insert_file_length_def insert_refused_def demo_space_def demo_area_def PGSIZE_def MAXVA_def
      backed_def push_bit_eq_mult vma_allocate_def merge_left_def merge_right_def split: prod.split)
  moreover have "covers 0x14800 ?a"
    by (simp add: covers_def)
  ultimately show ?thesis
    using vma_insert_refines [OF demo_space_ok, of True ?a] by fastforce
qed

text \<open>C11. Unmapping removes exactly the range. From a well-formed list of areas, unmapping never
  follows a null pointer; it either fails and changes nothing, or no address of the range is mapped
  any more and every other address is mapped as before, with the same place in its file, whether
  areas were dropped, shortened at either end or split in two; the list stays well formed and the
  references held are those of the areas.\<close>

theorem vma_unmap_refines:
  assumes "vma_ok (areas s1)"
  shows "\<exists>res s'. vma_unmap allocated s e s1 = Some (res, s') \<and>
    (res = 0 \<and> vma_ok (areas s') \<and>
      (\<forall>x. mapping (areas s') x = (if s \<le> x \<and> x < e then None else mapping (areas s1) x)) \<and>
      unowned s' = unowned s1 \<or>
     res = -1 \<and> s' = s1)"
  using unmap_spec [OF assms, of allocated s e] unfolding unmapped_def by blast

theorem vma_unmap_refines_witness:
  "\<exists>s'. vma_unmap True 0x11000 0x12000 demo_space = Some (0, s') \<and> vma_ok (areas s') \<and>
     mapping (areas s') 0x11800 = None"
proof -
  have "map_option fst (vma_unmap True 0x11000 0x12000 demo_space) = Some 0"
    by (simp add: vma_unmap_def vma_find_def demo_space_def demo_area_def PGSIZE_def vma_allocate_split_def
      vma_allocate_def finish_unmap_def)
  moreover have "(0x11000 :: u64) \<le> 0x11800 \<and> (0x11800 :: u64) < 0x12000"
    by simp
  ultimately show ?thesis
    using vma_unmap_refines [OF demo_space_ok, of True "0x11000" "0x12000"] by fastforce
qed

text \<open>C12. Changing the protection touches nothing else. From a well-formed list of areas, a call that
  succeeds found the whole range mapped and gives each of its addresses the new protection, with
  all other attributes and all other addresses as before; it never follows a null pointer, and when
  it fails, also in the middle for lack of memory, nothing has changed and no reference is leaked.\<close>

theorem vma_protect_refines:
  assumes "vma_ok (areas s0)"
  shows "\<exists>res s'. vma_protect ok1 ok2 s e prot s0 = Some (res, s') \<and>
    (res = 0 \<and> protected s e prot s0 s' \<and> (\<forall>x. s \<le> x \<and> x < e \<longrightarrow> mapping (areas s0) x \<noteq> None) \<or>
     res = -1 \<and> s' = s0)"
  by (rule protect_spec [OF assms])

theorem vma_protect_refines_witness:
  "\<exists>s'. vma_protect True True 0x11000 0x12000 1 demo_space = Some (0, s') \<and>
     protected 0x11000 0x12000 1 demo_space s'"
proof -
  have "map_option fst (vma_protect True True 0x11000 0x12000 1 demo_space) = Some 0"
    by (simp add: vma_protect_def vma_find_def vma_range_mapped_def demo_space_def demo_area_def PGSIZE_def
      vma_allocate_split_def vma_allocate_def protect_end_def protect_pieces_def)
  then show ?thesis
    using vma_protect_refines [OF demo_space_ok, of True True "0x11000" "0x12000" 1] by fastforce
qed

text \<open>C14. A gap that is found is usable. When a search with an upper bound within \<^verbatim>\<open>MAXVA\<close> returns an address,
  the range of the requested length there lies between the bounds without wrapping, has the requested
  alignment residue, and meets no area.\<close>

theorem vma_find_gap_sound:
  assumes "vma_ok (areas s)" "high \<le> MAXVA"
    "vma_find_gap_aligned s low high hint len alignment off = Some c"
  shows "low \<le> c \<and> unat c + unat len \<le> unat high \<and> c AND (alignment - 1) = off AND (alignment - 1) \<and>
    room (areas s) c len"
  by (rule find_gap_spec [OF assms])

theorem vma_find_gap_sound_witness: "room (areas demo_space) 0x1f000 0x1000"
proof -
  have "vma_find_gap_aligned demo_space 0x1000 0x20000 0 0x1000 0x1000 0 = Some 0x1f000"
    by (simp add: vma_find_gap_aligned_def demo_space_def demo_area_def gap_aligned_address_def
      align_down_offset_def PGSIZE_def)
  from vma_find_gap_sound [OF demo_space_ok _ this] show ?thesis
    by (simp add: MAXVA_def push_bit_eq_mult)
qed

text \<open>C15. Cloning an address space is faithful. Cloning a set into itself changes nothing. Cloning another
  set either succeeds, and then every address is mapped exactly as in the source, or fails and leaves
  the destination empty; either way the references held are those of the areas.\<close>

theorem vma_clone_faithful:
  "\<exists>res d'. vma_set_clone ok src d = (res, d') \<and> unowned d' = unowned d \<and>
     (case src of
        None \<Rightarrow> res = 0 \<and> d' = d
      | Some source \<Rightarrow>
          res = 0 \<and> vma_ok (areas d') \<and> mapping (areas d') = mapping source \<or> res = -1 \<and> areas d' = [])"
proof (cases src)
  case (Some source)
  obtain res d' where r: "clone_loop ok 0 source (vma_set_destroy d) = (res, d')"
    by fastforce
  have "vma_ok (areas (vma_set_destroy d))"
    by (simp add: destroy_spec vma_ok_def)
  from clone_loop_spec [OF this r] show ?thesis
    using r Some by (auto simp: vma_set_clone_def destroy_spec fun_eq_iff)
qed (simp add: vma_set_clone_def)

end
