(* ===== verification/Palloc.thy ===== *)
theory Palloc
  imports Buddy_Spec "HOL-Library.Monad_Syntax"
begin

text \<open>
  \<^verbatim>\<open>kernel/palloc.c\<close>: physical pages with reference counts on top of the buddy allocator, and the
  byte heap on top of the pages. \<open>phys\<close> holds the file's static variables about pages; the reference
  array of a region is a list. \<open>kheap\<close> adds the pool of heap pages: \<open>page_at a\<close> and \<open>info_at a\<close> are
  what the memory at \<open>a\<close> reads as a page header and as the header of an allocation. What the callers
  store into the pages and allocations they own is not part of the state. \<open>None\<close> stands for
  \<^verbatim>\<open>PANIC\<close>, for a loop that does not end and for an access outside an array. The poisoning of freed
  pages (\<^verbatim>\<open>CONFIG_PAGE_POISONING\<close>) is left out.
\<close>

subsection \<open>Data\<close>

definition PALLOC_ZERO :: u32 where
  "PALLOC_ZERO = 1"

definition KERNEL_BASE :: u64 where
  "KERNEL_BASE = 0x80200000"

definition PAGE_REF_ALIGNMENT :: u64 where
  "PAGE_REF_ALIGNMENT = 4"

record page_ref_region =
  ref_start :: u64
  ref_end :: u64
  refs :: "u32 list"

record phys =
  page_allocator :: buddy_allocator
  page_ref_regions :: "page_ref_region list"
  managed_ranges :: memrange_set
  heap_start :: u64
  usable_bytes :: u64

subsection \<open>Reference counts\<close>

definition page_ref_find :: "phys \<Rightarrow> u64 \<Rightarrow> nat option" where
  "page_ref_find s address =
     (let i = scan (\<lambda>i. address \<ge> ref_start (page_ref_regions s ! i) \<and> address < ref_end (page_ref_regions s ! i))
                   0 (length (page_ref_regions s))
      in if i < length (page_ref_regions s) then Some i else None)"

text \<open>A pointer to a reference count is the region and the index in its array.\<close>

definition page_ref_pointer :: "phys \<Rightarrow> u64 \<Rightarrow> (nat \<times> nat) option" where
  "page_ref_pointer s page =
     (if page mod PGSIZE \<noteq> 0 then None
      else case page_ref_find s page of
             None \<Rightarrow> None
           | Some i \<Rightarrow> Some (i, unat ((page - ref_start (page_ref_regions s ! i)) div PGSIZE)))"

definition get_ref :: "phys \<Rightarrow> nat \<times> nat \<Rightarrow> u32" where
  "get_ref s rp = refs (page_ref_regions s ! fst rp) ! snd rp"

definition set_ref :: "phys \<Rightarrow> nat \<times> nat \<Rightarrow> u32 \<Rightarrow> phys" where
  "set_ref s rp v =
     s\<lparr>page_ref_regions := (page_ref_regions s)[fst rp := (page_ref_regions s ! fst rp)
         \<lparr>refs := (refs (page_ref_regions s ! fst rp))[snd rp := v]\<rparr>]\<rparr>"

definition palloc_managed_range_count :: "phys \<Rightarrow> int" where
  "palloc_managed_range_count s = int (mr_count (managed_ranges s))"

definition palloc_managed_range_get :: "phys \<Rightarrow> int \<Rightarrow> (u64 \<times> u64) option" where
  "palloc_managed_range_get s index = memrange_get (managed_ranges s) index"

definition palloc_free_pages :: "phys \<Rightarrow> u64" where
  "palloc_free_pages s = buddy_free_page_count (page_allocator s)"

definition palloc_heap_start :: "phys \<Rightarrow> u64" where
  "palloc_heap_start s = heap_start s"

definition palloc_usable_bytes :: "phys \<Rightarrow> u64" where
  "palloc_usable_bytes s = usable_bytes s"

subsection \<open>Pages\<close>

definition buddy_return :: "phys \<Rightarrow> u64 \<Rightarrow> nat \<Rightarrow> phys option" where
  "buddy_return s p order =
     (case buddy_free (page_allocator s) p order of
        (r, al) \<Rightarrow> if r < 0 then None else Some (s\<lparr>page_allocator := al\<rparr>))"

definition free_pages_op :: "phys \<Rightarrow> u64 \<Rightarrow> nat \<Rightarrow> phys option" where
  "free_pages_op s p order =
     (if order = 0
      then case page_ref_pointer s p of
             None \<Rightarrow> None
           | Some rp \<Rightarrow> if get_ref s rp \<noteq> 1 then None else buddy_return (set_ref s rp 0) p order
      else buddy_return s p order)"

definition alloc_pages :: "phys \<Rightarrow> nat \<Rightarrow> u32 \<Rightarrow> (u64 option \<times> phys) option" where
  "alloc_pages s order flags =
     (if flags AND NOT PALLOC_ZERO \<noteq> 0 then Some (None, s)
      else case buddy_alloc (page_allocator s) order of
             (None, al) \<Rightarrow> Some (None, s\<lparr>page_allocator := al\<rparr>)
           | (Some p, al) \<Rightarrow>
               (let s' = s\<lparr>page_allocator := al\<rparr>
                in if order = 0
                   then case page_ref_pointer s' p of
                          None \<Rightarrow> None
                        | Some rp \<Rightarrow> if get_ref s' rp \<noteq> 0 then None else Some (Some p, set_ref s' rp 1)
                   else Some (Some p, s')))"

definition pfree :: "phys \<Rightarrow> u64 \<Rightarrow> phys option" where
  "pfree s p =
     (case page_ref_pointer s p of
        None \<Rightarrow> None
      | Some rp \<Rightarrow>
          if get_ref s rp = 0 \<or> \<not> buddy_allocated (page_allocator s) p 0 then None
          else let s' = set_ref s rp (get_ref s rp - 1)
               in if get_ref s' rp = 0 then buddy_return s' p 0 else Some s')"

definition palloc_get :: "phys \<Rightarrow> u64 \<Rightarrow> int \<times> phys" where
  "palloc_get s p =
     (case page_ref_pointer s p of
        None \<Rightarrow> (-1, s)
      | Some rp \<Rightarrow>
          if get_ref s rp \<noteq> 0 \<and> get_ref s rp \<noteq> NOT 0 \<and> buddy_allocated (page_allocator s) p 0
          then (0, set_ref s rp (get_ref s rp + 1)) else (-1, s))"

definition palloc_refcount :: "phys \<Rightarrow> u64 \<Rightarrow> u32" where
  "palloc_refcount s p =
     (case page_ref_pointer s p of
        None \<Rightarrow> 0
      | Some rp \<Rightarrow> if buddy_allocated (page_allocator s) p 0 then get_ref s rp else 0)"

definition palloc_zero :: "phys \<Rightarrow> (u64 option \<times> phys) option" where
  "palloc_zero s = alloc_pages s 0 PALLOC_ZERO"

definition palloc :: "phys \<Rightarrow> (u64 \<times> phys) option" where
  "palloc s = do { (page, s) \<leftarrow> alloc_pages s 0 0;
                   case page of None \<Rightarrow> None | Some p \<Rightarrow> Some (p, s) }"

definition palloc_reference_selftest :: "phys \<Rightarrow> (int \<times> phys) option" where
  "palloc_reference_selftest s = do {
     let free_before = palloc_free_pages s;
     (page, s) \<leftarrow> palloc_zero s;
     case page of
       None \<Rightarrow> Some (-1, s)
     | Some p \<Rightarrow>
         if palloc_refcount s p \<noteq> 1 then Some (-1, s)
         else case palloc_get s p of (r, s) \<Rightarrow>
           if r < 0 \<or> palloc_refcount s p \<noteq> 2 then Some (-1, s)
           else do {
             s \<leftarrow> pfree s p;
             let free_shared = palloc_free_pages s;
             if palloc_refcount s p \<noteq> 1 \<or> free_shared + 1 \<noteq> free_before then Some (-1, s)
             else do {
               s \<leftarrow> pfree s p;
               let free_after = palloc_free_pages s;
               Some (if free_after = free_before then 0 else -1, s) } } }"

subsection \<open>The byte heap\<close>

definition MAGIC_NUMBER :: u64 where
  "MAGIC_NUMBER = 0x20030528"

definition MIN_SIZE :: u64 where
  "MIN_SIZE = 1"

definition USE_BLOCK :: "u64 \<Rightarrow> u64" where
  "USE_BLOCK x = x div MIN_SIZE + (if x mod MIN_SIZE \<noteq> 0 then 1 else 0)"

text \<open>The size of a \<^verbatim>\<open>struct block_info\<close> is 32.\<close>

definition INFO_BLOCK :: u64 where
  "INFO_BLOCK = USE_BLOCK 32"

definition MALLOC_ALIGNMENT :: u64 where
  "MALLOC_ALIGNMENT = 16"

definition MALLOC_ALIGNMENT_BLOCKS :: u64 where
  "MALLOC_ALIGNMENT_BLOCKS = USE_BLOCK MALLOC_ALIGNMENT"

definition ALIGN_BLOCKS :: "u64 \<Rightarrow> u64" where
  "ALIGN_BLOCKS x = (x + MALLOC_ALIGNMENT_BLOCKS - 1) AND NOT (MALLOC_ALIGNMENT_BLOCKS - 1)"

definition PAGE_BLOCK :: u64 where
  "PAGE_BLOCK = 512"

definition BITMAP_SIZE :: nat where
  "BITMAP_SIZE = (4096 - unat PAGE_BLOCK) div 8"

record heap_page =
  hp_used :: u64
  bitmap :: "u8 list"
  hp_next :: u64

record block_info =
  magic :: u64
  bi_used :: u64
  parent :: u64
  addr :: u64

record kheap =
  pages_of :: phys
  pool_list :: u64
  page_at :: "u64 \<Rightarrow> heap_page"
  info_at :: "u64 \<Rightarrow> block_info"

text \<open>Bit \<open>k\<close> of the bitmap is bit \<open>7 - k mod 8\<close> of byte \<open>k div 8\<close>.\<close>

definition block_bit :: "nat \<Rightarrow> u8" where
  "block_bit k = drop_bit (k mod 8) 0x80"

function mark_blocks :: "u8 list \<Rightarrow> u64 \<Rightarrow> u64 \<Rightarrow> u8 list" where
  "mark_blocks bm k finish =
     (if k < finish
      then mark_blocks (bm[unat k div 8 := bm ! (unat k div 8) OR block_bit (unat k)]) (k + 1) finish
      else bm)"
  by pat_completeness auto
termination
  by (relation "measure (\<lambda>(bm, k, finish). unat (finish - k))") (auto simp: measure_unat_diff)

text \<open>The two nested loops over the bytes of the bitmap and the bits of a byte, as one loop over the
  number of the bit.\<close>

function malloc_core_loop :: "heap_page \<Rightarrow> u64 \<Rightarrow> nat \<Rightarrow> u64 \<Rightarrow> u64 \<Rightarrow> u64 \<times> heap_page" where
  "malloc_core_loop page n_blocks offset cnt start =
     (if offset < BITMAP_SIZE * 8 then
        if bitmap page ! (offset div 8) AND block_bit offset = 0 then
          if cnt = 0 \<and> offset mod unat MALLOC_ALIGNMENT_BLOCKS \<noteq> 0
          then malloc_core_loop page n_blocks (offset + 1) cnt start
          else
            let start = (if cnt = 0 then of_nat offset else start); cnt = cnt + 1
            in if cnt = n_blocks
               then (start + PAGE_BLOCK,
                     page\<lparr>bitmap := mark_blocks (bitmap page) start (start + n_blocks), hp_used := hp_used page + n_blocks\<rparr>)
               else malloc_core_loop page n_blocks (offset + 1) cnt start
        else malloc_core_loop page n_blocks (offset + 1) 0 0
      else (-1, page))"
  by pat_completeness auto
termination
  by (relation "measure (\<lambda>(page, n_blocks, offset, cnt, start). BITMAP_SIZE * 8 - offset)") auto

declare mark_blocks.simps [simp del] malloc_core_loop.simps [simp del]

definition put_page :: "kheap \<Rightarrow> u64 \<Rightarrow> heap_page \<Rightarrow> kheap" where
  "put_page h page v = h\<lparr>page_at := (page_at h)(page := v)\<rparr>"

definition malloc_core :: "kheap \<Rightarrow> u64 \<Rightarrow> u64 \<Rightarrow> u64 \<times> kheap" where
  "malloc_core h page n_blocks =
     (if page = 0 then (-1, h)
      else case malloc_core_loop (page_at h page) n_blocks 0 0 0 of (r, v) \<Rightarrow> (r, put_page h page v))"

function clear_blocks :: "u8 list \<Rightarrow> u64 \<Rightarrow> u64 \<Rightarrow> u8 list option" where
  "clear_blocks bm i e =
     (if i < e
      then if unat i div 8 < length bm
           then clear_blocks (bm[unat i div 8 := bm ! (unat i div 8) AND NOT (block_bit (unat i))]) (i + 1) e
           else None
      else Some bm)"
  by pat_completeness auto
termination
  by (relation "measure (\<lambda>(bm, i, e). unat (e - i))") (auto simp: measure_unat_diff)

declare clear_blocks.simps [simp del]

text \<open>The search of the page whose successor is \<open>page\<close>; 0 is the end of the list.\<close>

partial_function (option) pool_before :: "(u64 \<Rightarrow> heap_page) \<Rightarrow> u64 \<Rightarrow> u64 \<Rightarrow> u64 option" where
  "pool_before at page pg =
     (if pg = 0 then Some 0
      else if hp_next (at pg) = page then Some pg
      else pool_before at page (hp_next (at pg)))"

definition pool_unlink :: "kheap \<Rightarrow> u64 \<Rightarrow> (u64 \<times> kheap) option" where
  "pool_unlink h page =
     (if page \<noteq> pool_list h
      then do { pg \<leftarrow> pool_before (page_at h) page (pool_list h);
                Some (pg, if pg = 0 then h
                          else put_page h pg ((page_at h pg)\<lparr>hp_next := hp_next (page_at h page)\<rparr>)) }
      else Some (page, h\<lparr>pool_list := hp_next (page_at h page)\<rparr>))"

definition free_core :: "kheap \<Rightarrow> u64 \<Rightarrow> u64 \<Rightarrow> u64 \<Rightarrow> kheap option" where
  "free_core h page start n_blocks = do {
     let s = start - page - PAGE_BLOCK;
     let e = s + n_blocks;
     bm \<leftarrow> clear_blocks (bitmap (page_at h page)) s e;
     let h = put_page h page ((page_at h page)\<lparr>bitmap := bm, hp_used := hp_used (page_at h page) - n_blocks\<rparr>);
     if hp_used (page_at h page) = 0
     then do { (pg, h) \<leftarrow> pool_unlink h page;
               if pg \<noteq> 0 then do { s \<leftarrow> pfree (pages_of h) page; Some (h\<lparr>pages_of := s\<rparr>) } else Some h }
     else Some h }"

text \<open>What the memory of a zeroed page reads as.\<close>

definition zero_page :: heap_page where
  "zero_page = \<lparr>hp_used = 0, bitmap = replicate BITMAP_SIZE 0, hp_next = 0\<rparr>"

definition zero_info :: block_info where
  "zero_info = \<lparr>magic = 0, bi_used = 0, parent = 0, addr = 0\<rparr>"

definition clear_page :: "kheap \<Rightarrow> u64 \<Rightarrow> kheap" where
  "clear_page h p =
     h\<lparr>page_at := (page_at h)(p := zero_page),
       info_at := (\<lambda>a. if p \<le> a \<and> a - p < PGSIZE then zero_info else info_at h a)\<rparr>"

definition malloc_page :: "kheap \<Rightarrow> (u64 \<times> kheap) option" where
  "malloc_page h = do {
     (page, s) \<leftarrow> palloc_zero (pages_of h);
     let h = h\<lparr>pages_of := s\<rparr>;
     case page of
       None \<Rightarrow> Some (0, h)
     | Some p \<Rightarrow>
         let h = clear_page h p;
             h = put_page h p ((page_at h p)\<lparr>hp_used := 0, hp_next := pool_list h\<rparr>)
         in Some (p, h\<lparr>pool_list := p\<rparr>) }"

definition malloc :: "kheap \<Rightarrow> u64 \<Rightarrow> (u64 \<times> kheap) option" where
  "malloc h sz =
     (if sz = 0 then Some (0, h)
      else
        let use_blocks = USE_BLOCK sz
        in if use_blocks > -1 - INFO_BLOCK - (MALLOC_ALIGNMENT_BLOCKS - 1) then Some (0, h)
           else do {
             let allocation_blocks = ALIGN_BLOCKS (use_blocks + INFO_BLOCK);
             let (page, (ret, h)) = (pool_list h, malloc_core h (pool_list h) allocation_blocks);
             (page, ret, h) \<leftarrow>
               (if ret = -1
                then do { (page, h) \<leftarrow> malloc_page h; Some (page, malloc_core h page allocation_blocks) }
                else Some (page, ret, h));
             if ret = -1 then Some (0, h)
             else
               let info = ret + page; p = info + INFO_BLOCK * MIN_SIZE
               in Some (p, h\<lparr>info_at := (info_at h)(info :=
                     \<lparr>magic = MAGIC_NUMBER, bi_used = allocation_blocks - INFO_BLOCK, parent = page, addr = p\<rparr>)\<rparr>) })"

definition calloc :: "kheap \<Rightarrow> u64 \<Rightarrow> u64 \<Rightarrow> (u64 \<times> kheap) option" where
  "calloc h n sz =
     (if sz \<noteq> 0 \<and> n > (-1) div sz then Some (0, h) else malloc h (n * sz))"

definition free :: "kheap \<Rightarrow> u64 \<Rightarrow> kheap option" where
  "free h p =
     (if p = 0 then Some h
      else
        let info = p - INFO_BLOCK * MIN_SIZE; page = parent (info_at h info)
        in if p \<le> page \<or> p > page + PGSIZE \<or> p \<noteq> addr (info_at h info) \<or> magic (info_at h info) \<noteq> MAGIC_NUMBER
           then Some h
           else free_core h page info (INFO_BLOCK + bi_used (info_at h info)))"

text \<open>The sizes are allocated in order and freed in the reverse order.\<close>

fun selftest_allocate :: "kheap \<Rightarrow> u64 list \<Rightarrow> u64 list \<Rightarrow> (u64 list \<times> kheap) option" where
  "selftest_allocate h [] got = Some (got, h)"
| "selftest_allocate h (sz # szs) got = do {
     (p, h) \<leftarrow> malloc h sz;
     if p = 0 \<or> p mod MALLOC_ALIGNMENT \<noteq> 0 then None else selftest_allocate h szs (p # got) }"

fun selftest_free :: "kheap \<Rightarrow> u64 list \<Rightarrow> kheap option" where
  "selftest_free h [] = Some h"
| "selftest_free h (p # ps) = do { h \<leftarrow> free h p; selftest_free h ps }"

definition palloc_heap_alignment_selftest :: "kheap \<Rightarrow> kheap option" where
  "palloc_heap_alignment_selftest h = do {
     (got, h) \<leftarrow> selftest_allocate h [1, 3, 7, 15, 17, 31, 33, 127] [];
     selftest_free h got }"

subsection \<open>Initialization\<close>

text \<open>The ranges the device tree describes: \<open>of_memory_range_get\<close> and
  \<open>of_reserved_memory_range_get\<close> give the start and the size of a range, \<open>None\<close> for an error.\<close>

primrec for_each :: "('a \<Rightarrow> 's \<Rightarrow> 's option) \<Rightarrow> 'a list \<Rightarrow> 's \<Rightarrow> 's option" where
  "for_each f [] s = Some s"
| "for_each f (x # xs) s = do { s \<leftarrow> f x s; for_each f xs s }"

definition discover_range :: "(nat \<Rightarrow> (u64 \<times> u64) option) \<Rightarrow> nat \<Rightarrow> memrange_set \<Rightarrow> memrange_set option" where
  "discover_range of_memory_range_get i m = do {
     (base, sz) \<leftarrow> of_memory_range_get i;
     if base + sz < base then None
     else if base > -1 - (PGSIZE - 1) then Some m
     else
       let start = PGROUNDUP base; finish = PGROUNDDOWN (base + sz)
       in if start < finish
          then case memrange_add m start finish of (r, m) \<Rightarrow> if r < 0 then None else Some m
          else Some m }"

definition reserve_range :: "(nat \<Rightarrow> (u64 \<times> u64) option) \<Rightarrow> nat \<Rightarrow> memrange_set \<Rightarrow> memrange_set option" where
  "reserve_range of_reserved_memory_range_get i m = do {
     (base, sz) \<leftarrow> of_reserved_memory_range_get i;
     if base + sz < base then None
     else
       let start = PGROUNDDOWN base; finish = base + sz
       in if finish > -1 - (PGSIZE - 1) then None
          else
            let finish = PGROUNDUP finish
            in if start < finish
               then case memrange_remove m start finish of (r, m) \<Rightarrow> if r < 0 then None else Some m
               else Some m }"

text \<open>The device tree as the code sees it, and the address \<^verbatim>\<open>end\<close> of the linker script.\<close>

record device_tree =
  of_memory_range_count :: int
  of_memory_range_get :: "nat \<Rightarrow> (u64 \<times> u64) option"
  of_reserved_memory_range_count :: int
  of_reserved_memory_range_get :: "nat \<Rightarrow> (u64 \<times> u64) option"

definition palloc_discover_memory :: "device_tree \<Rightarrow> u64 \<Rightarrow> phys \<Rightarrow> phys option" where
  "palloc_discover_memory dt kernel_image_end s = do {
     let kernel_start = KERNEL_BASE;
     let kernel_end = PGROUNDUP kernel_image_end;
     let m = memrange_init (managed_ranges s);
     let cnt = of_memory_range_count dt;
     if cnt \<le> 0 then None
     else do {
       m \<leftarrow> for_each (discover_range (of_memory_range_get dt)) [0..<nat cnt] m;
       if \<not> memrange_contains m kernel_start kernel_end then None
       else case memrange_remove m 0 kernel_end of (r, m) \<Rightarrow>
         if r < 0 then None
         else
           let cnt = of_reserved_memory_range_count dt
           in if cnt < 0 then None
              else do {
                m \<leftarrow> for_each (reserve_range (of_reserved_memory_range_get dt)) [0..<nat cnt] m;
                if mr_count m = 0 then None
                else do {
                  bytes \<leftarrow> memrange_total m;
                  if list_ex (\<lambda>r. r_end r > MAXVA) (take (mr_count m) (ranges m)) then None
                  else Some (s\<lparr>managed_ranges := m, usable_bytes := bytes, heap_start := kernel_end\<rparr>) } } } }"

text \<open>One turn of the loop of \<^verbatim>\<open>palloc_init\<close>; \<open>mem\<close> are the bytes of the memory, which the state
  array of the region takes over.\<close>

definition init_region :: "(u64 \<Rightarrow> u8) \<Rightarrow> nat \<Rightarrow> phys \<Rightarrow> phys option" where
  "init_region mem i s = do {
     (start, finish) \<leftarrow> memrange_get (managed_ranges s) (int i);
     let pages = (finish - start) div PGSIZE;
     let refs_offset = (pages + PAGE_REF_ALIGNMENT - 1) AND NOT (PAGE_REF_ALIGNMENT - 1);
     if pages > (-1 - refs_offset) div 4 then None
     else
       let metadata_bytes = PGROUNDUP (refs_offset + pages * 4)
       in if metadata_bytes \<ge> finish - start then Some s
          else do {
            (r, al) \<leftarrow> buddy_add_region (page_allocator s) start finish (start + metadata_bytes)
                          (map (\<lambda>k. mem (start + of_nat k)) [0..<unat pages]) pages;
            if r < 0 then None
            else if length (page_ref_regions s) \<ge> MEMRANGE_MAX then None
            else Some (s\<lparr>page_allocator := al,
                         page_ref_regions := page_ref_regions s @
                           [\<lparr>ref_start = start, ref_end = finish, refs = replicate (unat pages) 0\<rparr>],
                         usable_bytes := usable_bytes s + (finish - start - metadata_bytes)\<rparr>) } }"

definition palloc_init :: "device_tree \<Rightarrow> u64 \<Rightarrow> (u64 \<Rightarrow> u8) \<Rightarrow> kheap \<Rightarrow> kheap option" where
  "palloc_init dt kernel_image_end mem h = do {
     s \<leftarrow> palloc_discover_memory dt kernel_image_end (pages_of h);
     let s = s\<lparr>page_allocator := buddy_init (page_allocator s), page_ref_regions := [], usable_bytes := 0\<rparr>;
     s \<leftarrow> for_each (init_region mem) [0..<mr_count (managed_ranges s)] s;
     if usable_bytes s = 0 then None
     else do {
       h \<leftarrow> palloc_heap_alignment_selftest (h\<lparr>pages_of := s\<rparr>);
       if buddy_free_page_count (page_allocator (pages_of h)) \<noteq> usable_bytes (pages_of h) div PGSIZE then None
       else Some h } }"

end
