(* ===== verification/Palloc_Spec.thy ===== *)
theory Palloc_Spec
  imports Palloc
begin

text \<open>
  The reference counts of \<^verbatim>\<open>kernel/palloc.c\<close>: the count of a page is not zero exactly while the
  buddy allocator has the page allocated, and every operation on pages keeps that. The contract of the
  counted pages is a locale, interpreted on the operations of the file.
\<close>

subsection \<open>The invariant\<close>

definition ref_match :: "page_ref_region \<Rightarrow> buddy_region \<Rightarrow> bool" where
  "ref_match r b \<longleftrightarrow> ref_start r = b_start b \<and> ref_end r = b_end b \<and>
     length (refs r) = unat ((b_end b - b_start b) div PGSIZE)"

text \<open>The null page is never handed out, and every page lies in the direct map.\<close>

definition placed :: "buddy_allocator \<Rightarrow> bool" where
  "placed al \<longleftrightarrow> (\<forall>(b, e, a)\<in>set (geometry al). 0 < a \<and> e \<le> MAXVA)"

definition refs_ok :: "phys \<Rightarrow> bool" where
  "refs_ok s \<longleftrightarrow> list_all2 ref_match (page_ref_regions s) (regions (page_allocator s)) \<and> placed (page_allocator s)"

definition refs_of :: "phys \<Rightarrow> u64 \<Rightarrow> u32" where
  "refs_of s a = (case page_ref_pointer s a of None \<Rightarrow> 0 | Some rp \<Rightarrow> get_ref s rp)"

definition phys_ok :: "phys \<Rightarrow> bool" where
  "phys_ok s \<longleftrightarrow> buddy_inv (page_allocator s) \<and> refs_ok s \<and>
     (\<forall>a. refs_of s a \<noteq> 0 \<longleftrightarrow> buddy_allocated (page_allocator s) a 0)"

lemma phys_okD:
  assumes "phys_ok s"
  shows "buddy_inv (page_allocator s)" "refs_ok s" "refs_of s a \<noteq> 0 \<longleftrightarrow> buddy_allocated (page_allocator s) a 0"
  using assms by (simp_all add: phys_ok_def)

lemma refs_okD:
  assumes "refs_ok s"
  shows "length (page_ref_regions s) = length (regions (page_allocator s))"
    and "i < length (regions (page_allocator s)) \<Longrightarrow> ref_match (page_ref_regions s ! i) (regions (page_allocator s) ! i)"
  using assms by (auto simp: refs_ok_def list_all2_conv_all_nth)

lemma scan_cong: "(\<And>i. i < n \<Longrightarrow> p i = q i) \<Longrightarrow> scan p k n = scan q k n"
proof (induction p k n rule: scan.induct)
  case (1 p i n)
  show ?case using 1 by (subst (1 2) scan.simps) auto
qed

lemma page_ref_find_eq:
  assumes "refs_ok s"
  shows "page_ref_find s a = buddy_find_region (page_allocator s) a"
proof -
  have "scan (\<lambda>i. a \<ge> ref_start (page_ref_regions s ! i) \<and> a < ref_end (page_ref_regions s ! i)) 0
          (length (regions (page_allocator s))) =
        scan (\<lambda>i. a \<ge> b_start (regions (page_allocator s) ! i) \<and> a < b_end (regions (page_allocator s) ! i)) 0
          (length (regions (page_allocator s)))"
    using refs_okD(2) [OF assms] by (intro scan_cong) (simp add: ref_match_def)
  then show ?thesis by (simp add: page_ref_find_def buddy_find_region_def refs_okD(1) [OF assms])
qed

lemma page_ref_find_Some:
  assumes "page_ref_find s a = Some i"
  shows "i < length (page_ref_regions s)" "ref_start (page_ref_regions s ! i) \<le> a" "a < ref_end (page_ref_regions s ! i)"
proof -
  let ?p = "\<lambda>i. a \<ge> ref_start (page_ref_regions s ! i) \<and> a < ref_end (page_ref_regions s ! i)"
  have i: "i = scan ?p 0 (length (page_ref_regions s))" "i < length (page_ref_regions s)"
    using assms by (auto simp: page_ref_find_def Let_def split: if_splits)
  then show "i < length (page_ref_regions s)" "ref_start (page_ref_regions s ! i) \<le> a" "a < ref_end (page_ref_regions s ! i)"
    using scan_hit [of ?p 0 "length (page_ref_regions s)"] by simp_all
qed

lemma allocated_pointer:
  assumes "refs_ok s" "buddy_allocated (page_allocator s) a k \<or> buddy_contains (page_allocator s) a"
  obtains rp where "page_ref_pointer s a = Some rp"
  using assms by (auto simp: page_ref_pointer_def page_ref_find_eq buddy_allocated_def buddy_contains_def
      split: if_splits option.splits)

text \<open>A pointer is in bounds, and no two pages share one.\<close>

lemma dvd_diff_div: "k dvd a \<Longrightarrow> k dvd b \<Longrightarrow> (a - b) div k = a div k - b div k" for a b k :: nat
  by (cases "k = 0") (auto elim!: dvdE simp: diff_mult_distrib2 [symmetric])

lemma page_index:
  fixes a b e :: u64
  assumes "page_aligned a" "page_aligned b" "page_aligned e" "b \<le> a" "a < e"
  shows "unat ((a - b) div PGSIZE) = addr_page a - addr_page b" "unat ((e - b) div PGSIZE) = addr_page e - addr_page b"
    "addr_page b \<le> addr_page a" "addr_page a < addr_page e"
proof -
  have "b \<le> e" using assms(4,5) by simp
  then show "unat ((a - b) div PGSIZE) = addr_page a - addr_page b" "unat ((e - b) div PGSIZE) = addr_page e - addr_page b"
    using assms by (simp_all add: unat_div_distrib unat_sub addr_page_def page_aligned_unat dvd_diff_div)
  show "addr_page b \<le> addr_page a" using assms(4) by (rule addr_page_mono)
  show "addr_page a < addr_page e" using assms by (simp add: addr_page_less_iff)
qed

lemma page_ref_pointer_Some:
  assumes inv: "buddy_inv (page_allocator s)" and ok: "refs_ok s" and p: "page_ref_pointer s a = Some (i, j)"
  shows "i < length (page_ref_regions s)" "j < length (refs (page_ref_regions s ! i))"
    "a = page_addr (addr_page (ref_start (page_ref_regions s ! i)) + j)"
proof -
  let ?b = "regions (page_allocator s) ! i"
  have al: "page_aligned a" and f: "page_ref_find s a = Some i"
    and j: "j = unat ((a - ref_start (page_ref_regions s ! i)) div PGSIZE)"
    using p by (auto simp: page_ref_pointer_def split: if_splits option.splits)
  note f = page_ref_find_Some [OF f]
  then have i: "i < length (regions (page_allocator s))" using refs_okD(1) [OF ok] by simp
  note m = refs_okD(2) [OF ok i, unfolded ref_match_def]
  obtain bss where st: "settled (page_allocator s) bss" using inv by (auto simp: buddy_inv_def)
  have "i < length bss" using settledD(2) [OF st] i by (simp add: regions_ok_def)
  then have ba: "page_aligned (b_start ?b)" "page_aligned (b_end ?b)"
    using settledD(7) [OF st] by (auto simp: region_ok_def region_shape_def)
  have r: "b_start ?b \<le> a" "a < b_end ?b" using f m by simp_all
  note x = page_index [OF al ba r]
  show "i < length (page_ref_regions s)" by (rule f(1))
  show "j < length (refs (page_ref_regions s ! i))" using x m j by simp
  show "a = page_addr (addr_page (ref_start (page_ref_regions s ! i)) + j)"
    using x m j page_addr_addr_page [OF al] by simp
qed

lemma page_ref_pointer_inj:
  assumes "buddy_inv (page_allocator s)" "refs_ok s" "page_ref_pointer s a = Some rp" "page_ref_pointer s b = Some rp"
  shows "a = b"
  using page_ref_pointer_Some(3) [OF assms(1,2)] assms(3,4) by (cases rp) blast

subsection \<open>Stores\<close>

lemma set_ref_sel [simp]:
  "page_allocator (set_ref s rp v) = page_allocator s" "managed_ranges (set_ref s rp v) = managed_ranges s"
  "usable_bytes (set_ref s rp v) = usable_bytes s" "heap_start (set_ref s rp v) = heap_start s"
  by (simp_all add: set_ref_def)

lemma set_ref_nth:
  "page_ref_regions (set_ref s rp v) ! i =
     (if i = fst rp \<and> i < length (page_ref_regions s)
      then (page_ref_regions s ! i)\<lparr>refs := (refs (page_ref_regions s ! i))[snd rp := v]\<rparr>
      else page_ref_regions s ! i)"
  by (cases "fst rp < length (page_ref_regions s)") (auto simp: set_ref_def not_less list_update_beyond)

lemma set_ref_region:
  "length (page_ref_regions (set_ref s rp v)) = length (page_ref_regions s)"
  "ref_start (page_ref_regions (set_ref s rp v) ! i) = ref_start (page_ref_regions s ! i)"
  "ref_end (page_ref_regions (set_ref s rp v) ! i) = ref_end (page_ref_regions s ! i)"
  "length (refs (page_ref_regions (set_ref s rp v) ! i)) = length (refs (page_ref_regions s ! i))"
  unfolding set_ref_nth by (simp_all add: set_ref_def)

lemma page_ref_pointer_set_ref [simp]: "page_ref_pointer (set_ref s rp v) a = page_ref_pointer s a"
  by (simp add: page_ref_pointer_def page_ref_find_def set_ref_region split: option.split)

lemma refs_ok_set_ref [simp]: "refs_ok (set_ref s rp v) = refs_ok s"
  by (simp add: refs_ok_def list_all2_conv_all_nth set_ref_region ref_match_def)

lemma refs_of_set_ref:
  assumes "buddy_inv (page_allocator s)" "refs_ok s" "page_ref_pointer s p = Some rp"
  shows "refs_of (set_ref s rp v) = (refs_of s)(p := v)"
proof
  fix a
  obtain i j where rp: "rp = (i, j)" by (cases rp)
  note b = page_ref_pointer_Some [OF assms(1,2) assms(3) [unfolded rp]]
  show "refs_of (set_ref s rp v) a = ((refs_of s)(p := v)) a"
  proof (cases "a = p")
    case True
    have "get_ref (set_ref s rp v) rp = v" using b(1,2) by (simp add: rp get_ref_def set_ref_nth)
    then show ?thesis using True assms(3) by (simp add: refs_of_def)
  next
    case False
    then have n: "page_ref_pointer s a \<noteq> Some (i, j)" using page_ref_pointer_inj [OF assms(1,2)] assms(3) rp by metis
    show ?thesis
    proof (cases "page_ref_pointer s a")
      case (Some ap)
      then have "get_ref (set_ref s rp v) ap = get_ref s ap"
        using n b by (cases ap) (auto simp: get_ref_def set_ref_nth rp)
      then show ?thesis using Some False by (simp add: refs_of_def)
    qed (simp add: refs_of_def False)
  qed
qed

text \<open>A step of the buddy allocator moves no region.\<close>

lemma refs_after_step [simp]:
  "page_ref_pointer (s\<lparr>page_allocator := al\<rparr>) = page_ref_pointer s" "get_ref (s\<lparr>page_allocator := al\<rparr>) = get_ref s"
  "refs_of (s\<lparr>page_allocator := al\<rparr>) = refs_of s"
  by (auto simp: fun_eq_iff page_ref_pointer_def page_ref_find_def get_ref_def refs_of_def split: option.splits)

lemma refs_ok_after_step:
  assumes "refs_ok s" "geometry al = geometry (page_allocator s)"
  shows "refs_ok (s\<lparr>page_allocator := al\<rparr>)"
proof -
  have "length (regions al) = length (regions (page_allocator s))"
    using arg_cong [OF assms(2), of length] by (simp add: geometry_def)
  moreover from this have "b_start (regions al ! i) = b_start (regions (page_allocator s) ! i) \<and>
      b_end (regions al ! i) = b_end (regions (page_allocator s) ! i)" if "i < length (regions al)" for i
    using that arg_cong [OF assms(2), of "\<lambda>xs. xs ! i"] by (simp add: geometry_def)
  ultimately show ?thesis
    using assms by (auto simp: refs_ok_def list_all2_conv_all_nth ref_match_def placed_def)
qed

lemma refcount_eq:
  assumes "phys_ok s"
  shows "palloc_refcount s = refs_of s"
proof
  fix a
  show "palloc_refcount s a = refs_of s a"
    using phys_okD(3) [OF assms, of a] by (auto simp: palloc_refcount_def refs_of_def split: option.splits)
qed

lemma pointerD: "page_ref_pointer s p = Some rp \<Longrightarrow> get_ref s rp = refs_of s p"
  by (simp add: refs_of_def)

lemma counted_pointer:
  assumes "phys_ok s" "refs_of s p \<noteq> 0"
  obtains rp where "page_ref_pointer s p = Some rp" "get_ref s rp = refs_of s p" "buddy_allocated (page_allocator s) p 0"
proof -
  have b: "buddy_allocated (page_allocator s) p 0" using phys_okD(3) [OF assms(1)] assms(2) by blast
  then obtain rp where "page_ref_pointer s p = Some rp" using allocated_pointer [OF phys_okD(2) [OF assms(1)]] by blast
  then show ?thesis using that b pointerD by blast
qed

text \<open>Where a counted page lies.\<close>

lemma placedD:
  assumes "placed al" "i < length (regions al)"
  shows "0 < allocatable_start (regions al ! i)" "b_end (regions al ! i) \<le> MAXVA"
proof -
  have "(b_start (regions al ! i), b_end (regions al ! i), allocatable_start (regions al ! i)) \<in> set (geometry al)"
    using assms(2) by (simp add: geometry_def)
  then show "0 < allocatable_start (regions al ! i)" "b_end (regions al ! i) \<le> MAXVA"
    using assms(1) unfolding placed_def by blast+
qed

lemma allocated_placed:
  assumes "placed al" "buddy_allocated al a 0"
  shows "a \<noteq> 0" "page_aligned a" "unat a + 4096 \<le> 2 ^ 38"
proof -
  obtain i where i: "page_aligned a" "buddy_find_region al a = Some i" "buddy_block_fits (regions al ! i) a 0"
    using assms(2) by (auto simp: buddy_allocated_def split: if_splits option.splits)
  then have l: "i < length (regions al)" by (auto simp: buddy_find_region_def Let_def split: if_splits)
  note p = placedD [OF assms(1) l]
  have f: "allocatable_start (regions al ! i) \<le> a" "a \<le> b_end (regions al ! i)" "PGSIZE \<le> b_end (regions al ! i) - a"
    using i(3) by (auto simp: buddy_block_fits_def buddy_order_size_def Let_def split: if_splits)
  show "page_aligned a" by (rule i(1))
  show "a \<noteq> 0" using p(1) f(1) by auto
  have "4096 \<le> unat (b_end (regions al ! i)) - unat a"
    using f(2,3) by (simp add: word_le_nat_alt unat_sub)
  then show "unat a + 4096 \<le> 2 ^ 38" using p(2) by (simp add: word_le_nat_alt)
qed

lemma counted_placed:
  assumes "phys_ok s" "palloc_refcount s a \<noteq> 0"
  shows "a \<noteq> 0" "page_aligned a" "unat a + 4096 \<le> 2 ^ 38"
proof -
  have "buddy_allocated (page_allocator s) a 0"
    using assms phys_okD(3) by (simp add: refcount_eq)
  moreover have "placed (page_allocator s)" using phys_okD(2) [OF assms(1)] by (simp add: refs_ok_def)
  ultimately show "a \<noteq> 0" "page_aligned a" "unat a + 4096 \<le> 2 ^ 38" using allocated_placed by blast+
qed

subsection \<open>The operations\<close>

lemma alloc_pages_spec:
  assumes ok: "phys_ok s"
  shows "alloc_pages s order flags = Some (None, s) \<or>
    (\<exists>p s'. alloc_pages s order flags = Some (Some p, s') \<and> phys_ok s' \<and> page_aligned p \<and>
       palloc_refcount s p = 0 \<and> palloc_refcount s' = (palloc_refcount s)(p := if order = 0 then 1 else 0) \<and>
       unat (palloc_free_pages s') + 2 ^ order = unat (palloc_free_pages s) \<and>
       (\<forall>a k. buddy_allocated (page_allocator s') a k \<longleftrightarrow>
          a = p \<and> k = order \<or> buddy_allocated (page_allocator s) a k))"
proof (cases "flags AND NOT PALLOC_ZERO \<noteq> 0")
  case False
  note inv = phys_okD(1) [OF ok] and ro = phys_okD(2) [OF ok]
  obtain res al where e: "buddy_alloc (page_allocator s) order = (res, al)"
    by (cases "buddy_alloc (page_allocator s) order")
  show ?thesis
  proof (cases res)
    case None
    then have "al = page_allocator s" using buddy.alloc_none [OF inv] e by blast
    then show ?thesis using False e None by (simp add: alloc_pages_def)
  next
    case (Some p)
    note A = buddy_alloc_some [OF inv e [unfolded Some]]
    have pa: "page_aligned p" using A(3) by (auto simp: buddy_contains_def split: if_splits)
    have nb: "\<not> buddy_allocated (page_allocator s) p k" for k
      using A(4) [of p k] by (auto simp: block_pages_def)
    then have z: "refs_of s p = 0" using phys_okD(3) [OF ok] by metis
    let ?s = "s\<lparr>page_allocator := al\<rparr>"
    have ro': "refs_ok ?s" by (rule refs_ok_after_step [OF ro A(7)])
    have fr: "unat (palloc_free_pages ?s) + 2 ^ order = unat (palloc_free_pages s)"
      using A(6) by (simp add: palloc_free_pages_def buddy_free_page_count_def)
    obtain rp where rp: "page_ref_pointer s p = Some rp" using allocated_pointer [OF ro] A(3) by blast
    show ?thesis
    proof (cases "order = 0")
      case True
      let ?t = "set_ref ?s rp 1"
      have "refs_of ?t = (refs_of s)(p := 1)"
        using refs_of_set_ref [of ?s p rp 1] A(1) ro' rp by simp
      then have ok': "phys_ok ?t"
        using A(1,5) ro' True phys_okD(3) [OF ok] by (auto simp: phys_ok_def)
      moreover have "alloc_pages s order flags = Some (Some p, ?t)"
        using False e Some True rp z by (simp add: alloc_pages_def pointerD)
      moreover have "palloc_refcount ?t = (palloc_refcount s)(p := 1)"
        using refs_of_set_ref [of ?s p rp 1] A(1) ro' rp by (simp add: refcount_eq ok ok')
      moreover have "unat (palloc_free_pages ?t) + 2 ^ order = unat (palloc_free_pages s)"
        using fr by (simp add: palloc_free_pages_def)
      ultimately show ?thesis using z A(5) True pa by (auto simp: refcount_eq [OF ok])
    next
      case f: False
      have ok': "phys_ok ?s" using A(1,5) ro' f phys_okD(3) [OF ok] by (auto simp: phys_ok_def)
      moreover have "alloc_pages s order flags = Some (Some p, ?s)"
        using False e Some f by (simp add: alloc_pages_def)
      moreover have "palloc_refcount ?s = (palloc_refcount s)(p := 0)"
        using z by (auto simp: refcount_eq ok ok')
      ultimately show ?thesis using z A(5) f fr pa by (auto simp: refcount_eq [OF ok])
    qed
  qed
qed (simp add: alloc_pages_def)

lemma buddy_return_spec:
  assumes inv: "buddy_inv (page_allocator s)" and ro: "refs_ok s" and b: "buddy_allocated (page_allocator s) p k"
  obtains s' where "buddy_return s p k = Some s'" "buddy_inv (page_allocator s')" "refs_ok s'" "refs_of s' = refs_of s"
    "unat (palloc_free_pages s') = unat (palloc_free_pages s) + 2 ^ k"
    "\<And>a j. buddy_allocated (page_allocator s') a j \<longleftrightarrow> buddy_allocated (page_allocator s) a j \<and> (a, j) \<noteq> (p, k)"
proof -
  obtain al where f: "buddy_free (page_allocator s) p k = (0, al)" "buddy_inv al" "geometry al = geometry (page_allocator s)"
    "unat (free_pages al) = unat (free_pages (page_allocator s)) + 2 ^ k"
    "\<forall>a j. buddy_allocated al a j \<longleftrightarrow> buddy_allocated (page_allocator s) a j \<and> (a, j) \<noteq> (p, k)"
    using buddy_free_owned [OF inv b] by blast
  show ?thesis
    by (rule that [of "s\<lparr>page_allocator := al\<rparr>"])
      (use f refs_ok_after_step [OF ro f(3)] in \<open>simp_all add: buddy_return_def palloc_free_pages_def buddy_free_page_count_def\<close>)
qed

lemma buddy_return_foreign:
  "\<not> buddy_allocated (page_allocator s) p k \<Longrightarrow> buddy_return s p k = None"
  by (simp add: buddy_return_def buddy_free_foreign)

text \<open>Giving back the last reference of a page.\<close>

lemma last_reference:
  assumes ok: "phys_ok s" and rp: "page_ref_pointer s p = Some rp" and b: "buddy_allocated (page_allocator s) p 0"
  obtains s' where "buddy_return (set_ref s rp 0) p 0 = Some s'" "phys_ok s'"
    "palloc_refcount s' = (palloc_refcount s)(p := 0)"
    "unat (palloc_free_pages s') = unat (palloc_free_pages s) + 1"
    "\<And>a j. buddy_allocated (page_allocator s') a j \<longleftrightarrow> buddy_allocated (page_allocator s) a j \<and> (a, j) \<noteq> (p, 0)"
proof -
  have r: "refs_of (set_ref s rp 0) = (refs_of s)(p := 0)"
    by (rule refs_of_set_ref [OF phys_okD(1,2) [OF ok] rp])
  obtain s' where s': "buddy_return (set_ref s rp 0) p 0 = Some s'" "buddy_inv (page_allocator s')" "refs_ok s'"
    "refs_of s' = refs_of (set_ref s rp 0)"
    "unat (palloc_free_pages s') = unat (palloc_free_pages (set_ref s rp 0)) + 2 ^ 0"
    "\<And>a j. buddy_allocated (page_allocator s') a j \<longleftrightarrow> buddy_allocated (page_allocator (set_ref s rp 0)) a j \<and> (a, j) \<noteq> (p, 0)"
    using buddy_return_spec [of "set_ref s rp 0" p 0] phys_okD(1,2) [OF ok] b by (metis set_ref_sel(1) refs_ok_set_ref)
  have ok': "phys_ok s'" using s' r phys_okD(3) [OF ok] by (auto simp: phys_ok_def)
  show ?thesis
    by (rule that [OF s'(1) ok']) (use s' r in \<open>simp_all add: refcount_eq ok ok' palloc_free_pages_def\<close>)
qed

lemma pfree_spec:
  assumes ok: "phys_ok s"
  shows "if palloc_refcount s p = 0 then pfree s p = None
    else \<exists>s'. pfree s p = Some s' \<and> phys_ok s' \<and>
      palloc_refcount s' = (palloc_refcount s)(p := palloc_refcount s p - 1) \<and>
      unat (palloc_free_pages s') = unat (palloc_free_pages s) + (if palloc_refcount s p = 1 then 1 else 0)"
proof (cases "palloc_refcount s p = 0")
  case True
  then show ?thesis
    by (auto simp: pfree_def palloc_refcount_def split: option.splits if_splits)
next
  case False
  then obtain rp where rp: "page_ref_pointer s p = Some rp" "get_ref s rp = refs_of s p"
    and b: "buddy_allocated (page_allocator s) p 0"
    using counted_pointer [OF ok] by (metis refcount_eq ok)
  have r: "refs_of (set_ref s rp v) = (refs_of s)(p := v)" for v
    by (rule refs_of_set_ref [OF phys_okD(1,2) [OF ok] rp(1)])
  then have g: "get_ref (set_ref s rp v) rp = v" for v
    using pointerD [of "set_ref s rp v" p rp] rp(1) by simp
  have z: "refs_of s p \<noteq> 0" using False by (simp add: refcount_eq ok)
  have e: "pfree s p = (if refs_of s p - 1 = 0 then buddy_return (set_ref s rp (refs_of s p - 1)) p 0
                        else Some (set_ref s rp (refs_of s p - 1)))"
    using rp b z g by (simp add: pfree_def Let_def)
  show ?thesis
  proof (cases "refs_of s p = 1")
    case True
    obtain s' where "buddy_return (set_ref s rp 0) p 0 = Some s'" "phys_ok s'"
      "palloc_refcount s' = (palloc_refcount s)(p := 0)"
      "unat (palloc_free_pages s') = unat (palloc_free_pages s) + 1"
      using last_reference [OF ok rp(1) b] by metis
    then show ?thesis using e True z by (simp add: refcount_eq [OF ok])
  next
    case one: False
    let ?s = "set_ref s rp (refs_of s p - 1)"
    have nz: "refs_of s p - 1 \<noteq> 0" using one by simp
    have "phys_ok ?s" using phys_okD [OF ok] r nz b by (auto simp: phys_ok_def)
    then show ?thesis using e one z nz r by (simp add: refcount_eq ok palloc_free_pages_def)
  qed
qed

lemma palloc_get_spec:
  assumes ok: "phys_ok s"
  shows "if palloc_refcount s p = 0 \<or> palloc_refcount s p = NOT 0 then palloc_get s p = (-1, s)
    else \<exists>s'. palloc_get s p = (0, s') \<and> phys_ok s' \<and>
      palloc_refcount s' = (palloc_refcount s)(p := palloc_refcount s p + 1) \<and>
      palloc_free_pages s' = palloc_free_pages s"
proof (cases "palloc_refcount s p = 0 \<or> palloc_refcount s p = NOT 0")
  case True
  then show ?thesis
    by (auto simp: palloc_get_def palloc_refcount_def split: option.splits if_splits)
next
  case False
  then obtain rp where rp: "page_ref_pointer s p = Some rp" "get_ref s rp = refs_of s p"
    and b: "buddy_allocated (page_allocator s) p 0"
    using counted_pointer [OF ok] by (metis refcount_eq ok)
  let ?s = "set_ref s rp (refs_of s p + 1)"
  have r: "refs_of ?s = (refs_of s)(p := refs_of s p + 1)"
    by (rule refs_of_set_ref [OF phys_okD(1,2) [OF ok] rp(1)])
  have z: "refs_of s p \<noteq> 0" "refs_of s p \<noteq> NOT 0" using False by (simp_all add: refcount_eq ok)
  then have nz: "refs_of s p + 1 \<noteq> 0" by (simp add: eq_neg_iff_add_eq_0 [symmetric])
  have "phys_ok ?s" using phys_okD [OF ok] r nz b by (auto simp: phys_ok_def)
  then show ?thesis using z rp b r by (simp add: palloc_get_def refcount_eq ok palloc_free_pages_def)
qed

lemma free_pages_op_spec:
  assumes ok: "phys_ok s"
  shows "if buddy_allocated (page_allocator s) p k \<and> (k = 0 \<longrightarrow> palloc_refcount s p = 1)
    then \<exists>s'. free_pages_op s p k = Some s' \<and> phys_ok s' \<and> palloc_refcount s' = (palloc_refcount s)(p := 0) \<and>
      unat (palloc_free_pages s') = unat (palloc_free_pages s) + 2 ^ k \<and>
      (\<forall>a j. buddy_allocated (page_allocator s') a j \<longleftrightarrow> buddy_allocated (page_allocator s) a j \<and> (a, j) \<noteq> (p, k))
    else free_pages_op s p k = None"
proof (cases "k = 0")
  case True
  show ?thesis
  proof (cases "buddy_allocated (page_allocator s) p 0 \<and> palloc_refcount s p = 1")
    case b: True
    then obtain rp where rp: "page_ref_pointer s p = Some rp" using allocated_pointer [OF phys_okD(2) [OF ok]] by blast
    obtain s' where "buddy_return (set_ref s rp 0) p 0 = Some s'" "phys_ok s'"
      "palloc_refcount s' = (palloc_refcount s)(p := 0)" "unat (palloc_free_pages s') = unat (palloc_free_pages s) + 1"
      "\<And>a j. buddy_allocated (page_allocator s') a j \<longleftrightarrow> buddy_allocated (page_allocator s) a j \<and> (a, j) \<noteq> (p, 0)"
      using last_reference [OF ok rp] b by metis
    then show ?thesis using b rp True by (simp add: free_pages_op_def pointerD refcount_eq ok)
  next
    case b: False
    then have "refs_of s p \<noteq> 1" using phys_okD(3) [OF ok, of p] by (auto simp: refcount_eq [OF ok])
    then show ?thesis using b True by (auto simp: free_pages_op_def pointerD split: option.split)
  qed
next
  case False
  show ?thesis
  proof (cases "buddy_allocated (page_allocator s) p k")
    case b: True
    obtain s' where s': "buddy_return s p k = Some s'" "buddy_inv (page_allocator s')" "refs_ok s'" "refs_of s' = refs_of s"
      "unat (palloc_free_pages s') = unat (palloc_free_pages s) + 2 ^ k"
      "\<And>a j. buddy_allocated (page_allocator s') a j \<longleftrightarrow> buddy_allocated (page_allocator s) a j \<and> (a, j) \<noteq> (p, k)"
      using buddy_return_spec [OF phys_okD(1,2) [OF ok] b] by metis
    then have ok': "phys_ok s'" using phys_okD(3) [OF ok] False by (auto simp: phys_ok_def)
    have "\<not> buddy_allocated (page_allocator s) p 0"
      using allocated_apart [OF phys_okD(1) [OF ok] b, of p 0] False by (auto simp: block_pages_def)
    then have "refs_of s p = 0" using phys_okD(3) [OF ok] by blast
    then show ?thesis using s' ok' b False by (auto simp: free_pages_op_def refcount_eq ok)
  qed (simp add: free_pages_op_def False buddy_return_foreign)
qed

subsection \<open>The interface\<close>

text \<open>A store of counted objects: \<open>obtain_new\<close> hands out an object nobody uses with one reference, \<open>share\<close>
  adds a reference, \<open>drop_ref\<close> gives one up, and the object is available again when the last one is gone.\<close>

primrec repeat_op :: "nat \<Rightarrow> ('s \<Rightarrow> 's option) \<Rightarrow> 's \<Rightarrow> 's option" where
  "repeat_op 0 f s = Some s"
| "repeat_op (Suc n) f s = do { s \<leftarrow> f s; repeat_op n f s }"

definition get_step :: "('s \<Rightarrow> 'a \<Rightarrow> int \<times> 's) \<Rightarrow> 'a \<Rightarrow> 's \<Rightarrow> 's option" where
  "get_step share p s = (case share s p of (r, s') \<Rightarrow> if r < 0 then None else Some s')"

locale counted_store =
  fixes inv :: "'s \<Rightarrow> bool" and cnt :: "'s \<Rightarrow> 'a \<Rightarrow> nat" and avail :: "'s \<Rightarrow> nat" and limit :: nat
    and obtain_new :: "'s \<Rightarrow> ('a option \<times> 's) option" and share :: "'s \<Rightarrow> 'a \<Rightarrow> int \<times> 's"
    and drop_ref :: "'s \<Rightarrow> 'a \<Rightarrow> 's option"
  assumes new_ok: "inv s \<Longrightarrow> obtain_new s = Some (Some p, s') \<Longrightarrow>
      inv s' \<and> cnt s p = 0 \<and> cnt s' = (cnt s)(p := 1) \<and> avail s' + 1 = avail s"
    and share_ok: "inv s \<Longrightarrow> 0 < cnt s p \<Longrightarrow> cnt s p < limit \<Longrightarrow>
      \<exists>s'. share s p = (0, s') \<and> inv s' \<and> cnt s' = (cnt s)(p := cnt s p + 1) \<and> avail s' = avail s"
    and drop_ok: "inv s \<Longrightarrow> 0 < cnt s p \<Longrightarrow>
      \<exists>s'. drop_ref s p = Some s' \<and> inv s' \<and> cnt s' = (cnt s)(p := cnt s p - 1) \<and>
           avail s' = avail s + (if cnt s p = 1 then 1 else 0)"
begin

lemma share_many:
  "inv s \<Longrightarrow> 0 < cnt s p \<Longrightarrow> cnt s p + n \<le> limit \<Longrightarrow>
   \<exists>s'. repeat_op n (get_step share p) s = Some s' \<and> inv s' \<and> cnt s' = (cnt s)(p := cnt s p + n) \<and> avail s' = avail s"
proof (induction n arbitrary: s)
  case (Suc n)
  obtain t where t: "share s p = (0, t)" "inv t" "cnt t = (cnt s)(p := cnt s p + 1)" "avail t = avail s"
    using share_ok [of s p] Suc.prems by auto
  then show ?case using Suc.IH [of t] Suc.prems by (simp add: get_step_def cong: if_cong)
qed simp

lemma drop_many:
  "inv s \<Longrightarrow> n < cnt s p \<Longrightarrow>
   \<exists>s'. repeat_op n (\<lambda>s. drop_ref s p) s = Some s' \<and> inv s' \<and> cnt s' = (cnt s)(p := cnt s p - n) \<and> avail s' = avail s"
proof (induction n arbitrary: s)
  case (Suc n)
  obtain t where t: "drop_ref s p = Some t" "inv t" "cnt t = (cnt s)(p := cnt s p - 1)" "avail t = avail s"
    using drop_ok [of s p] Suc.prems by auto
  then show ?case using Suc.IH [of t] Suc.prems by (simp cong: if_cong)
qed simp

lemma share_then_drop:
  assumes "inv s" "obtain_new s = Some (Some p, s1)" "n < limit"
  shows "\<exists>s2 s3 s4. repeat_op n (get_step share p) s1 = Some s2 \<and> cnt s2 p = n + 1 \<and> avail s2 = avail s1 \<and>
     repeat_op n (\<lambda>s. drop_ref s p) s2 = Some s3 \<and> cnt s3 p = 1 \<and> avail s3 = avail s1 \<and>
     drop_ref s3 p = Some s4 \<and> inv s4 \<and> cnt s4 = cnt s \<and> avail s4 = avail s"
proof -
  note N = new_ok [OF assms(1,2)]
  obtain s2 where s2: "repeat_op n (get_step share p) s1 = Some s2" "inv s2" "cnt s2 = (cnt s)(p := n + 1)" "avail s2 = avail s1"
    using share_many [of s1 p n] N assms(3) by auto
  obtain s3 where s3: "repeat_op n (\<lambda>s. drop_ref s p) s2 = Some s3" "inv s3" "cnt s3 = (cnt s)(p := 1)" "avail s3 = avail s1"
    using drop_many [of s2 n p] s2 by auto
  obtain s4 where s4: "drop_ref s3 p = Some s4" "inv s4" "cnt s4 = (cnt s)(p := 0)" "avail s4 = avail s1 + 1"
    using drop_ok [of s3 p] s3 by auto
  moreover have "(cnt s)(p := 0) = cnt s" using N by auto
  ultimately show ?thesis using s2 s3 N by auto
qed

end

lemma unat_pred_word: "w \<noteq> 0 \<Longrightarrow> unat (w - 1) = unat w - 1" for w :: "'a::len word"
  by (metis unat_minus_one)

lemma unat_succ_word: "w \<noteq> NOT 0 \<Longrightarrow> unat (w + 1) = unat w + 1" for w :: "'a::len word"
  by (metis Suc_eq_plus1 add.commute add_eq_0_iff bit.compl_zero unatSuc)

lemma unat_one_iff: "unat w = 1 \<longleftrightarrow> w = 1" for w :: "'a::len word"
  by (metis unat_1 unsigned_word_eqI)

lemma palloc_zero_spec:
  assumes "phys_ok s"
  shows "palloc_zero s = Some (None, s) \<or>
    (\<exists>p s'. palloc_zero s = Some (Some p, s') \<and> phys_ok s' \<and> page_aligned p \<and>
       palloc_refcount s p = 0 \<and> palloc_refcount s' = (palloc_refcount s)(p := 1) \<and>
       unat (palloc_free_pages s') + 1 = unat (palloc_free_pages s))"
proof -
  have e: "(if (0 :: nat) = 0 then 1 else 0) = (1 :: u32)" "(2 :: nat) ^ 0 = 1" by simp_all
  from alloc_pages_spec [OF assms, of 0 PALLOC_ZERO, unfolded e] show ?thesis
    unfolding palloc_zero_def by (elim disjE exE conjE) (intro disjI1, assumption, intro disjI2 exI conjI)
qed

interpretation pages: counted_store phys_ok "\<lambda>s a. unat (palloc_refcount s a)" "\<lambda>s. unat (palloc_free_pages s)"
  "2 ^ 32 - 1" palloc_zero palloc_get pfree
proof
  fix s p s'
  assume "phys_ok s" "palloc_zero s = Some (Some p, s')"
  then show "phys_ok s' \<and> unat (palloc_refcount s p) = 0 \<and>
      (\<lambda>a. unat (palloc_refcount s' a)) = (\<lambda>a. unat (palloc_refcount s a))(p := 1) \<and>
      unat (palloc_free_pages s') + 1 = unat (palloc_free_pages s)"
    using palloc_zero_spec [of s] by (auto simp: fun_eq_iff)
next
  fix s p
  assume ok: "phys_ok s" and pos: "0 < unat (palloc_refcount s p)" and lim: "unat (palloc_refcount s p) < 2 ^ 32 - 1"
  have m: "unat (NOT 0 :: u32) = 2 ^ 32 - 1" by (simp add: unsigned_minus_1_eq_mask mask_eq_exp_minus_1)
  have n: "palloc_refcount s p \<noteq> NOT 0" "palloc_refcount s p \<noteq> 0" using pos lim m by force+
  then show "\<exists>s'. palloc_get s p = (0, s') \<and> phys_ok s' \<and>
      (\<lambda>a. unat (palloc_refcount s' a)) = (\<lambda>a. unat (palloc_refcount s a))(p := unat (palloc_refcount s p) + 1) \<and>
      unat (palloc_free_pages s') = unat (palloc_free_pages s)"
    using palloc_get_spec [OF ok, of p] by (auto simp: fun_eq_iff unat_succ_word)
next
  fix s p
  assume ok: "phys_ok s" and "0 < unat (palloc_refcount s p)"
  then have n: "palloc_refcount s p \<noteq> 0" by auto
  then show "\<exists>s'. pfree s p = Some s' \<and> phys_ok s' \<and>
      (\<lambda>a. unat (palloc_refcount s' a)) = (\<lambda>a. unat (palloc_refcount s a))(p := unat (palloc_refcount s p) - 1) \<and>
      unat (palloc_free_pages s') = unat (palloc_free_pages s) + (if unat (palloc_refcount s p) = 1 then 1 else 0)"
    using pfree_spec [OF ok, of p] by (auto simp: fun_eq_iff unat_pred_word unat_one_iff [unfolded One_nat_def])
qed

subsection \<open>The self test\<close>

lemma palloc_reference_selftest_spec:
  assumes ok: "phys_ok s" and new: "palloc_zero s = Some (Some p, s1)"
  shows "\<exists>s'. palloc_reference_selftest s = Some (0, s') \<and> phys_ok s' \<and> palloc_refcount s' = palloc_refcount s \<and>
     palloc_free_pages s' = palloc_free_pages s"
proof -
  have s1: "phys_ok s1" "palloc_refcount s p = 0" "palloc_refcount s1 = (palloc_refcount s)(p := 1)"
    "unat (palloc_free_pages s1) + 1 = unat (palloc_free_pages s)"
    using palloc_zero_spec [OF ok] new by auto
  have c: "(1 :: u32) \<noteq> NOT 0" "(1 :: u32) + 1 = 2" "(2 :: u32) - 1 = 1" "(1 :: u32) - 1 = 0" "(2 :: u32) \<noteq> 1" by simp_all
  obtain s2 where s2: "palloc_get s1 p = (0, s2)" "phys_ok s2" "palloc_refcount s2 = (palloc_refcount s)(p := 2)"
    "palloc_free_pages s2 = palloc_free_pages s1"
    using palloc_get_spec [OF s1(1), of p] s1(3) c by auto
  obtain s3 where s3: "pfree s2 p = Some s3" "phys_ok s3" "palloc_refcount s3 = (palloc_refcount s)(p := 1)"
    "unat (palloc_free_pages s3) = unat (palloc_free_pages s1)"
    using pfree_spec [OF s2(2), of p] s2(3,4) c by auto
  obtain s4 where s4: "pfree s3 p = Some s4" "phys_ok s4" "palloc_refcount s4 = (palloc_refcount s)(p := 0)"
    "unat (palloc_free_pages s4) = unat (palloc_free_pages s)"
    using pfree_spec [OF s3(2), of p] s3(3,4) s1(4) c by auto
  have f3: "palloc_free_pages s3 + 1 = palloc_free_pages s"
  proof (rule unsigned_word_eqI)
    have "unat (palloc_free_pages s3) + 1 < 2 ^ 64"
      using s1(4) s3(4) unsigned_less [where 'a = nat, of "palloc_free_pages s"] by simp
    then show "unat (palloc_free_pages s3 + 1) = unat (palloc_free_pages s)"
      using s1(4) s3(4) unat_add_no_overflow [of "palloc_free_pages s3" 1] by simp
  qed
  have f4: "palloc_free_pages s4 = palloc_free_pages s" by (rule unsigned_word_eqI [OF s4(4)])
  have "palloc_reference_selftest s = Some (0, s4)"
    by (simp add: palloc_reference_selftest_def new s1(3) s2(1,3) s3(1,3) s4(1) f3 f4 c)
  moreover have "(palloc_refcount s)(p := 0) = palloc_refcount s" using s1(2) by auto
  ultimately show ?thesis using s4 f4 by simp
qed

subsection \<open>Properties\<close>

definition phys_demo :: phys where
  "phys_demo = \<lparr>page_allocator = buddy_demo,
     page_ref_regions = [\<lparr>ref_start = 0, ref_end = 0x8000, refs = replicate 8 0\<rparr>],
     managed_ranges = empty_set, heap_start = 0x1000, usable_bytes = 0x7000\<rparr>"

lemma phys_demo_ok: "phys_ok phys_demo"
proof -
  obtain r where r: "regions buddy_demo = [r]" "b_start r = 0" "b_end r = 0x8000"
    using buddy_demo_facts(3) by (auto simp: geometry_def)
  have ro: "refs_ok phys_demo"
    using r buddy_demo_facts(3) by (simp add: refs_ok_def phys_demo_def ref_match_def placed_def)
      (simp add: PGSIZE_def MAXVA_def)
  have inv: "buddy_inv (page_allocator phys_demo)" using buddy_demo_facts(1) by (simp add: phys_demo_def)
  have "refs_of phys_demo a = 0" for a
  proof (cases "page_ref_pointer phys_demo a")
    case (Some ij)
    obtain i j where ij: "ij = (i, j)" by (cases ij)
    have "i < 1" "j < length (refs (page_ref_regions phys_demo ! i))"
      using page_ref_pointer_Some [OF inv ro Some [unfolded ij]] by (simp_all add: phys_demo_def)
    then show ?thesis using Some by (simp add: ij refs_of_def get_ref_def phys_demo_def)
  qed (simp add: refs_of_def)
  then show ?thesis using inv ro buddy_demo_facts(2) by (simp add: phys_ok_def phys_demo_def)
qed

lemma phys_demo_page: "\<exists>s. palloc_zero phys_demo = Some (Some 0x1000, s)"
proof -
  have f: "fst (buddy_alloc (page_allocator phys_demo) 0) = Some 0x1000" by code_simp
  then obtain al where e: "buddy_alloc (page_allocator phys_demo) 0 = (Some 0x1000, al)" by (metis prod.collapse)
  have "palloc_zero phys_demo \<noteq> Some (None, phys_demo)"
    using e by (auto simp: palloc_zero_def alloc_pages_def Let_def split: if_splits option.splits)
  then obtain p s where "palloc_zero phys_demo = Some (Some p, s)" using palloc_zero_spec [OF phys_demo_ok] by blast
  moreover from this have "p = 0x1000"
    using e by (auto simp: palloc_zero_def alloc_pages_def Let_def split: if_splits option.splits)
  ultimately show ?thesis by blast
qed

text \<open>C16. Putting a page: \<^verbatim>\<open>pfree\<close> panics exactly on a page without a reference (a page that is not allocated
  as a single page, an address that is not a page, a second free). Otherwise it takes one reference away and
  leaves every other count alone; the page goes back to the free pages exactly with its last reference,
  and counts and allocated pages keep agreeing.\<close>

theorem pfree_correct:
  assumes "phys_ok s"
  shows "if palloc_refcount s p = 0 then pfree s p = None
    else \<exists>s'. pfree s p = Some s' \<and> phys_ok s' \<and>
      palloc_refcount s' = (palloc_refcount s)(p := palloc_refcount s p - 1) \<and>
      unat (palloc_free_pages s') = unat (palloc_free_pages s) + (if palloc_refcount s p = 1 then 1 else 0)"
  by (rule pfree_spec [OF assms])

theorem pfree_correct_witness: "\<exists>s s'. palloc_refcount s 0x1000 = 1 \<and> pfree s 0x1000 = Some s' \<and> phys_ok s'"
proof -
  obtain s where s: "palloc_zero phys_demo = Some (Some 0x1000, s)" using phys_demo_page by blast
  then have "phys_ok s" "palloc_refcount s 0x1000 = 1" using palloc_zero_spec [OF phys_demo_ok] by auto
  then show ?thesis using pfree_correct [of s "0x1000"] by auto
qed

text \<open>C17. Sharing a page: after a page was allocated, any number of references below the limit of the
  counter can be taken and given back without an error; while one is left the page stays allocated, and the
  last \<^verbatim>\<open>pfree\<close> restores the counts of all pages and the number of free pages from before the allocation.\<close>

theorem palloc_share_roundtrip:
  assumes "phys_ok s" "palloc_zero s = Some (Some p, s1)" "n < 2 ^ 32 - 1"
  shows "\<exists>s2 s3 s4. repeat_op n (get_step palloc_get p) s1 = Some s2 \<and> unat (palloc_refcount s2 p) = n + 1 \<and>
     repeat_op n (\<lambda>s. pfree s p) s2 = Some s3 \<and> palloc_refcount s3 p = 1 \<and> palloc_free_pages s3 = palloc_free_pages s1 \<and>
     pfree s3 p = Some s4 \<and> phys_ok s4 \<and> palloc_refcount s4 = palloc_refcount s \<and> palloc_free_pages s4 = palloc_free_pages s"
proof -
  obtain s2 s3 s4 where s: "repeat_op n (get_step palloc_get p) s1 = Some s2" "unat (palloc_refcount s2 p) = n + 1"
    "repeat_op n (\<lambda>s. pfree s p) s2 = Some s3" "unat (palloc_refcount s3 p) = 1"
    "unat (palloc_free_pages s3) = unat (palloc_free_pages s1)" "pfree s3 p = Some s4" "phys_ok s4"
    "(\<lambda>a. unat (palloc_refcount s4 a)) = (\<lambda>a. unat (palloc_refcount s a))"
    "unat (palloc_free_pages s4) = unat (palloc_free_pages s)"
    using pages.share_then_drop [OF assms] by blast
  have "palloc_refcount s4 = palloc_refcount s"
    using fun_cong [OF s(8)] by (intro ext unsigned_word_eqI [where 'a = nat]) blast
  moreover have "palloc_refcount s3 p = 1" using s(4) unat_one_iff by blast
  moreover have "palloc_free_pages s3 = palloc_free_pages s1" "palloc_free_pages s4 = palloc_free_pages s"
    using s(5,9) by (auto intro: unsigned_word_eqI)
  ultimately show ?thesis using s by blast
qed

theorem palloc_share_roundtrip_witness:
  "\<exists>s1 s2. palloc_zero phys_demo = Some (Some 0x1000, s1) \<and> repeat_op 5 (get_step palloc_get 0x1000) s1 = Some s2 \<and>
     unat (palloc_refcount s2 0x1000) = 6"
proof -
  obtain s where s: "palloc_zero phys_demo = Some (Some 0x1000, s)" using phys_demo_page by blast
  show ?thesis using palloc_share_roundtrip [OF phys_demo_ok s, of 5] s by auto
qed

end
