(* ===== verification/Heap_Bits.thy ===== *)
theory Heap_Bits
  imports Palloc_Spec
begin

text \<open>
  The bitmap of a heap page of \<^verbatim>\<open>kernel/palloc.c\<close> is the set of the bytes in use; the search of
  \<^verbatim>\<open>malloc_core\<close> finds the first aligned run that is free.
\<close>

subsection \<open>The bitmap\<close>

definition used_bit :: "u8 list \<Rightarrow> nat \<Rightarrow> bool" where
  "used_bit bm k \<longleftrightarrow> bm ! (k div 8) AND block_bit k \<noteq> 0"

lemma bit_block_bit: "bit (block_bit k) i \<longleftrightarrow> i = 7 - k mod 8"
proof -
  have "(128 :: u8) = push_bit 7 1" by simp
  then have "bit (128 :: u8) n \<longleftrightarrow> n = 7" for n by (simp only: bit_push_bit_iff) (auto simp: bit_1_iff)
  then have "bit (block_bit k) i \<longleftrightarrow> k mod 8 + i = 7" by (simp add: block_bit_def bit_drop_bit_eq)
  moreover have "m + i = 7 \<longleftrightarrow> i = 7 - m" if "m < 8" for m :: nat using that by linarith
  ultimately show ?thesis by simp
qed

lemma used_bit_bit: "used_bit bm k \<longleftrightarrow> bit (bm ! (k div 8)) (7 - k mod 8)"
proof -
  have "w AND block_bit k \<noteq> 0 \<longleftrightarrow> bit w (7 - k mod 8)" for w
  proof -
    have "7 - k mod 8 < 8" by (rule le_less_trans [of _ 7]) simp_all
    then show ?thesis using bit_eq_iff [of "w AND block_bit k" 0] by (simp add: bit_and_iff bit_block_bit)
  qed
  then show ?thesis by (simp add: used_bit_def)
qed

lemma same_bit: "j div 8 = k div 8 \<Longrightarrow> 7 - j mod 8 = 7 - k mod 8 \<longleftrightarrow> j = k" for j k :: nat
proof -
  assume "j div 8 = k div 8"
  moreover have "7 - x = 7 - y \<longleftrightarrow> x = y" if "x < 8" "y < 8" for x y :: nat using that by auto
  from this [of "j mod 8" "k mod 8"] have "7 - j mod 8 = 7 - k mod 8 \<longleftrightarrow> j mod 8 = k mod 8" by simp
  ultimately show ?thesis by (metis div_mult_mod_eq)
qed

lemma used_bit_store:
  assumes "k div 8 < length bm"
  shows "used_bit (bm[k div 8 := bm ! (k div 8) OR block_bit k]) j \<longleftrightarrow> j = k \<or> used_bit bm j"
    "used_bit (bm[k div 8 := bm ! (k div 8) AND NOT (block_bit k)]) j \<longleftrightarrow> j \<noteq> k \<and> used_bit bm j"
proof -
  have m: "7 - j mod 8 < 8" by (rule le_less_trans [of _ 7]) simp_all
  show "used_bit (bm[k div 8 := bm ! (k div 8) OR block_bit k]) j \<longleftrightarrow> j = k \<or> used_bit bm j"
    using assms same_bit [of j k] by (cases "j div 8 = k div 8") (auto simp: used_bit_bit bit_or_iff bit_block_bit)
  show "used_bit (bm[k div 8 := bm ! (k div 8) AND NOT (block_bit k)]) j \<longleftrightarrow> j \<noteq> k \<and> used_bit bm j"
    using assms same_bit [of j k] m
    by (cases "j div 8 = k div 8") (auto simp: used_bit_bit bit_and_iff bit_not_iff bit_block_bit)
qed

lemma mark_blocks_spec:
  assumes "unat finish \<le> 8 * length bm"
  shows "length (mark_blocks bm k finish) = length bm \<and>
    (\<forall>j. used_bit (mark_blocks bm k finish) j \<longleftrightarrow> unat k \<le> j \<and> j < unat finish \<or> used_bit bm j)"
  using assms
proof (induction bm k finish rule: mark_blocks.induct)
  case (1 bm k finish)
  show ?case
  proof (cases "k < finish")
    case True
    then have k: "unat k < unat finish" "unat (k + 1) = unat k + 1" by (simp_all add: word_less_nat_alt unat_inc)
    then have "unat k div 8 < length bm" using 1(2) by (simp add: less_mult_imp_div_less mult.commute)
    note st = used_bit_store(1) [OF this]
    have eq: "mark_blocks bm k finish =
        mark_blocks (bm[unat k div 8 := bm ! (unat k div 8) OR block_bit (unat k)]) (k + 1) finish"
      using True by (subst mark_blocks.simps) simp
    have "unat k + 1 \<le> j \<and> j < unat finish \<or> j = unat k \<longleftrightarrow> unat k \<le> j \<and> j < unat finish" for j
      using k(1) by linarith
    then show ?thesis using 1(1) [OF True] 1(2) unfolding eq k(2) st by (simp only: length_list_update) blast
  next
    case False
    then show ?thesis by (subst (1 2) mark_blocks.simps) (auto simp: word_less_nat_alt)
  qed
qed

lemma clear_blocks_spec:
  assumes "unat e \<le> 8 * length bm"
  shows "\<exists>bm'. clear_blocks bm i e = Some bm' \<and> length bm' = length bm \<and>
    (\<forall>j. used_bit bm' j \<longleftrightarrow> \<not> (unat i \<le> j \<and> j < unat e) \<and> used_bit bm j)"
  using assms
proof (induction bm i e rule: clear_blocks.induct)
  case (1 bm i e)
  show ?case
  proof (cases "i < e")
    case True
    then have k: "unat i < unat e" "unat (i + 1) = unat i + 1" by (simp_all add: word_less_nat_alt unat_inc)
    then have l: "unat i div 8 < length bm" using 1(2) by (simp add: less_mult_imp_div_less mult.commute)
    note st = used_bit_store(2) [OF this]
    have eq: "clear_blocks bm i e =
        clear_blocks (bm[unat i div 8 := bm ! (unat i div 8) AND NOT (block_bit (unat i))]) (i + 1) e"
      using True l by (subst clear_blocks.simps) simp
    have "\<not> (unat i + 1 \<le> j \<and> j < unat e) \<and> j \<noteq> unat i \<longleftrightarrow> \<not> (unat i \<le> j \<and> j < unat e)" for j
      using k(1) by linarith
    then show ?thesis using 1(1) [OF True l] 1(2) unfolding eq k(2) st by (simp only: length_list_update) blast
  next
    case False
    then show ?thesis by (subst clear_blocks.simps) (auto simp: word_less_nat_alt)
  qed
qed

subsection \<open>The search\<close>

lemma heap_consts: "INFO_BLOCK = 32" "MALLOC_ALIGNMENT_BLOCKS = 16" "BITMAP_SIZE = 448" "PAGE_BLOCK = 512" "MIN_SIZE = 1"
  "MALLOC_ALIGNMENT = 16" "USE_BLOCK x = x"
  by (simp_all add: INFO_BLOCK_def MALLOC_ALIGNMENT_BLOCKS_def BITMAP_SIZE_def PAGE_BLOCK_def USE_BLOCK_def MIN_SIZE_def
      MALLOC_ALIGNMENT_def)

text \<open>An aligned run of \<open>n\<close> free bytes at \<open>s\<close>.\<close>

definition free_run :: "u8 list \<Rightarrow> nat \<Rightarrow> nat \<Rightarrow> bool" where
  "free_run bm n s \<longleftrightarrow> 16 dvd s \<and> s + n \<le> 3584 \<and> (\<forall>k. s \<le> k \<and> k < s + n \<longrightarrow> \<not> used_bit bm k)"

definition taken :: "heap_page \<Rightarrow> nat \<Rightarrow> u64 \<Rightarrow> heap_page" where
  "taken page s n_blocks = page\<lparr>bitmap := mark_blocks (bitmap page) (of_nat s) (of_nat s + n_blocks),
                              hp_used := hp_used page + n_blocks\<rparr>"

lemma malloc_core_loop_spec:
  fixes n_blocks cnt start :: u64
  assumes "0 < unat n_blocks" "offset \<le> 3584"
    and run: "cnt = 0 \<or> 16 dvd unat start \<and> unat start + unat cnt = offset \<and> unat cnt < unat n_blocks \<and>
        (\<forall>k. unat start \<le> k \<and> k < offset \<longrightarrow> \<not> used_bit (bitmap page) k)"
    and none: "\<forall>s. s < (if cnt = 0 then offset else unat start) \<longrightarrow> \<not> free_run (bitmap page) (unat n_blocks) s"
  shows "(\<exists>s. malloc_core_loop page n_blocks offset cnt start = (of_nat s + PAGE_BLOCK, taken page s n_blocks) \<and>
           free_run (bitmap page) (unat n_blocks) s \<and> (\<forall>t. t < s \<longrightarrow> \<not> free_run (bitmap page) (unat n_blocks) t)) \<or>
         malloc_core_loop page n_blocks offset cnt start = (-1, page) \<and>
           (\<forall>s. \<not> free_run (bitmap page) (unat n_blocks) s)"
  using assms
proof (induction page n_blocks offset cnt start rule: malloc_core_loop.induct)
  case (1 page n_blocks offset cnt start)
  let ?n = "unat n_blocks" and ?free = "free_run (bitmap page) (unat n_blocks)"
  note pos = 1(4) and run = 1(6) and none = 1(7)
  show ?case
  proof (cases "offset < 3584")
    case lim: True
    then have lim': "offset < BITMAP_SIZE * 8" by (simp add: heap_consts)
    have off: "unat (of_nat offset :: u64) = offset" using lim by (simp add: unsigned_of_nat take_bit_nat_eq_self)
    show ?thesis
    proof (cases "used_bit (bitmap page) offset")
      case used: True
      have "\<not> ?free s" if "s < offset + 1" for s
      proof (cases "s < (if cnt = 0 then offset else unat start)")
        case False
        then have "offset < s + ?n" using run that pos by (auto split: if_splits)
        moreover have "s \<le> offset" using that by simp
        ultimately show ?thesis using used unfolding free_run_def by blast
      qed (use none in blast)
      then have none': "\<forall>s. s < offset + 1 \<longrightarrow> \<not> ?free s" by blast
      have ub: "bitmap page ! (offset div 8) AND block_bit offset \<noteq> 0" using used by (simp add: used_bit_def)
      have "malloc_core_loop page n_blocks offset cnt start = malloc_core_loop page n_blocks (offset + 1) 0 0"
        using ub by (subst malloc_core_loop.simps) (simp add: lim')
      then show ?thesis using 1(3) [OF lim' ub pos] none' lim by simp
    next
      case free: False
      then have fb: "bitmap page ! (offset div 8) AND block_bit offset = 0" by (simp add: used_bit_def)
      show ?thesis
      proof (cases "cnt = 0 \<and> offset mod 16 \<noteq> 0")
        case skip: True
        then have "\<not> ?free offset" by (auto simp: free_run_def)
        then have "\<forall>s. s < offset + 1 \<longrightarrow> \<not> ?free s" using none skip less_Suc_eq by auto
        moreover have "malloc_core_loop page n_blocks offset cnt start = malloc_core_loop page n_blocks (offset + 1) cnt start"
          using skip by (subst malloc_core_loop.simps) (simp add: lim fb heap_consts)
        ultimately show ?thesis using 1(1) [OF lim' fb _ pos] skip lim by (simp add: heap_consts)
      next
        case take: False
        define st where "st = (if cnt = 0 then of_nat offset else start)"
        have c: "unat (cnt + 1) = unat cnt + 1"
        proof (cases "cnt = 0")
          case False
          then have "cnt < n_blocks" using run by (simp add: word_less_nat_alt)
          then show ?thesis by (rule unat_inc)
        qed simp
        have st: "16 dvd unat st" "unat st + unat (cnt + 1) = offset + 1"
          and clear: "\<forall>k. unat st \<le> k \<and> k < offset + 1 \<longrightarrow> \<not> used_bit (bitmap page) k"
          and none': "\<forall>s. s < unat st \<longrightarrow> \<not> ?free s" and cn: "unat cnt < ?n"
          using take run none free off c pos by (auto simp: st_def less_Suc_eq dvd_eq_mod_eq_0)
        show ?thesis
        proof (cases "cnt + 1 = n_blocks")
          case full: True
          have "unat st + ?n = offset + 1" using st(2) full by simp
          then have "?free (unat st)" using st(1) clear lim by (simp add: free_run_def)
          moreover have "malloc_core_loop page n_blocks offset cnt start = (of_nat (unat st) + PAGE_BLOCK, taken page (unat st) n_blocks)"
            using take by (subst malloc_core_loop.simps) (auto simp: lim fb heap_consts full taken_def st_def Let_def)
          ultimately show ?thesis using none' by blast
        next
          case more: False
          have "cnt + 1 \<noteq> 0" using c by auto
          moreover have "unat (cnt + 1) < ?n" using more cn c by (metis Suc_eq_plus1 Suc_leI le_neq_implies_less unsigned_word_eqI)
          moreover have "malloc_core_loop page n_blocks offset cnt start = malloc_core_loop page n_blocks (offset + 1) (cnt + 1) st"
            using take more by (subst malloc_core_loop.simps) (auto simp: lim fb heap_consts st_def Let_def)
          ultimately show ?thesis
            using 1(2) [OF lim' fb _ st_def refl more] take st clear none' pos lim by (simp add: heap_consts)
        qed
      qed
    qed
  next
    case False
    then have o: "offset = 3584" using 1(5) by simp
    then have "malloc_core_loop page n_blocks offset cnt start = (-1, page)"
      by (subst malloc_core_loop.simps) (simp add: heap_consts)
    moreover have "\<not> ?free s" for s
    proof (cases "s < (if cnt = 0 then offset else unat start)")
      case False
      then have "3584 < s + ?n" using run o pos by (auto split: if_splits)
      then show ?thesis by (simp add: free_run_def)
    qed (use none in blast)
    ultimately show ?thesis by blast
  qed
qed

end
