(* ===== verification/Heap_Spec.thy ===== *)
theory Heap_Spec
  imports Heap_Bits
begin

text \<open>
  The byte heap of \<^verbatim>\<open>kernel/palloc.c\<close>: the invariant ties the list of heap pages, their bitmaps and counts and
  the headers of the live allocations together; \<^verbatim>\<open>malloc\<close> and \<^verbatim>\<open>free\<close> keep it.
\<close>

subsection \<open>The invariant\<close>

text \<open>A live allocation: its page, the offset of its header in the page's data, its bytes with the header.\<close>

type_synonym live = "u64 \<times> nat \<times> nat"

definition header_at :: "u64 \<Rightarrow> nat \<Rightarrow> u64" where
  "header_at p s = p + 512 + of_nat s"

definition extent :: "live \<Rightarrow> nat set" where
  "extent a = (case a of (p, s, n) \<Rightarrow> {unat p + 512 + s..<unat p + 512 + s + n})"

definition live_bits :: "live list \<Rightarrow> u64 \<Rightarrow> nat set" where
  "live_bits L p = (\<Union>(q, s, n)\<in>set L. if q = p then {s..<s + n} else {})"

definition page_ok :: "heap_page \<Rightarrow> nat set \<Rightarrow> bool" where
  "page_ok v B \<longleftrightarrow> length (bitmap v) = 448 \<and> (\<forall>k<3584. used_bit (bitmap v) k \<longleftrightarrow> k \<in> B) \<and>
     unat (hp_used v) = card B"

definition info_for :: "u64 \<Rightarrow> nat \<Rightarrow> nat \<Rightarrow> block_info" where
  "info_for p s n = \<lparr>magic = MAGIC_NUMBER, bi_used = of_nat n - 32, parent = p, addr = header_at p s + 32\<rparr>"

definition live_ok :: "(u64 \<Rightarrow> block_info) \<Rightarrow> live list \<Rightarrow> bool" where
  "live_ok infos L \<longleftrightarrow> distinct L \<and>
     (\<forall>p s n. (p, s, n) \<in> set L \<longrightarrow>
        16 dvd s \<and> 32 \<le> n \<and> s + n \<le> 3584 \<and> infos (header_at p s) = info_for p s n) \<and>
     (\<forall>p s n t m. (p, s, n) \<in> set L \<and> (p, t, m) \<in> set L \<and> (s, n) \<noteq> (t, m) \<longrightarrow> s + n \<le> t \<or> t + m \<le> s)"

primrec pool_chain :: "(u64 \<Rightarrow> heap_page) \<Rightarrow> u64 \<Rightarrow> u64 list \<Rightarrow> bool" where
  "pool_chain at a [] \<longleftrightarrow> a = 0"
| "pool_chain at a (p # ps) \<longleftrightarrow> a = p \<and> p \<noteq> 0 \<and> pool_chain at (hp_next (at p)) ps"

definition heap_ok :: "kheap \<Rightarrow> u64 list \<Rightarrow> live list \<Rightarrow> bool" where
  "heap_ok h ps L \<longleftrightarrow> phys_ok (pages_of h) \<and> pool_chain (page_at h) (pool_list h) ps \<and> distinct ps \<and>
     (\<forall>p\<in>set ps. palloc_refcount (pages_of h) p = 1 \<and> page_ok (page_at h p) (live_bits L p)) \<and>
     fst ` set L \<subseteq> set ps \<and> live_ok (info_at h) L"

lemma heap_okD:
  assumes "heap_ok h ps L"
  shows "phys_ok (pages_of h)" "pool_chain (page_at h) (pool_list h) ps" "distinct ps"
    "p \<in> set ps \<Longrightarrow> palloc_refcount (pages_of h) p = 1" "p \<in> set ps \<Longrightarrow> page_ok (page_at h p) (live_bits L p)"
    "live_ok (info_at h) L" "fst ` set L \<subseteq> set ps"
  using assms by (simp_all add: heap_ok_def)

lemma live_page: "heap_ok h ps L \<Longrightarrow> (p, s, n) \<in> set L \<Longrightarrow> p \<in> set ps"
  using heap_okD(7) image_eqI [of p fst "(p, s, n)" "set L"] by fastforce

lemma live_okD:
  assumes "live_ok infos L" "(p, s, n) \<in> set L"
  shows "16 dvd s" "32 \<le> n" "s + n \<le> 3584" "infos (header_at p s) = info_for p s n"
    "(p, t, m) \<in> set L \<Longrightarrow> (s, n) \<noteq> (t, m) \<Longrightarrow> s + n \<le> t \<or> t + m \<le> s"
  using assms unfolding live_ok_def by blast+

lemma pool_placed:
  assumes "heap_ok h ps L" "p \<in> set ps"
  shows "p \<noteq> 0" "page_aligned p" "unat p + 4096 \<le> 2 ^ 38"
  using counted_placed [OF heap_okD(1) [OF assms(1)], of p] heap_okD(4) [OF assms] by auto

lemma pool_chain_frame: "q \<notin> set ps \<Longrightarrow> pool_chain (at(q := v)) a ps = pool_chain at a ps"
  by (induction ps arbitrary: a) auto

lemma pool_chain_same_next:
  "hp_next v = hp_next (at q) \<Longrightarrow> pool_chain (at(q := v)) a ps = pool_chain at a ps"
  by (induction ps arbitrary: a) auto

text \<open>Addresses inside a page.\<close>

lemma unat_header:
  assumes "unat p + 4096 \<le> 2 ^ 38" "s \<le> 3584"
  shows "unat (header_at p s) = unat p + 512 + s" "unat (header_at p s + 32) = unat p + 544 + s"
proof -
  have s: "unat (of_nat s :: u64) = s" using assms(2) by (simp add: unsigned_of_nat take_bit_nat_eq_self)
  have 1: "unat (p + 512) = unat p + 512"
    using assms unat_add_no_overflow [of p 512] by simp
  show 2: "unat (header_at p s) = unat p + 512 + s"
    using assms 1 s unat_add_no_overflow [of "p + 512" "of_nat s"] by (simp add: header_at_def)
  show "unat (header_at p s + 32) = unat p + 544 + s"
    using assms 2 unat_add_no_overflow [of "header_at p s" 32] by simp
qed

lemma header_page:
  assumes "page_aligned p" "unat p + 4096 \<le> 2 ^ 38" "s < 3584"
  shows "unat (header_at p s) div 4096 = unat p div 4096" "unat (header_at p s) mod 4096 = 512 + s"
proof -
  obtain k where k: "unat p = 4096 * k" using assms(1) by (auto simp: page_aligned_unat)
  show "unat (header_at p s) div 4096 = unat p div 4096" "unat (header_at p s) mod 4096 = 512 + s"
    using assms(3) unat_header(1) [OF assms(2), of s] by (simp_all add: k add.assoc)
qed

lemma header_inj:
  assumes "page_aligned p" "unat p + 4096 \<le> 2 ^ 38" "s < 3584" "page_aligned q" "unat q + 4096 \<le> 2 ^ 38" "t < 3584"
    and "header_at p s = header_at q t"
  shows "p = q \<and> s = t"
proof -
  note a = header_page [OF assms(1-3)] and b = header_page [OF assms(4-6)]
  have "unat p div 4096 = unat q div 4096" "s = t" using a b assms(7) by simp_all
  then have "unat p = unat q" using assms(1,4) unfolding page_aligned_unat by (metis dvd_div_mult_self)
  then show ?thesis using \<open>s = t\<close> by (simp add: unsigned_word_eqI)
qed

lemma live_header:
  assumes ok: "heap_ok h ps L" and a: "(p, s, n) \<in> set L"
  shows "page_aligned p" "unat p + 4096 \<le> 2 ^ 38" "s < 3584"
proof -
  have "p \<in> set ps" using live_page [OF ok a] .
  then show "page_aligned p" "unat p + 4096 \<le> 2 ^ 38" using pool_placed [OF ok] by blast+
  show "s < 3584" using live_okD(2,3) [OF heap_okD(6) [OF ok] a] by simp
qed

lemma live_bits_simps [simp]:
  "live_bits [] p = {}" "live_bits ((q, s, n) # L) p = (if q = p then {s..<s + n} else {}) \<union> live_bits L p"
  by (simp_all add: live_bits_def)

lemma live_bits_below:
  assumes "live_ok infos L"
  shows "live_bits L p \<subseteq> {..<3584}" "finite (live_bits L p)"
proof -
  show "live_bits L p \<subseteq> {..<3584}"
    using live_okD(3) [OF assms] by (fastforce simp: live_bits_def split: if_splits)
  then show "finite (live_bits L p)" by (rule finite_subset) simp
qed

lemma live_bits_other: "p \<notin> fst ` set L \<Longrightarrow> live_bits L p = {}"
proof -
  assume "p \<notin> fst ` set L"
  then have "q \<noteq> p" if "(q, s, n) \<in> set L" for q s n using that by force
  then show ?thesis by (auto simp: live_bits_def split: if_splits)
qed

text \<open>The live allocations never overlap.\<close>

lemma extents_disjoint:
  assumes ok: "heap_ok h ps L" and a: "a \<in> set L" and b: "b \<in> set L" and ne: "a \<noteq> b"
  shows "extent a \<inter> extent b = {}"
proof -
  obtain p s n where A: "a = (p, s, n)" by (cases a)
  obtain q t m where B: "b = (q, t, m)" by (cases b)
  note lo = heap_okD(6) [OF ok]
  note pa = live_header [OF ok a [unfolded A]] and pb = live_header [OF ok b [unfolded B]]
  note la = live_okD [OF lo a [unfolded A]] and lb = live_okD(3) [OF lo b [unfolded B]]
  show ?thesis
  proof (cases "p = q")
    case True
    then show ?thesis using la(5) [of t m] b B ne A by (auto simp: extent_def)
  next
    case False
    have "unat p \<noteq> unat q" using False unsigned_word_eqI by blast
    moreover have "4096 dvd unat p" "4096 dvd unat q" using pa(1) pb(1) by (simp_all add: page_aligned_unat)
    ultimately have "unat p + 4096 \<le> unat q \<or> unat q + 4096 \<le> unat p" by (elim dvdE) (simp, linarith)
    then show ?thesis using la(3) lb A B by (auto simp: extent_def)
  qed
qed

subsection \<open>Taking a run of a page\<close>

definition take_run :: "kheap \<Rightarrow> u64 \<Rightarrow> nat \<Rightarrow> nat \<Rightarrow> kheap" where
  "take_run h p s n = h\<lparr>page_at := (page_at h)(p := taken (page_at h p) s (of_nat n)),
                       info_at := (info_at h)(header_at p s := info_for p s n)\<rparr>"

lemma page_ok_taken:
  assumes ok: "page_ok v B" and run: "free_run (bitmap v) n s" and B: "B \<subseteq> {..<3584}" and pos: "0 < n"
  shows "page_ok (taken v s (of_nat n)) ({s..<s + n} \<union> B)" "{s..<s + n} \<inter> B = {}"
proof -
  have lim: "s + n \<le> 3584" using run by (simp add: free_run_def)
  have u: "unat (of_nat s :: u64) = s" "unat (of_nat n :: u64) = n"
    using lim by (simp_all add: unsigned_of_nat take_bit_nat_eq_self)
  have e: "unat (of_nat s + of_nat n :: u64) = s + n"
    using lim u unat_add_no_overflow [of "of_nat s :: u64" "of_nat n"] by simp
  have len: "length (bitmap v) = 448" using ok by (simp add: page_ok_def)
  note m = mark_blocks_spec [of "of_nat s + of_nat n" "bitmap v" "of_nat s", unfolded e u len]
  show dis: "{s..<s + n} \<inter> B = {}"
    using run ok lim by (fastforce simp: free_run_def page_ok_def)
  have fin: "finite B" using B finite_subset by blast
  have cB: "card B + n \<le> 3584"
  proof -
    have "card ({s..<s + n} \<union> B) \<le> card {..<3584 :: nat}" using B lim by (intro card_mono) auto
    then show ?thesis using card_Un_disjoint [OF _ fin dis] by simp
  qed
  have "unat (hp_used v + of_nat n) = card B + n"
    using ok cB u unat_add_no_overflow [of "hp_used v" "of_nat n"] by (simp add: page_ok_def)
  then show "page_ok (taken v s (of_nat n)) ({s..<s + n} \<union> B)"
    using m ok lim card_Un_disjoint [OF _ fin dis] by (auto simp: page_ok_def taken_def len)
qed

lemma live_ok_cong:
  assumes "live_ok infos L" "\<And>p s n. (p, s, n) \<in> set L \<Longrightarrow> infos' (header_at p s) = infos (header_at p s)"
  shows "live_ok infos' L"
proof -
  have "16 dvd s \<and> 32 \<le> n \<and> s + n \<le> 3584 \<and> infos' (header_at p s) = info_for p s n" if "(p, s, n) \<in> set L" for p s n
    using live_okD(1-4) [OF assms(1) that] assms(2) [OF that] by simp
  then show ?thesis using assms(1) unfolding live_ok_def by blast
qed

lemma live_ok_Cons:
  assumes "live_ok infos L" "(p, s, n) \<notin> set L" "16 dvd s" "32 \<le> n" "s + n \<le> 3584"
    "infos (header_at p s) = info_for p s n" "\<And>t m. (p, t, m) \<in> set L \<Longrightarrow> s + n \<le> t \<or> t + m \<le> s"
  shows "live_ok infos ((p, s, n) # L)"
  unfolding live_ok_def
proof (intro conjI allI impI)
  show "distinct ((p, s, n) # L)" using assms(1,2) by (simp add: live_ok_def)
next
  fix p' s' n'
  assume a: "(p', s', n') \<in> set ((p, s, n) # L)"
  show "16 dvd s'" "32 \<le> n'" "s' + n' \<le> 3584" "infos (header_at p' s') = info_for p' s' n'"
    using a assms(3-6) live_okD(1-4) [OF assms(1), of p' s' n'] by auto
next
  fix p' s' n' t m
  assume "(p', s', n') \<in> set ((p, s, n) # L) \<and> (p', t, m) \<in> set ((p, s, n) # L) \<and> (s', n') \<noteq> (t, m)"
  then show "s' + n' \<le> t \<or> t + m \<le> s'"
    using assms(7) [of t m] assms(7) [of s' n'] live_okD(5) [OF assms(1), of p' s' n' t m] by auto
qed

lemma intervals_apart:
  fixes a b n m :: nat
  assumes "{a..<a + n} \<inter> {b..<b + m} = {}" "0 < n" "0 < m"
  shows "a + n \<le> b \<or> b + m \<le> a"
proof (rule ccontr)
  assume "\<not> ?thesis"
  then have "max a b \<in> {a..<a + n} \<inter> {b..<b + m}" using assms(2,3) by (auto simp: max_def)
  then show False using assms(1) by blast
qed

lemma take_run_ok:
  assumes ok: "heap_ok h ps L" and p: "p \<in> set ps" and run: "free_run (bitmap (page_at h p)) n s" and n: "32 \<le> n"
  shows "heap_ok (take_run h p s n) ps ((p, s, n) # L)" "(p, s, n) \<notin> set L"
proof -
  note lo = heap_okD(6) [OF ok] and pl = pool_placed [OF ok p]
  have lim: "16 dvd s" "s + n \<le> 3584" using run by (simp_all add: free_run_def)
  note pg = page_ok_taken [OF heap_okD(5) [OF ok p] run live_bits_below(1) [OF lo]]
  have dis: "{s..<s + n} \<inter> live_bits L p = {}" using pg(2) n by simp
  have apart: "s + n \<le> t \<or> t + m \<le> s" if "(p, t, m) \<in> set L" for t m
  proof -
    have "{t..<t + m} \<subseteq> live_bits L p" using that by (fastforce simp: live_bits_def)
    then have "{s..<s + n} \<inter> {t..<t + m} = {}" using dis by blast
    moreover have "32 \<le> m" using live_okD(2) [OF lo that] .
    ultimately show ?thesis using n intervals_apart [of s n t m] by simp
  qed
  show fresh: "(p, s, n) \<notin> set L" using apart [of s n] n by auto
  have keep: "((info_at h)(header_at p s := x)) (header_at q t) = info_at h (header_at q t)" if "(q, t, m) \<in> set L" for q t m x
  proof -
    have "\<not> (p = q \<and> s = t)" using apart [of t m] that n live_okD(2) [OF lo that] by auto
    moreover have "s < 3584" using lim n by simp
    ultimately have "header_at p s \<noteq> header_at q t"
      using header_inj [OF pl(2,3) _ live_header [OF ok that]] by blast
    then show ?thesis by simp
  qed
  have "live_ok ((info_at h)(header_at p s := info_for p s n)) ((p, s, n) # L)"
    by (rule live_ok_Cons [OF live_ok_cong [OF lo keep] fresh lim(1) n lim(2) _ apart]) simp_all
  then show "heap_ok (take_run h p s n) ps ((p, s, n) # L)"
    using ok p pg(1) n pool_chain_same_next [of "taken (page_at h p) s (of_nat n)" "page_at h" p]
    by (auto simp: heap_ok_def take_run_def taken_def)
qed

subsection \<open>A new page\<close>

definition grown :: "kheap \<Rightarrow> u64 \<Rightarrow> phys \<Rightarrow> kheap" where
  "grown h p s = h\<lparr>pages_of := s, page_at := (page_at h)(p := zero_page\<lparr>hp_next := pool_list h\<rparr>),
     info_at := (\<lambda>a. if p \<le> a \<and> a - p < PGSIZE then zero_info else info_at h a), pool_list := p\<rparr>"

lemma malloc_page_eq:
  "palloc_zero (pages_of h) = Some (None, pages_of h) \<Longrightarrow> malloc_page h = Some (0, h)"
  "palloc_zero (pages_of h) = Some (Some p, s) \<Longrightarrow> malloc_page h = Some (p, grown h p s)"
  by (simp_all add: malloc_page_def grown_def clear_page_def put_page_def zero_page_def Let_def cong: if_cong)

lemma used_bit_zero: "k < 3584 \<Longrightarrow> \<not> used_bit (replicate 448 0) k"
  by (simp add: used_bit_def less_mult_imp_div_less)

lemma same_page:
  fixes a p :: u64
  assumes "page_aligned p" "p \<le> a" "a - p < PGSIZE"
  shows "unat a div 4096 = unat p div 4096"
proof -
  obtain k where k: "unat p = 4096 * k" using assms(1) by (auto simp: page_aligned_unat)
  have "unat a - unat p < 4096" using assms(2,3) by (simp add: word_less_nat_alt unat_sub)
  moreover have "unat p \<le> unat a" using assms(2) by (simp add: word_le_nat_alt)
  ultimately obtain d where "unat a = 4096 * k + d" "d < 4096" using k by (metis add_diff_cancel_left' le_iff_add)
  then show ?thesis by (simp add: k)
qed

lemma grown_ok:
  assumes ok: "heap_ok h ps L" and new: "palloc_zero (pages_of h) = Some (Some p, s)"
  shows "heap_ok (grown h p s) (p # ps) L" "p \<notin> set ps" "p \<noteq> 0"
    "unat (palloc_free_pages s) + 1 = unat (palloc_free_pages (pages_of h))"
proof -
  have s: "phys_ok s" "page_aligned p" "palloc_refcount (pages_of h) p = 0"
    "palloc_refcount s = (palloc_refcount (pages_of h))(p := 1)"
    and fr: "unat (palloc_free_pages s) + 1 = unat (palloc_free_pages (pages_of h))"
    using palloc_zero_spec [OF heap_okD(1) [OF ok]] new by auto
  show "unat (palloc_free_pages s) + 1 = unat (palloc_free_pages (pages_of h))" by (rule fr)
  show p: "p \<notin> set ps" using heap_okD(4) [OF ok, of p] s(3) by auto
  show p0: "p \<noteq> 0" using counted_placed(1) [OF s(1), of p] s(4) by simp
  have B: "live_bits L p = {}" using p heap_okD(7) [OF ok] by (intro live_bits_other) blast
  have keep: "info_at (grown h p s) (header_at q t) = info_at h (header_at q t)" if "(q, t, n) \<in> set L" for q t n
  proof -
    note lh = live_header [OF ok that]
    have "q \<noteq> p" using live_page [OF ok that] p by blast
    then have "unat q \<noteq> unat p" using unsigned_word_eqI by blast
    moreover have "4096 dvd unat q" "4096 dvd unat p" using lh(1) s(2) by (simp_all add: page_aligned_unat)
    ultimately have "unat q div 4096 \<noteq> unat p div 4096" by (metis dvd_div_mult_self)
    then have "\<not> (p \<le> header_at q t \<and> header_at q t - p < PGSIZE)"
      using same_page [OF s(2), of "header_at q t"] header_page(1) [OF lh] by auto
    then show ?thesis by (auto simp: grown_def)
  qed
  have "page_ok (zero_page\<lparr>hp_next := pool_list h\<rparr>) {}"
    using used_bit_zero by (simp add: page_ok_def zero_page_def heap_consts)
  then have "\<forall>q\<in>set (p # ps). palloc_refcount s q = 1 \<and> page_ok (page_at (grown h p s) q) (live_bits L q)"
    using heap_okD(4,5) [OF ok] p B s(4) by (auto simp: grown_def)
  moreover have "pool_chain (page_at (grown h p s)) p (p # ps)"
    using heap_okD(2) [OF ok] p p0 by (simp add: grown_def pool_chain_frame)
  moreover have "live_ok (info_at (grown h p s)) L" by (rule live_ok_cong [OF heap_okD(6) [OF ok] keep])
  ultimately show "heap_ok (grown h p s) (p # ps) L"
    using s(1) p heap_okD(3,7) [OF ok] by (auto simp: heap_ok_def grown_def)
qed

subsection \<open>malloc\<close>

definition block_bytes :: "u64 \<Rightarrow> nat" where
  "block_bytes sz = unat (ALIGN_BLOCKS (sz + 32))"

lemma block_bytes:
  assumes "\<not> sz > -1 - 32 - 15"
  shows "16 dvd block_bytes sz" "unat sz + 32 \<le> block_bytes sz" "block_bytes sz < unat sz + 48"
proof -
  have m: "(-1 - 32 - 15 :: u64) = 0xFFFFFFFFFFFFFFD0" by simp
  have "unat sz \<le> unat (0xFFFFFFFFFFFFFFD0 :: u64)" using assms unfolding m by (simp add: word_le_nat_alt not_less)
  then have sz: "unat sz + 47 \<le> 2 ^ 64 - 1" by simp
  have a: "unat (sz + 32) = unat sz + 32" using sz unat_add_no_overflow [of sz 32] by simp
  have b: "unat (sz + 32 + 16 - 1) = unat sz + 47"
  proof -
    have "sz + 32 + 16 - 1 = sz + 47" by simp
    moreover have "unat (sz + 47) = unat sz + 47" using sz unat_add_no_overflow [of sz 47] by simp
    ultimately show ?thesis by (simp only:)
  qed
  have "block_bytes sz = unat sz + 47 - (unat sz + 47) mod 16"
    using unat_and_not_low_mask [of 4 "sz + 32 + 16 - 1"] b
    by (simp add: block_bytes_def ALIGN_BLOCKS_def heap_consts mask_eq_exp_minus_1)
  moreover have "x - x mod 16 = 16 * (x div 16)" "x mod 16 < 16" for x :: nat by (simp_all add: minus_mod_eq_mult_div)
  ultimately show "16 dvd block_bytes sz" "unat sz + 32 \<le> block_bytes sz" "block_bytes sz < unat sz + 48"
    using div_mult_mod_eq [of "unat sz + 47" 16] by (simp_all)
qed

lemma malloc_core_spec:
  assumes "p \<noteq> 0" "0 < unat nb"
  shows "(\<exists>s. malloc_core h p nb = (of_nat s + PAGE_BLOCK, put_page h p (taken (page_at h p) s nb)) \<and>
           free_run (bitmap (page_at h p)) (unat nb) s \<and> (\<forall>t. t < s \<longrightarrow> \<not> free_run (bitmap (page_at h p)) (unat nb) t)) \<or>
         malloc_core h p nb = (-1, h) \<and> (\<forall>s. \<not> free_run (bitmap (page_at h p)) (unat nb) s)"
  using malloc_core_loop_spec [OF assms(2), of 0 0 0 "page_at h p"] assms(1)
  by (auto simp: malloc_core_def put_page_def)

lemma run_not_error:
  assumes "free_run bm n s"
  shows "of_nat s + PAGE_BLOCK \<noteq> (-1 :: u64)"
proof
  assume "of_nat s + PAGE_BLOCK = (-1 :: u64)"
  then have "of_nat s + 512 = (-1 :: u64)" unfolding heap_consts .
  then have "unat (of_nat s + 512 :: u64) = unat (-1 :: u64)" by (rule arg_cong)
  then have "unat (of_nat s + 512 :: u64) = 2 ^ 64 - 1" by (simp add: unsigned_minus_1_eq_mask mask_eq_exp_minus_1)
  moreover have "s \<le> 3584" using assms by (simp add: free_run_def)
  moreover from this have "unat (of_nat s :: u64) = s" by (simp add: unsigned_of_nat take_bit_nat_eq_self)
  ultimately show False using unat_add_no_overflow [of "of_nat s :: u64" 512] by simp
qed

text \<open>The outcomes of \<^verbatim>\<open>malloc\<close>: a run of the head page, a run of a new page, no memory, or a new page
  that is too small.\<close>

definition recorded :: "kheap \<Rightarrow> u64 \<Rightarrow> u64 \<Rightarrow> u64 \<Rightarrow> kheap" where
  "recorded h page r nb = h\<lparr>info_at := (info_at h)(r + page :=
     \<lparr>magic = MAGIC_NUMBER, bi_used = nb - 32, parent = page, addr = r + page + 32\<rparr>)\<rparr>"

lemma malloc_steps:
  assumes "sz \<noteq> 0" "\<not> sz > -1 - 32 - 15" and nb: "nb = of_nat (block_bytes sz)"
    and core: "malloc_core h (pool_list h) nb = (r, h1)"
  shows "r \<noteq> -1 \<Longrightarrow> malloc h sz = Some (r + pool_list h + 32, recorded h1 (pool_list h) r nb)"
    "r = -1 \<Longrightarrow> malloc_page h1 = Some (page, h2) \<Longrightarrow> malloc_core h2 page nb = (r', h3) \<Longrightarrow>
       malloc h sz = Some (if r' = -1 then (0, h3) else (r' + page + 32, recorded h3 page r' nb))"
proof -
  have a: "ALIGN_BLOCKS (sz + 32) = nb" by (simp add: nb block_bytes_def)
  have "\<not> sz > -1 - 32 - (16 - 1)" using assms(2) by simp
  then show "r \<noteq> -1 \<Longrightarrow> malloc h sz = Some (r + pool_list h + 32, recorded h1 (pool_list h) r nb)"
    "r = -1 \<Longrightarrow> malloc_page h1 = Some (page, h2) \<Longrightarrow> malloc_core h2 page nb = (r', h3) \<Longrightarrow>
       malloc h sz = Some (if r' = -1 then (0, h3) else (r' + page + 32, recorded h3 page r' nb))"
    using assms(1) unfolding malloc_def heap_consts
    by (simp_all only: Let_def a if_False core prod.case bind.bind_lunit recorded_def mult_1_right simp_thms refl if_True
        split: if_split) simp
qed

lemma run_recorded:
  "recorded (put_page h p (taken (page_at h p) s (of_nat n))) p (of_nat s + PAGE_BLOCK) (of_nat n) = take_run h p s n"
  "of_nat s + PAGE_BLOCK + p + 32 = header_at p s + 32"
proof -
  have e: "of_nat s + PAGE_BLOCK + p = header_at p s" by (simp add: header_at_def heap_consts)
  show "of_nat s + PAGE_BLOCK + p + 32 = header_at p s + 32" by (simp only: e)
  show "recorded (put_page h p (taken (page_at h p) s (of_nat n))) p (of_nat s + PAGE_BLOCK) (of_nat n) = take_run h p s n"
    by (simp add: recorded_def take_run_def put_page_def info_for_def e)
qed

lemma malloc_from_head:
  assumes sz: "sz \<noteq> 0" "\<not> sz > -1 - 32 - 15" and ok: "heap_ok h (p # ps) L"
    and run: "free_run (bitmap (page_at h p)) (block_bytes sz) t"
  shows "\<exists>s\<le>t. free_run (bitmap (page_at h p)) (block_bytes sz) s \<and>
     malloc h sz = Some (header_at p s + 32, take_run h p s (block_bytes sz))"
proof -
  have p: "pool_list h = p" "p \<noteq> 0" using heap_okD(2) [OF ok] by simp_all
  have "block_bytes sz \<le> 3584" using run by (simp add: free_run_def)
  then have u: "unat (of_nat (block_bytes sz) :: u64) = block_bytes sz" by (simp add: unsigned_of_nat take_bit_nat_eq_self)
  have pos: "0 < block_bytes sz" using block_bytes(2) [OF sz(2)] by simp
  obtain s where s: "malloc_core h p (of_nat (block_bytes sz)) =
      (of_nat s + PAGE_BLOCK, put_page h p (taken (page_at h p) s (of_nat (block_bytes sz))))"
    "free_run (bitmap (page_at h p)) (block_bytes sz) s"
    "\<forall>t. t < s \<longrightarrow> \<not> free_run (bitmap (page_at h p)) (block_bytes sz) t"
    using malloc_core_spec [OF p(2), of "of_nat (block_bytes sz)" h, unfolded u, OF pos] run by blast
  have "s \<le> t" using s(3) run by (meson not_le)
  moreover have "malloc h sz = Some (header_at p s + 32, take_run h p s (block_bytes sz))"
    using malloc_steps(1) [OF sz refl, of h, unfolded p(1), OF s(1) run_not_error [OF s(2)]] unfolding run_recorded .
  ultimately show ?thesis using s(2) by blast
qed

lemma no_head_run:
  assumes ok: "heap_ok h ps L" and pos: "0 < unat nb"
    and none: "\<And>s. ps \<noteq> [] \<Longrightarrow> \<not> free_run (bitmap (page_at h (hd ps))) (unat nb) s"
  shows "malloc_core h (pool_list h) nb = (-1, h)"
proof (cases ps)
  case Nil
  then show ?thesis using heap_okD(2) [OF ok] by (simp add: malloc_core_def)
next
  case (Cons p qs)
  then have "pool_list h = p" "p \<noteq> 0" using heap_okD(2) [OF ok] by simp_all
  then show ?thesis using malloc_core_spec [OF _ pos, of p h] none Cons by auto
qed

lemma fresh_run: "free_run (bitmap (page_at (grown h p s) p)) n t \<longleftrightarrow> 16 dvd t \<and> t + n \<le> 3584"
  using used_bit_zero by (auto simp: free_run_def grown_def zero_page_def heap_consts)

lemma malloc_from_new:
  assumes sz: "sz \<noteq> 0" "\<not> sz > -1 - 32 - 15" and ok: "heap_ok h ps L"
    and none: "\<And>s. ps \<noteq> [] \<Longrightarrow> \<not> free_run (bitmap (page_at h (hd ps))) (block_bytes sz) s"
  shows "palloc_zero (pages_of h) = Some (None, pages_of h) \<Longrightarrow> malloc h sz = Some (0, h)"
    "palloc_zero (pages_of h) = Some (Some p, s) \<Longrightarrow> malloc h sz =
       Some (if block_bytes sz \<le> 3584 then (header_at p 0 + 32, take_run (grown h p s) p 0 (block_bytes sz))
             else (0, grown h p s))"
proof -
  let ?nb = "of_nat (block_bytes sz) :: u64"
  have u: "unat ?nb = block_bytes sz" by (simp add: block_bytes_def)
  have pos: "0 < unat ?nb" using block_bytes(2) [OF sz(2)] u by simp
  have head: "malloc_core h (pool_list h) ?nb = (-1, h)"
    by (rule no_head_run [OF ok pos]) (use none u in simp)
  note step = malloc_steps(2) [OF sz refl head refl]
  show "malloc h sz = Some (0, h)" if "palloc_zero (pages_of h) = Some (None, pages_of h)"
  proof -
    have "malloc_core h 0 ?nb = (-1, h)" by (simp add: malloc_core_def)
    from step [OF malloc_page_eq(1) [OF that] this] show ?thesis by simp
  qed
  show "malloc h sz = Some (if block_bytes sz \<le> 3584
      then (header_at p 0 + 32, take_run (grown h p s) p 0 (block_bytes sz)) else (0, grown h p s))"
    if new: "palloc_zero (pages_of h) = Some (Some p, s)"
  proof (cases "block_bytes sz \<le> 3584")
    case True
    then have "free_run (bitmap (page_at (grown h p s) p)) (unat ?nb) 0" by (simp add: fresh_run u)
    then have first: "free_run (bitmap (page_at (grown h p s) p)) (unat ?nb) 0"
      "(\<forall>t. t < a \<longrightarrow> \<not> free_run (bitmap (page_at (grown h p s) p)) (unat ?nb) t) \<Longrightarrow> a = 0" for a
      by (assumption, meson gr0I)
    then have r: "malloc_core (grown h p s) p ?nb =
        (of_nat 0 + PAGE_BLOCK, put_page (grown h p s) p (taken (page_at (grown h p s) p) 0 ?nb))"
      using malloc_core_spec [OF grown_ok(3) [OF ok new] pos, of "grown h p s"] first by metis
    have "of_nat 0 + PAGE_BLOCK \<noteq> (-1 :: u64)" by (rule run_not_error [of "replicate 448 0" 0]) (simp add: free_run_def)
    then have "malloc h sz = Some (header_at p 0 + 32, take_run (grown h p s) p 0 (block_bytes sz))"
      using step [OF malloc_page_eq(2) [OF new] r] unfolding run_recorded by simp
    then show ?thesis using True by simp
  next
    case False
    then have r: "malloc_core (grown h p s) p ?nb = (-1, grown h p s)"
      using malloc_core_spec [OF grown_ok(3) [OF ok new] pos, of "grown h p s"] by (auto simp: fresh_run u)
    show ?thesis using step [OF malloc_page_eq(2) [OF new] r] False by simp
  qed
qed

subsection \<open>free\<close>

lemma live_ok_subset:
  assumes lo: "live_ok infos L" and d: "distinct L'" and sub: "set L' \<subseteq> set L"
  shows "live_ok infos L'"
  unfolding live_ok_def
proof (intro conjI allI impI)
  fix p s n
  assume "(p, s, n) \<in> set L'"
  then have "(p, s, n) \<in> set L" using sub by blast
  note a = live_okD(1-4) [OF lo this]
  show "16 dvd s" "32 \<le> n" "s + n \<le> 3584" "infos (header_at p s) = info_for p s n" by (fact a)+
next
  fix p s n t m
  assume "(p, s, n) \<in> set L' \<and> (p, t, m) \<in> set L' \<and> (s, n) \<noteq> (t, m)"
  then show "s + n \<le> t \<or> t + m \<le> s" using sub live_okD(5) [OF lo, of p s n t m] by blast
qed (rule d)

lemma live_remove:
  assumes lo: "live_ok infos L" and a: "(p, s, n) \<in> set L"
  shows "live_ok infos (remove1 (p, s, n) L)" "set (remove1 (p, s, n) L) = set L - {(p, s, n)}"
    "live_bits (remove1 (p, s, n) L) q = live_bits L q - (if q = p then {s..<s + n} else {})"
proof -
  have d: "distinct L" using lo by (simp add: live_ok_def)
  show st: "set (remove1 (p, s, n) L) = set L - {(p, s, n)}" using d by simp
  show "live_ok infos (remove1 (p, s, n) L)"
    using live_ok_subset [OF lo distinct_remove1 [OF d]] st by blast
  have "k \<notin> {t..<t + m}" if "(p, t, m) \<in> set L" "(t, m) \<noteq> (s, n)" "k \<in> {s..<s + n}" for t m k
    using live_okD(5) [OF lo a that(1)] that(2,3) by fastforce
  then show "live_bits (remove1 (p, s, n) L) q = live_bits L q - (if q = p then {s..<s + n} else {})"
    unfolding live_bits_def st by (fastforce split: if_splits)
qed

lemma page_ok_released:
  assumes ok: "page_ok v B" and sub: "{s..<s + n} \<subseteq> B" and B: "B \<subseteq> {..<3584}" and lim: "s + n \<le> 3584"
  shows "\<exists>bm. clear_blocks (bitmap v) (of_nat s) (of_nat s + of_nat n) = Some bm \<and>
    page_ok (v\<lparr>bitmap := bm, hp_used := hp_used v - of_nat n\<rparr>) (B - {s..<s + n})"
proof -
  have u: "unat (of_nat s :: u64) = s" "unat (of_nat n :: u64) = n"
    using lim by (simp_all add: unsigned_of_nat take_bit_nat_eq_self)
  have e: "unat (of_nat s + of_nat n :: u64) = s + n"
    using lim u unat_add_no_overflow [of "of_nat s :: u64" "of_nat n"] by simp
  have len: "length (bitmap v) = 448" using ok by (simp add: page_ok_def)
  obtain bm where bm: "clear_blocks (bitmap v) (of_nat s) (of_nat s + of_nat n) = Some bm" "length bm = 448"
    "\<And>j. used_bit bm j \<longleftrightarrow> \<not> (s \<le> j \<and> j < s + n) \<and> used_bit (bitmap v) j"
    using clear_blocks_spec [of "of_nat s + of_nat n" "bitmap v" "of_nat s", unfolded e u len] lim by auto
  have fin: "finite B" using B finite_subset by blast
  have c: "card (B - {s..<s + n}) = card B - n" using card_Diff_subset [OF _ sub] by simp
  have "n \<le> card B" using card_mono [OF fin sub] by simp
  then have "unat (hp_used v - of_nat n) = card B - n"
    using ok u unat_sub [of "of_nat n" "hp_used v"] by (simp add: page_ok_def word_le_nat_alt)
  then show ?thesis using bm ok c by (auto simp: page_ok_def)
qed

lemma pool_before_spec:
  assumes "pool_chain at a ps" "page \<in> set (tl ps)" "distinct ps"
  shows "\<exists>us b vs. pool_before at page a = Some b \<and> ps = us @ b # page # vs"
  using assms
proof (induction ps arbitrary: a)
  case (Cons p ps)
  then obtain q qs where ps: "ps = q # qs" by (cases ps) auto
  have p: "a = p" "p \<noteq> 0" "hp_next (at p) = q" "pool_chain at q ps" using Cons.prems(1) ps by simp_all
  show ?case
  proof (cases "q = page")
    case True
    then have "pool_before at page a = Some p" using p by (subst pool_before.simps) simp
    then show ?thesis using True ps by (intro exI [of _ "[]"]) auto
  next
    case False
    then have "page \<in> set (tl ps)" "distinct ps" using Cons.prems ps by auto
    then obtain us b vs where "pool_before at page q = Some b" "ps = us @ b # page # vs"
      using Cons.IH [OF p(4)] by blast
    moreover from this have "pool_before at page a = Some b" using p False by (subst pool_before.simps) simp
    ultimately show ?thesis by (intro exI [of _ "p # us"]) auto
  qed
qed simp

lemma pool_chain_nonzero: "pool_chain at a ps \<Longrightarrow> 0 \<notin> set ps"
  by (induction ps arbitrary: a) auto

lemma pool_chain_append:
  "pool_chain at a (us @ b # vs) \<longleftrightarrow> pool_chain (at(b := (at b)\<lparr>hp_next := 0\<rparr>)) a (us @ [b]) \<and> pool_chain at (hp_next (at b)) vs"
  if "b \<notin> set us"
  using that by (induction us arbitrary: a) auto

lemma pool_unlink_spec:
  assumes chain: "pool_chain (page_at h) (pool_list h) ps" and p: "page \<in> set ps" and d: "distinct ps"
  shows "\<exists>pg h'. pool_unlink h page = Some (pg, h') \<and> pg \<noteq> 0 \<and> pages_of h' = pages_of h \<and> info_at h' = info_at h \<and>
     pool_chain (page_at h') (pool_list h') (remove1 page ps) \<and>
     (\<forall>q. hp_used (page_at h' q) = hp_used (page_at h q) \<and> bitmap (page_at h' q) = bitmap (page_at h q))"
proof (cases "page = pool_list h")
  case True
  then obtain qs where "ps = page # qs" "page \<noteq> 0" using chain p by (cases ps) auto
  then show ?thesis using True chain by (simp add: pool_unlink_def)
next
  case False
  then have "page \<in> set (tl ps)" using chain p by (cases ps) auto
  then obtain us b vs where b: "pool_before (page_at h) page (pool_list h) = Some b" and ps: "ps = us @ b # page # vs"
    using pool_before_spec [OF chain _ d] by blast
  let ?v = "(page_at h b)\<lparr>hp_next := hp_next (page_at h page)\<rparr>"
  have nd: "b \<notin> set us" "page \<notin> set us" "b \<noteq> page" "b \<notin> set vs" "page \<notin> set vs" using d ps by auto
  have c: "pool_chain ((page_at h)(b := (page_at h b)\<lparr>hp_next := 0\<rparr>)) (pool_list h) (us @ [b])"
    "pool_chain (page_at h) (hp_next (page_at h b)) (page # vs)"
    using chain pool_chain_append [OF nd(1)] unfolding ps by blast+
  have b0: "b \<noteq> 0" using pool_chain_nonzero [OF chain] ps by auto
  have "pool_chain ((page_at h)(b := ?v)) (pool_list h) (us @ b # vs)"
    using c pool_chain_append [OF nd(1), of "(page_at h)(b := ?v)" "pool_list h" vs] nd by (simp add: pool_chain_frame)
  moreover have "remove1 page ps = us @ b # vs" using nd ps by (simp add: remove1_append)
  ultimately show ?thesis using False b b0 by (simp add: pool_unlink_def put_page_def)
qed

lemma free_live:
  assumes ok: "heap_ok h ps L" and a: "(p, s, n) \<in> set L"
  shows "free h (header_at p s + 32) = free_core h p (header_at p s) (of_nat n)"
proof -
  note lv = live_okD [OF heap_okD(6) [OF ok] a] and pl = live_header [OF ok a]
  have u: "unat (header_at p s + 32) = unat p + 544 + s" using unat_header(2) [OF pl(2)] pl(3) by simp
  have e: "unat (p + PGSIZE) = unat p + 4096" using pl(2) unat_add_no_overflow [of p 4096] by (simp add: PGSIZE_def)
  have "header_at p s + 32 \<noteq> 0" using u by (metis add_is_0 unat_0 zero_neq_numeral)
  moreover have "\<not> header_at p s + 32 \<le> p" using u by (simp add: word_le_nat_alt)
  moreover have "\<not> header_at p s + 32 > p + PGSIZE" using u e lv(2,3) by (simp add: word_less_nat_alt)
  ultimately show ?thesis by (simp add: free_def heap_consts lv(4) info_for_def)
qed

lemma heap_ok_released:
  assumes ok: "heap_ok h ps L" and a: "(p, s, n) \<in> set L"
    and v: "page_ok v (live_bits L p - {s..<s + n})" "hp_next v = hp_next (page_at h p)"
  shows "heap_ok (put_page h p v) ps (remove1 (p, s, n) L)"
proof -
  note rm = live_remove [OF heap_okD(6) [OF ok] a]
  have "page_ok (page_at (put_page h p v) q) (live_bits (remove1 (p, s, n) L) q)" if "q \<in> set ps" for q
    using heap_okD(5) [OF ok that] v(1) by (simp add: rm(3) put_page_def)
  moreover have "fst ` set (remove1 (p, s, n) L) \<subseteq> set ps" using heap_okD(7) [OF ok] rm(2) by blast
  moreover have "pool_chain (page_at (put_page h p v)) (pool_list (put_page h p v)) ps"
    using heap_okD(2) [OF ok] pool_chain_same_next [of v "page_at h" p, OF v(2)] by (simp add: put_page_def)
  ultimately show ?thesis
    using heap_okD(1,3,4) [OF ok] rm(1) unfolding heap_ok_def by (simp add: put_page_def)
qed

lemma live_bits_empty:
  assumes "live_ok infos L" "live_bits L p = {}"
  shows "p \<notin> fst ` set L"
proof
  assume "p \<in> fst ` set L"
  then obtain s n where a: "(p, s, n) \<in> set L" by force
  then have "{s..<s + n} \<subseteq> live_bits L p" by (fastforce simp: live_bits_def)
  then show False using assms live_okD(2) [OF assms(1) a] by simp
qed

lemma heap_ok_unlinked:
  assumes ok: "heap_ok h ps L" and p: "p \<in> set ps" and none: "live_bits L p = {}"
    and chain: "pool_chain (page_at h') (pool_list h') (remove1 p ps)" and info: "info_at h' = info_at h"
    and same: "\<And>q. hp_used (page_at h' q) = hp_used (page_at h q) \<and> bitmap (page_at h' q) = bitmap (page_at h q)"
    and pages: "phys_ok s" "palloc_refcount s = (palloc_refcount (pages_of h))(p := 0)"
  shows "heap_ok (h'\<lparr>pages_of := s\<rparr>) (remove1 p ps) L"
proof -
  have d: "set (remove1 p ps) = set ps - {p}" using heap_okD(3) [OF ok] by simp
  have "p \<notin> fst ` set L" by (rule live_bits_empty [OF heap_okD(6) [OF ok] none])
  then have "fst ` set L \<subseteq> set (remove1 p ps)" using heap_okD(7) [OF ok] d by blast
  moreover have "palloc_refcount s q = 1 \<and> page_ok (page_at h' q) (live_bits L q)" if "q \<in> set (remove1 p ps)" for q
    using heap_okD(4,5) [OF ok, of q] that same [of q] pages(2) d by (auto simp: page_ok_def)
  ultimately show ?thesis
    using heap_okD(3,6) [OF ok] chain info pages(1) by (simp add: heap_ok_def distinct_remove1)
qed

lemma free_spec:
  assumes ok: "heap_ok h ps L" and a: "(p, s, n) \<in> set L"
  defines "L' \<equiv> remove1 (p, s, n) L"
  shows "\<exists>h'. free h (header_at p s + 32) = Some h' \<and>
    (if p \<in> fst ` set L' then heap_ok h' ps L' \<and> pages_of h' = pages_of h
     else heap_ok h' (remove1 p ps) L' \<and> palloc_refcount (pages_of h') = (palloc_refcount (pages_of h))(p := 0) \<and>
       unat (palloc_free_pages (pages_of h')) = unat (palloc_free_pages (pages_of h)) + 1)"
proof -
  note lo = heap_okD(6) [OF ok] and rm = live_remove [OF heap_okD(6) [OF ok] a, folded L'_def]
  have p: "p \<in> set ps" using live_page [OF ok a] .
  have sub: "{s..<s + n} \<subseteq> live_bits L p" using a by (fastforce simp: live_bits_def)
  obtain bm where bm: "clear_blocks (bitmap (page_at h p)) (of_nat s) (of_nat s + of_nat n) = Some bm"
    and pg: "page_ok ((page_at h p)\<lparr>bitmap := bm, hp_used := hp_used (page_at h p) - of_nat n\<rparr>) (live_bits L p - {s..<s + n})"
    using page_ok_released [OF heap_okD(5) [OF ok p] sub live_bits_below(1) [OF lo] live_okD(3) [OF lo a]] by blast
  define v where "v = (page_at h p)\<lparr>bitmap := bm, hp_used := hp_used (page_at h p) - of_nat n\<rparr>"
  have ok1: "heap_ok (put_page h p v) ps L'"
    unfolding L'_def by (rule heap_ok_released [OF ok a]) (use pg in \<open>simp_all add: v_def\<close>)
  have off: "header_at p s - p - PAGE_BLOCK = of_nat s" by (simp add: header_at_def heap_consts)
  have z: "hp_used v = 0 \<longleftrightarrow> live_bits L' p = {}"
  proof -
    have "unat (hp_used v) = card (live_bits L' p)" using heap_okD(5) [OF ok1 p] by (simp add: page_ok_def put_page_def)
    then show ?thesis using live_bits_below(2) [OF rm(1), of p] by (metis card_0_eq unat_0 unat_eq_zero)
  qed
  have z': "live_bits L' p = {} \<longleftrightarrow> p \<notin> fst ` set L'" using live_bits_empty [OF rm(1)] live_bits_other by blast
  have f: "free h (header_at p s + 32) =
      (if hp_used v = 0 then do { (pg, h') \<leftarrow> pool_unlink (put_page h p v) p;
         if pg \<noteq> 0 then do { s \<leftarrow> pfree (pages_of h') p; Some (h'\<lparr>pages_of := s\<rparr>) } else Some h' }
       else Some (put_page h p v))"
    unfolding free_live [OF ok a] free_core_def off Let_def bm
    by (simp add: v_def put_page_def)
  show ?thesis
  proof (cases "p \<in> fst ` set L'")
    case True
    then show ?thesis using f z z' ok1 by (simp add: put_page_def)
  next
    case False
    obtain pg h2 where h2: "pool_unlink (put_page h p v) p = Some (pg, h2)" "pg \<noteq> 0" "pages_of h2 = pages_of h"
      "info_at h2 = info_at (put_page h p v)" "pool_chain (page_at h2) (pool_list h2) (remove1 p ps)"
      "\<And>q. hp_used (page_at h2 q) = hp_used (page_at (put_page h p v) q) \<and> bitmap (page_at h2 q) = bitmap (page_at (put_page h p v) q)"
      using pool_unlink_spec [OF heap_okD(2) [OF ok1] p heap_okD(3) [OF ok1]] by (auto simp: put_page_def)
    obtain s' where s': "pfree (pages_of h) p = Some s'" "phys_ok s'"
      "palloc_refcount s' = (palloc_refcount (pages_of h))(p := 0)"
      "unat (palloc_free_pages s') = unat (palloc_free_pages (pages_of h)) + 1"
      using pfree_spec [OF heap_okD(1) [OF ok], of p] heap_okD(4) [OF ok p] by auto
    have "heap_ok (h2\<lparr>pages_of := s'\<rparr>) (remove1 p ps) L'"
      by (rule heap_ok_unlinked [OF ok1 p _ h2(5,4,6) s'(2)]) (use z' False s'(3) in \<open>simp_all add: put_page_def\<close>)
    then show ?thesis using f z z' False h2(1-3) s' by simp
  qed
qed

subsection \<open>Properties\<close>

lemma block_fits: "\<not> sz > -1 - 32 - 15 \<Longrightarrow> block_bytes sz \<le> 3584 \<longleftrightarrow> unat sz \<le> 3552"
  using block_bytes [of sz] by (auto elim!: dvdE)

lemma too_big:
  fixes sz :: u64
  assumes "sz > -1 - 32 - 15"
  shows "3552 < unat sz" "\<not> sz \<le> 0xFFFFFFFFFFFFFFD0"
proof -
  have m: "(-1 - 32 - 15 :: u64) = 0xFFFFFFFFFFFFFFD0" by simp
  show "3552 < unat sz" "\<not> sz \<le> 0xFFFFFFFFFFFFFFD0" using assms unfolding m by (simp_all add: word_less_nat_alt not_le)
qed

lemma malloc_refused: "sz = 0 \<or> sz > -1 - 32 - 15 \<Longrightarrow> malloc h sz = Some (0, h)"
  by (auto simp: malloc_def heap_consts)

definition hands_out :: "live list \<Rightarrow> u64 \<Rightarrow> u64 \<Rightarrow> live \<Rightarrow> bool" where
  "hands_out L sz ptr a \<longleftrightarrow> (case a of (p, s, n) \<Rightarrow> ptr = header_at p s + 32 \<and> unat sz + 32 \<le> n \<and> n < unat sz + 48) \<and>
     ptr \<noteq> 0 \<and> 16 dvd unat ptr \<and> {unat ptr..<unat ptr + unat sz} \<subseteq> extent a \<and> (\<forall>b\<in>set L. extent b \<inter> extent a = {})"

lemma hands_outI:
  assumes sz: "\<not> sz > -1 - 32 - 15" and ok: "heap_ok h ps ((p, s, block_bytes sz) # L)"
  shows "hands_out L sz (header_at p s + 32) (p, s, block_bytes sz)"
proof -
  note lv = live_okD [OF heap_okD(6) [OF ok], of p s "block_bytes sz"] and pl = live_header [OF ok, of p s "block_bytes sz"]
  have u: "unat (header_at p s + 32) = unat p + 544 + s" using unat_header(2) [of p s] pl by simp
  have "4096 dvd unat p" using pl(1) by (simp add: page_aligned_unat)
  then have "16 dvd unat p" by (rule dvd_trans [rotated]) simp
  then have "16 dvd unat (header_at p s + 32)" using lv(1) unfolding u by simp
  moreover have "header_at p s + 32 \<noteq> 0" using u by (metis add_is_0 unat_0 zero_neq_numeral)
  moreover have "extent b \<inter> extent (p, s, block_bytes sz) = {}" if "b \<in> set L" for b
  proof (rule extents_disjoint [OF ok])
    show "b \<noteq> (p, s, block_bytes sz)" using that heap_okD(6) [OF ok] by (auto simp: live_ok_def)
  qed (use that in simp_all)
  moreover have "{unat (header_at p s + 32)..<unat (header_at p s + 32) + unat sz} \<subseteq> extent (p, s, block_bytes sz)"
    using block_bytes(2) [OF sz] unfolding u extent_def by auto
  ultimately show ?thesis using block_bytes(2,3) [OF sz] by (simp add: hands_out_def)
qed

definition malloc_outcome :: "kheap \<Rightarrow> u64 list \<Rightarrow> live list \<Rightarrow> u64 \<Rightarrow> u64 \<Rightarrow> kheap \<Rightarrow> u64 list \<Rightarrow> bool" where
  "malloc_outcome h ps L sz ptr h' ps' \<longleftrightarrow> malloc h sz = Some (ptr, h') \<and>
    (if ptr = 0
     then heap_ok h' ps' L \<and> (sz = 0 \<or> 3552 < unat sz \<or> palloc_zero (pages_of h) = Some (None, pages_of h))
     else unat sz \<le> 3552 \<and> (\<exists>a. heap_ok h' ps' (a # L) \<and> hands_out L sz ptr a)) \<and>
    (ps' = ps \<and> pages_of h' = pages_of h \<or>
     (\<exists>p. ps' = p # ps \<and> p \<notin> set ps \<and> palloc_zero (pages_of h) = Some (Some p, pages_of h'))) \<and>
    (3552 < unat sz \<and> sz \<le> 0xFFFFFFFFFFFFFFD0 \<and> palloc_zero (pages_of h) \<noteq> Some (None, pages_of h) \<longrightarrow> ps' \<noteq> ps)"

lemma outcome_taken:
  assumes m: "malloc h sz = Some (header_at p s + 32, take_run h1 p s (block_bytes sz))" and sz: "\<not> sz > -1 - 32 - 15"
    and ok: "heap_ok h1 ps' L" and p: "p \<in> set ps'" and run: "free_run (bitmap (page_at h1 p)) (block_bytes sz) s"
    and pages: "ps' = ps \<and> pages_of h1 = pages_of h \<or>
     (\<exists>p. ps' = p # ps \<and> p \<notin> set ps \<and> palloc_zero (pages_of h) = Some (Some p, pages_of h1))"
  shows "malloc_outcome h ps L sz (header_at p s + 32) (take_run h1 p s (block_bytes sz)) ps'"
proof -
  have "32 \<le> block_bytes sz" using block_bytes(2) [OF sz] by simp
  note ok' = take_run_ok(1) [OF ok p run this]
  note ho = hands_outI [OF sz ok']
  have "block_bytes sz \<le> 3584" using run by (simp add: free_run_def)
  then have "unat sz \<le> 3552" using block_fits [OF sz] by blast
  moreover have "header_at p s + 32 \<noteq> 0" using ho by (simp add: hands_out_def)
  moreover have "pages_of (take_run h1 p s (block_bytes sz)) = pages_of h1" by (simp add: take_run_def)
  ultimately show ?thesis using m ok' ho pages unfolding malloc_outcome_def by auto
qed

lemma outcome_from_new:
  assumes sz: "sz \<noteq> 0" "\<not> sz > -1 - 32 - 15" and ok: "heap_ok h ps L"
    and none: "\<And>s. ps \<noteq> [] \<Longrightarrow> \<not> free_run (bitmap (page_at h (hd ps))) (block_bytes sz) s"
  shows "\<exists>ptr h' ps'. malloc_outcome h ps L sz ptr h' ps'"
proof -
  note new = malloc_from_new [OF sz ok none]
  consider (no) "palloc_zero (pages_of h) = Some (None, pages_of h)"
    | (page) p s where "palloc_zero (pages_of h) = Some (Some p, s)"
    using palloc_zero_spec [OF heap_okD(1) [OF ok]] by blast
  then show ?thesis
  proof cases
    case no
    then have "malloc_outcome h ps L sz 0 h ps" using new(1) ok by (simp add: malloc_outcome_def)
    then show ?thesis by blast
  next
    case page
    note g = grown_ok [OF ok page] and m = new(2) [OF _ page]
    have pg: "pages_of (grown h p s) = s" by (simp add: grown_def)
    have "malloc_outcome h ps L sz 0 (grown h p s) (p # ps)" if "\<not> block_bytes sz \<le> 3584"
      using m that block_fits [OF sz(2)] g page pg by (simp add: malloc_outcome_def)
    moreover have "malloc_outcome h ps L sz (header_at p 0 + 32) (take_run (grown h p s) p 0 (block_bytes sz)) (p # ps)"
      if "block_bytes sz \<le> 3584"
      by (rule outcome_taken [OF _ sz(2) g(1)]) (use m that g page pg in \<open>simp_all add: fresh_run\<close>)
    ultimately show ?thesis by blast
  qed
qed

lemma malloc_outcomes:
  assumes ok: "heap_ok h ps L"
  shows "\<exists>ptr h' ps'. malloc_outcome h ps L sz ptr h' ps'"
proof (cases "sz = 0 \<or> sz > -1 - 32 - 15")
  case True
  then have "malloc_outcome h ps L sz 0 h ps"
    using malloc_refused [OF True, of h] too_big ok by (auto simp: malloc_outcome_def)
  then show ?thesis by blast
next
  case False
  then have sz: "sz \<noteq> 0" "\<not> sz > -1 - 32 - 15" by auto
  show ?thesis
  proof (cases "\<exists>t. ps \<noteq> [] \<and> free_run (bitmap (page_at h (hd ps))) (block_bytes sz) t")
    case True
    then obtain p qs t where ps: "ps = p # qs" and t: "free_run (bitmap (page_at h p)) (block_bytes sz) t"
      by (cases ps) auto
    obtain s where s: "free_run (bitmap (page_at h p)) (block_bytes sz) s"
      "malloc h sz = Some (header_at p s + 32, take_run h p s (block_bytes sz))"
      using malloc_from_head [OF sz ok [unfolded ps] t] by blast
    have "malloc_outcome h ps L sz (header_at p s + 32) (take_run h p s (block_bytes sz)) ps"
      by (rule outcome_taken [OF s(2) sz(2) ok _ s(1)]) (simp_all add: ps)
    then show ?thesis by blast
  qed (use outcome_from_new [OF sz ok] in blast)
qed

text \<open>A heap without pages, over the pages of the sample allocator.\<close>

definition heap_demo :: kheap where
  "heap_demo = \<lparr>pages_of = phys_demo, pool_list = 0, page_at = (\<lambda>_. zero_page), info_at = (\<lambda>_. zero_info)\<rparr>"

lemma heap_demo_ok: "heap_ok heap_demo [] []"
  using phys_demo_ok by (simp add: heap_ok_def heap_demo_def live_ok_def)

lemma heap_demo_malloc:
  "\<exists>h. malloc heap_demo 100 = Some (0x1220, h) \<and> heap_ok h [0x1000] [(0x1000, 0, 144)]"
proof -
  obtain s where s: "palloc_zero (pages_of heap_demo) = Some (Some 0x1000, s)"
    using phys_demo_page by (auto simp: heap_demo_def)
  have b: "block_bytes 100 = 144" by code_simp
  have p: "header_at 0x1000 0 + 32 = 0x1220" by (simp add: header_at_def)
  have "malloc heap_demo 100 = Some (0x1220, take_run (grown heap_demo 0x1000 s) 0x1000 0 144)"
    using malloc_from_new(2) [OF _ _ heap_demo_ok _ s, of 100] b p by simp
  moreover have "heap_ok (take_run (grown heap_demo 0x1000 s) 0x1000 0 144) [0x1000] [(0x1000, 0, 144)]"
    by (rule take_run_ok(1) [OF grown_ok(1) [OF heap_demo_ok s]]) (simp_all add: fresh_run)
  ultimately show ?thesis by blast
qed

text \<open>C18. \<^verbatim>\<open>malloc\<close> on a heap whose pages, bitmaps, counts and headers agree never panics and keeps them agreeing.
  It returns NULL only for size 0, for a size above 3552 or when no page is free, and then no allocation is
  added. Otherwise the pointer is aligned to 16 and the bytes asked for lie, after their header, in a new
  allocation that is disjoint from every live one; the live ones stay as they are. At most one page is
  taken, and it becomes the head of the pool. A request above 3552 bytes, which no page can hold, takes a page
  all the same (unless adding header and alignment overflows): it fails and the empty page stays in the pool.\<close>

theorem malloc_correct:
  assumes "heap_ok h ps L"
  shows "\<exists>ptr h' ps'. malloc h sz = Some (ptr, h') \<and>
    (if ptr = 0
     then heap_ok h' ps' L \<and> (sz = 0 \<or> 3552 < unat sz \<or> palloc_zero (pages_of h) = Some (None, pages_of h))
     else unat sz \<le> 3552 \<and> (\<exists>a. heap_ok h' ps' (a # L) \<and> hands_out L sz ptr a)) \<and>
    (ps' = ps \<and> pages_of h' = pages_of h \<or>
     (\<exists>p. ps' = p # ps \<and> p \<notin> set ps \<and> palloc_zero (pages_of h) = Some (Some p, pages_of h'))) \<and>
    (3552 < unat sz \<and> sz \<le> 0xFFFFFFFFFFFFFFD0 \<and> palloc_zero (pages_of h) \<noteq> Some (None, pages_of h) \<longrightarrow> ps' \<noteq> ps)"
  using malloc_outcomes [OF assms] unfolding malloc_outcome_def .

theorem malloc_correct_witness:
  "\<exists>ptr h a ps. malloc heap_demo 100 = Some (ptr, h) \<and> ptr \<noteq> 0 \<and> heap_ok h ps [a] \<and> hands_out [] 100 ptr a"
proof -
  obtain s where "palloc_zero (pages_of heap_demo) = Some (Some 0x1000, s)"
    using phys_demo_page by (auto simp: heap_demo_def)
  then show ?thesis using malloc_correct [OF heap_demo_ok, of 100] by (auto split: if_splits)
qed

text \<open>C19. \<^verbatim>\<open>free\<close> of a live allocation ends without a panic, removes exactly that allocation from the heap and keeps
  pages, bitmaps, counts and headers agreeing. A page goes back to the free pages exactly with its last
  allocation: it leaves the pool, wherever it stands there, and its reference is put.\<close>

theorem free_correct:
  assumes "heap_ok h ps L" "(p, s, n) \<in> set L"
  shows "\<exists>h'. free h (header_at p s + 32) = Some h' \<and>
    (if p \<in> fst ` (set L - {(p, s, n)})
     then heap_ok h' ps (remove1 (p, s, n) L) \<and> pages_of h' = pages_of h
     else heap_ok h' (remove1 p ps) (remove1 (p, s, n) L) \<and>
       palloc_refcount (pages_of h') = (palloc_refcount (pages_of h))(p := 0) \<and>
       unat (palloc_free_pages (pages_of h')) = unat (palloc_free_pages (pages_of h)) + 1)"
  using free_spec [OF assms] unfolding live_remove(2) [OF heap_okD(6) [OF assms(1)] assms(2)] .

theorem free_correct_witness:
  "\<exists>h h'. malloc heap_demo 100 = Some (0x1220, h) \<and> heap_ok h [0x1000] [(0x1000, 0, 144)] \<and>
     free h 0x1220 = Some h' \<and> heap_ok h' [] [] \<and>
     unat (palloc_free_pages (pages_of h')) = unat (palloc_free_pages (pages_of h)) + 1"
proof -
  obtain h where h: "malloc heap_demo 100 = Some (0x1220, h)" "heap_ok h [0x1000] [(0x1000, 0, 144)]"
    using heap_demo_malloc by blast
  have p: "header_at 0x1000 0 + 32 = 0x1220" by (simp add: header_at_def)
  show ?thesis using free_correct [OF h(2), of "0x1000" 0 144, unfolded p] h by auto
qed

end
