(* ===== verification/Spec2Isabelle.thy ===== *)
theory Spec2Isabelle
  imports Buddy_Spec Memrange Klist Kstring Ktime Sched_Account Wait_Spec Pipe_Spec Vma_Ops Heap_Spec
begin

text \<open>
  Verification of the core of Caffeinix, a Unix-like kernel for RISC-V.

  \<^bold>\<open>The program.\<close> The kernel discovers the physical memory from the device tree as a set of address
  ranges (\<^verbatim>\<open>kernel/memrange.c\<close>), hands the ranges to a buddy allocator (\<^verbatim>\<open>kernel/buddy.c\<close>), and serves
  single pages with reference counts and small allocations on top of it (\<^verbatim>\<open>kernel/palloc.c\<close>). Threads are
  scheduled by virtual runtime (\<^verbatim>\<open>kernel/scheduler.c\<close>) with a red-black tree (\<^verbatim>\<open>kernel/rbtree.c\<close>) as the run
  queue; they sleep and are woken through wait queues (\<^verbatim>\<open>kernel/wait.c\<close>), which are intrusive lists
  (\<^verbatim>\<open>kernel/include/list.h\<close>). An address space is a list of areas (\<^verbatim>\<open>kernel/vma.c\<close>). Pipes
  (\<^verbatim>\<open>kernel/fs/pipe.c\<close>) are ring buffers between threads. All of them use the C library of the kernel
  (\<^verbatim>\<open>kernel/string.c\<close>) and its clocks (\<^verbatim>\<open>kernel/timeconv.c\<close>, \<^verbatim>\<open>kernel/ktime.c\<close>, \<^verbatim>\<open>kernel/loadavg.c\<close>).

  \<^bold>\<open>Conventions.\<close> \<^verbatim>\<open>Prelude\<close> fixes them. Machine integers are words of their width, so additions wrap as in C;
  counters that provably stay small are naturals where the theory says so. A structure is a record, a
  pointer that the code only dereferences is the value, a pointer the code compares or stores is an address
  with an explicit store. \<^verbatim>\<open>PANIC\<close>, a null dereference and a loop that does not end are the value \<^const>\<open>None\<close>
  (in \<^verbatim>\<open>Prelude\<close>'s \<open>panicking\<close> type: \<^const>\<open>Inl\<close>), so a theorem that a result is \<^const>\<open>Some\<close> says that the operation returns.
  A spinlock delimits an atomic step. What happens while a lock is released or a thread sleeps is an
  argument of the operation, and so is every answer of a part of the kernel that is not modelled.

  \<^bold>\<open>Memory.\<close>
  \<^item> \<^verbatim>\<open>Memrange\<close>: every function of \<^verbatim>\<open>memrange.c\<close>, on the array. The operations are union, difference and inclusion
    of address sets; they fail exactly when the table is full. The locale \<open>range_store\<close> is the contract.
  \<^item> \<^verbatim>\<open>Klist\<close>: \<^verbatim>\<open>list.h\<close> on a heap of links; insertion and removal implement those on sequences.
  \<^item> \<^verbatim>\<open>Buddy\<close>, \<^verbatim>\<open>Buddy_Inv\<close>, \<^verbatim>\<open>Buddy_Ops\<close>, \<^verbatim>\<open>Buddy_Region\<close>, \<^verbatim>\<open>Buddy_Spec\<close>: every function of \<^verbatim>\<open>buddy.c\<close>. The state bytes of
    a region are read as a tiling by blocks; the invariant says that bytes, free lists and counts agree and
    that no two free siblings exist. Allocation is sound and complete, release is exact, adding a region ends, and
    after any series of operations the blocks in use are disjoint and no page is lost.
    The locale \<open>block_allocator\<close> is what clients may rely on.
  \<^item> \<^verbatim>\<open>Palloc\<close>, \<^verbatim>\<open>Palloc_Spec\<close>: every function of \<^verbatim>\<open>palloc.c\<close>. A page has a reference exactly while the buddy allocator has it
    allocated; the locale \<open>counted_store\<close> is the contract of shared pages.
  \<^item> \<^verbatim>\<open>Heap_Bits\<close>, \<^verbatim>\<open>Heap_Spec\<close>: \<^verbatim>\<open>malloc\<close> and \<^verbatim>\<open>free\<close> of \<^verbatim>\<open>palloc.c\<close>. The bitmap of a heap page is the set of its bytes in
    use; the invariant says that the pool, the bitmaps and counts and the headers describe the same live
    allocations. An allocation is aligned and disjoint from the others, \<^verbatim>\<open>free\<close> removes exactly one and returns a
    page with its last allocation. A request larger than a page can hold fails but leaves an empty page in the pool.
  \<^item> \<^verbatim>\<open>Vma\<close>, \<^verbatim>\<open>Vma_Spec\<close>, \<^verbatim>\<open>Vma_Ops\<close>: every function of \<^verbatim>\<open>vma.c\<close>. The list of areas refines a map from addresses to
    attributes; inserting, unmapping and protecting change the map on exactly the range, failures change
    nothing, references to files and backings stay balanced, and merging is invisible. That equal neighbours are
    always merged is not shown.

  \<^bold>\<open>Threads.\<close>
  \<^item> \<^verbatim>\<open>Rbtree\<close>, \<^verbatim>\<open>Rbtree_Rep\<close>, \<^verbatim>\<open>Rbtree_Insert\<close>, \<^verbatim>\<open>Rbtree_Erase\<close>, \<^verbatim>\<open>Rbtree_Spec\<close>: \<^verbatim>\<open>rbtree.c\<close> pointer by pointer. Insertion and
    removal return, keep the order of the other nodes and restore the red-black invariant.
  \<^item> \<^verbatim>\<open>Sched\<close>, \<^verbatim>\<open>Sched_Queue\<close>, \<^verbatim>\<open>Sched_Steps\<close>, \<^verbatim>\<open>Sched_Machine\<close>, \<^verbatim>\<open>Sched_Account\<close>: \<^verbatim>\<open>scheduler.c\<close> as a state machine of several CPUs,
    an event per critical section. In every reachable state no operation panics, a thread runs on at most
    one CPU and is on the run queue at most once, and the thread that is picked has the least virtual runtime
    of those queued. The weighted accounting is exact and saturates. The panics that check the lock discipline
    itself (\<^verbatim>\<open>spinlock_holding\<close>, \<^verbatim>\<open>intr_status\<close>, \<^verbatim>\<open>lock_nest_depth\<close>) are left out.
  \<^item> \<^verbatim>\<open>Wait\<close>, \<^verbatim>\<open>Wait_Spec\<close>: every function of \<^verbatim>\<open>wait.c\<close> on the scheduler's state. Each wake-up operation wakes exactly the
    threads it names, in order; a sleeper is on its queues exactly while it sleeps; moving waiters keeps their order.
  \<^item> \<^verbatim>\<open>Pipe\<close>, \<^verbatim>\<open>Pipe_Ring\<close>, \<^verbatim>\<open>Pipe_Spec\<close>: every function of \<^verbatim>\<open>pipe.c\<close>. The ring refines a bounded byte stream (locale
    \<open>byte_stream\<close>), small writes are atomic, reads return the oldest bytes, the answers of waiting are exact.
    A call that needs a page when none is free panics in \<^verbatim>\<open>palloc\<close>, and so does the model.

  \<^bold>\<open>Library.\<close>
  \<^item> \<^verbatim>\<open>Kstring\<close>: \<^verbatim>\<open>string.c\<close> on a flat byte memory: copies with overlap, string functions, \<^verbatim>\<open>qsort\<close>. It also shows that
    \<^verbatim>\<open>strncpy\<close> clears memory beyond its buffer when the source does not fit.
  \<^item> \<^verbatim>\<open>Ktime\<close>: conversions between nanoseconds and ticks, rounding and saturation, when \<^verbatim>\<open>ktime_ticks_to_ns\<close>
    wraps around, and the load average.

  \<^bold>\<open>Bounds.\<close> No definition has fuel. Loops recur on a measure that is proved to decrease, or are
  \<open>partial_function (option)\<close>, and then the theorems prove that they return.

  \<^bold>\<open>Not modelled.\<close>
  \<^item> Vendored libraries the kernel only calls: lwIP, lwext4, FatFs and libfdt.
  \<^item> Code whose work is device or processor access: assembly, traps, SBI, PLIC, UART, virtio transports and
    drivers, DMA, RTC, and the walk of the hardware page tables in \<^verbatim>\<open>arch/riscv/vm.c\<close>.
  \<^item> The spinlocks themselves: they are the granularity of the steps.
  \<^item> The subsystems above the ones listed here, which mostly dispatch to each other: the virtual file system and
    its file systems, processes, signals, futexes, memory mappings, the page cache, work queues, \<^verbatim>\<open>exec\<close>, the
    system call tables, sockets and the network core, printing and debugging. Where a modelled part calls
    them, their answer is an argument.
  \<^item> The runtime tests under \<^verbatim>\<open>tests/\<close>.
\<close>

end
